(* ===== verification/Prelude.thy ===== *)
theory Prelude
  imports Main "HOL-Library.Word" "HOL-Library.AList" "HOL-Library.Char_ord" "HOL-Library.List_Lexorder"
begin

text \<open>
  Shared vocabulary of the development: the machine integers of the Rust source, results,
  the named collections the component proofs use, and generic lemmas on words and lists.

  The source's integers keep their width.  \<open>u32\<close> and \<open>u64\<close> are words read with
  \<open>unat\<close>; \<open>i64\<close> and \<open>i32\<close> are words of the same width read with \<open>sint\<close>, so that Rust's
  \<open>as i64\<close> is the identity on the bits.  Arithmetic wraps, as it does in the release profile
  (\<open>Cargo.toml\<close> leaves overflow checks off there); \<open>saturating_mul\<close> is written out.
\<close>

section \<open>Types\<close>

type_synonym u32 = "32 word"
type_synonym u64 = "64 word"
type_synonym i32 = "32 word"
type_synonym i64 = "64 word"

type_synonym ('e, 'a) result = "'e + 'a"

section \<open>Collections\<close>

named_theorems int_facts \<open>reading machine words as integers\<close>
named_theorems kv_facts \<open>lookup, insertion and removal in the program's maps\<close>
named_theorems table_facts \<open>what each table operation does to rows and ids\<close>

section \<open>Results\<close>

definition is_ok :: "('e, 'a) result \<Rightarrow> bool" where
  "is_ok r = (case r of Inl _ \<Rightarrow> False | Inr _ \<Rightarrow> True)"

lemma is_ok_simps [simp]: "is_ok (Inr x)" "\<not> is_ok (Inl e)"
  by (simp_all add: is_ok_def)

lemma is_ok_iff: "is_ok r \<longleftrightarrow> (\<exists>x. r = Inr x)"
  by (cases r) auto

section \<open>Machine integers\<close>

definition i64_less :: "i64 \<Rightarrow> i64 \<Rightarrow> bool" where
  "i64_less a b = (sint a < sint b)"

definition saturating_mul_u64 :: "u64 \<Rightarrow> u64 \<Rightarrow> u64" where
  "saturating_mul_u64 a b = (if unat a * unat b < 2 ^ 64 then a * b else - 1)"

lemma unat_saturating_mul_u64 [int_facts]:
  "unat (saturating_mul_u64 a b) = min (unat a * unat b) (2 ^ 64 - 1)"
proof (cases "unat a * unat b < 2 ^ 64")
  case True
  then have "unat (a * b) = unat a * unat b"
    by (simp add: unat_word_ariths)
  with True show ?thesis by (simp add: saturating_mul_u64_def)
next
  case False
  moreover have "unat (- 1 :: u64) = 2 ^ 64 - 1"
    by (simp add: unsigned_minus_1_eq_mask mask_eq_exp_minus_1)
  ultimately show ?thesis by (simp add: saturating_mul_u64_def)
qed

lemma sint_nonneg_i64:
  fixes w :: i64
  assumes "unat w < 2 ^ 63"
  shows "sint w = int (unat w)"
proof -
  have u: "uint w = int (unat w)" by simp
  have "int (unat w) < int (2 ^ 63)" using assms by (simp only: of_nat_less_iff)
  then have "int (unat w) < 2 ^ 63" by (simp only: of_nat_power of_nat_numeral)
  then have "signed_take_bit 63 (uint w) = uint w"
    unfolding u by (intro signed_take_bit_int_eq_self) linarith+
  then have "sint w = uint w" by (simp only: sint_uint) simp
  then show ?thesis by (simp only: u)
qed

lemma sint_negative_i64:
  fixes w :: i64
  assumes "2 ^ 63 \<le> unat w"
  shows "sint w < 0"
proof -
  have "unat w < 2 ^ 64" using unsigned_less [of w, where 'a = nat] by simp
  with assms have "unat w div 2 ^ 63 = 1" by (intro div_nat_eqI) simp_all
  then have "odd (unat w div 2 ^ 63)" by simp
  then have "bit (unat w) 63" unfolding bit_iff_odd .
  then have "bit w (64 - Suc 0)" by (simp add: bit_unsigned_iff)
  then show ?thesis using bit_last_iff [of w] by simp
qed

lemma sint_diff_i64:
  fixes a b :: i64
  assumes "- (2 ^ 63) \<le> sint a - sint b" "sint a - sint b < 2 ^ 63"
  shows "sint (a - b) = sint a - sint b"
proof -
  have "sint (a - b) = signed_take_bit 63 (sint a - sint b)"
    by (simp add: sint_word_ariths)
  also have "\<dots> = sint a - sint b"
    using assms by (intro signed_take_bit_int_eq_self) auto
  finally show ?thesis .
qed

lemma unat_ucast_u32_u64 [int_facts]: "unat (ucast (w :: u32) :: u64) = unat w"
proof -
  have "unat w < 2 ^ 32" using unsigned_less [of w, where 'a = nat] by simp
  then show ?thesis by (simp add: unsigned_ucast_eq take_bit_nat_eq_self)
qed

lemma unat_Suc_u32 [int_facts]:
  fixes w :: u32
  assumes "unat w < 2 ^ 32 - 1"
  shows "unat (w + 1) = unat w + 1"
  using assms by (simp add: unat_word_ariths)

lemma u32_less_plus_one:
  fixes w :: u32
  assumes "w < x"
  shows "unat (w + 1) = unat w + 1"
proof -
  have "unat w < unat x" using assms by (simp add: word_less_nat_alt)
  moreover have "unat x < 2 ^ 32" using unsigned_less [of x, where 'a = nat] by simp
  ultimately show ?thesis by (intro unat_Suc_u32) simp
qed

lemma u32_max: "unat (- 1 :: u32) = 2 ^ 32 - 1"
  by (simp add: unsigned_minus_1_eq_mask mask_eq_exp_minus_1)

lemma u32_bound: "unat (w :: u32) < 2 ^ 32"
  using unsigned_less [of w, where 'a = nat] by simp

lemma u64_bound: "unat (w :: u64) < 2 ^ 64"
  using unsigned_less [of w, where 'a = nat] by simp

lemma u32_less_Suc:
  fixes w :: u32
  assumes "w \<noteq> - 1"
  shows "w < w + 1"
proof -
  have "unat w \<noteq> 2 ^ 32 - 1"
    using assms u32_max by (metis word_unat_eq_iff)
  with u32_bound [of w] have "unat w < 2 ^ 32 - 1" by simp
  then show ?thesis by (simp only: word_less_nat_alt unat_Suc_u32)
qed

section \<open>Lists\<close>

lemma sorted_take_drop_le:
  assumes "sorted (map f xs)" "x \<in> set (take n xs)" "y \<in> set (drop n xs)"
  shows "f x \<le> f y"
proof -
  have "sorted (map f (take n xs) @ map f (drop n xs))"
    using assms(1) by (metis append_take_drop_id map_append)
  with assms(2,3) show ?thesis by (auto simp: sorted_append)
qed

lemma distinct_map_filter_fst:
  "distinct (map fst xs) \<Longrightarrow> distinct (map fst (filter P xs))"
  by (induction xs) auto

lemma dropWhile_filter_hd: "dropWhile P xs \<noteq> [] \<Longrightarrow> \<not> P (hd (dropWhile P xs))"
  by (rule hd_dropWhile)

end
