(* ===== verification/Errs.thy ===== *)
theory Errs
  imports Prelude
begin

text \<open>
  The errors the source reports through \<open>anyhow\<close>: one constructor per \<open>bail!\<close>, \<open>context\<close> or
  \<open>anyhow!\<close> message, with the values the message prints.
\<close>

datatype err =
    \<comment> \<open>\<open>src/config.rs\<close>\<close>
    E_no_env_section string string
  | E_overlay_not_object string
  | E_script_empty
  | E_instances_zero
  | E_exec_mode string
  | E_unknown_field string
  | E_invalid_cron string
  | E_runtime_and_interpreter
  | E_health_command_empty
  | E_health_zero
  | E_invalid_memory string
  | E_cannot_read string
  | E_cannot_resolve string
  | E_invalid_json
  | E_json_no_apps
  | E_json_shape
  | E_invalid_app
  | E_invalid_yaml
  | E_yaml_to_json
  | E_yaml_shape
  | E_invalid_toml
  | E_js_config string
  | E_unsupported_extension string
  | E_no_apps string
  | E_in_app string err
    \<comment> \<open>\<open>src/daemon/ops.rs\<close>, \<open>src/daemon/supervisor.rs\<close>\<close>
  | E_shutting_down
  | E_already_exists string
  | E_occupied u32
  | E_no_process_id u32
  | E_no_process_ids "u32 list"
  | E_no_process_named "string list"
  | E_supervisor_died u32
  | E_vanished u32
  | E_uid_needs_root
  | E_cannot_spawn string "string option" string
  | E_user_lookup string
  | E_no_such_user string
  | E_group_lookup string
  | E_no_such_group string
  | E_scale_zero string
  | E_task_panicked string
  | E_scale_not_found string
    \<comment> \<open>\<open>src/daemon/dump.rs\<close>, \<open>src/daemon/rpc.rs\<close>\<close>
  | E_dump_would_be_empty
  | E_dump_io
  | E_no_usable_dump
  | E_backup_corrupt
  | E_unknown_signal string
  | E_unreachable
  | E_invalid_request string

type_synonym 'a res = "(err, 'a) result"

end
