(* ===== verification/Kv.thy ===== *)
theory Kv
  imports Prelude
begin

text \<open>
  The two maps of the source, behind one interface.  \<open>HashMap\<close> is an association list with
  distinct keys, whose order stands for the unspecified iteration order; \<open>BTreeMap\<close> is an
  association list kept sorted by key.  The locale \<open>kv_map\<close> states what both promise; its
  lemmas are proved once and used by the components through the two interpretations.
\<close>

section \<open>The interface\<close>

locale kv_map =
  fixes get :: "'m \<Rightarrow> 'k \<Rightarrow> 'v option"
    and put :: "'k \<Rightarrow> 'v \<Rightarrow> 'm \<Rightarrow> 'm"
    and del :: "'k \<Rightarrow> 'm \<Rightarrow> 'm"
    and rows :: "'m \<Rightarrow> ('k \<times> 'v) list"
    and good :: "'m \<Rightarrow> bool"
  assumes get_put: "good m \<Longrightarrow> get (put k v m) k' = (if k' = k then Some v else get m k')"
    and get_del: "good m \<Longrightarrow> get (del k m) k' = (if k' = k then None else get m k')"
    and rows_get: "good m \<Longrightarrow> (k, v) \<in> set (rows m) \<longleftrightarrow> get m k = Some v"
    and rows_distinct: "good m \<Longrightarrow> distinct (map fst (rows m))"
    and good_put: "good m \<Longrightarrow> good (put k v m)"
    and good_del: "good m \<Longrightarrow> good (del k m)"
begin

lemma put_get_same: "good m \<Longrightarrow> get (put k v m) k = Some v"
  by (simp add: get_put)

lemma keys_iff:
  assumes "good m"
  shows "k \<in> set (map fst (rows m)) \<longleftrightarrow> get m k \<noteq> None"
proof
  assume "k \<in> set (map fst (rows m))"
  then obtain v where "(k, v) \<in> set (rows m)" by auto
  with assms show "get m k \<noteq> None" by (simp add: rows_get)
next
  assume "get m k \<noteq> None"
  then obtain v where "get m k = Some v" by auto
  with assms have "(k, v) \<in> set (rows m)" by (simp add: rows_get)
  then show "k \<in> set (map fst (rows m))" by (force intro: image_eqI)
qed

lemma keys_put: "good m \<Longrightarrow> set (map fst (rows (put k v m))) = insert k (set (map fst (rows m)))"
  by (rule set_eqI) (simp add: keys_iff good_put get_put del: set_map)

lemma keys_del: "good m \<Longrightarrow> set (map fst (rows (del k m))) = set (map fst (rows m)) - {k}"
  by (rule set_eqI) (simp add: keys_iff good_del get_del del: set_map)

lemma values_iff:
  assumes "good m"
  shows "v \<in> set (map snd (rows m)) \<longleftrightarrow> (\<exists>k. get m k = Some v)"
proof -
  have "v \<in> set (map snd (rows m)) \<longleftrightarrow> (\<exists>k. (k, v) \<in> set (rows m))" by force
  with assms show ?thesis by (simp add: rows_get)
qed

lemma rows_empty_iff: "good m \<Longrightarrow> rows m = [] \<longleftrightarrow> (\<forall>k. get m k = None)"
proof -
  assume g: "good m"
  have "rows m = [] \<longleftrightarrow> set (map fst (rows m)) = {}" by simp
  also have "\<dots> \<longleftrightarrow> (\<forall>k. k \<notin> set (map fst (rows m)))"
    by (metis all_not_in_conv)
  also have "\<dots> \<longleftrightarrow> (\<forall>k. get m k = None)" by (simp only: keys_iff [OF g] not_not)
  finally show ?thesis .
qed

lemma card_keys: "good m \<Longrightarrow> card (set (map fst (rows m))) = length (rows m)"
  using distinct_card [OF rows_distinct] by simp

lemma length_put_new: "good m \<Longrightarrow> get m k = None \<Longrightarrow> length (rows (put k v m)) = Suc (length (rows m))"
  using card_keys [of m] card_keys [of "put k v m"] keys_iff [of m k]
  by (simp add: good_put keys_put del: set_map)

end

section \<open>\<open>HashMap\<close>\<close>

type_synonym ('k, 'v) hmap = "('k \<times> 'v) list"

definition hm_get :: "('k, 'v) hmap \<Rightarrow> 'k \<Rightarrow> 'v option" where
  "hm_get m k = map_of m k"

definition hm_put :: "'k \<Rightarrow> 'v \<Rightarrow> ('k, 'v) hmap \<Rightarrow> ('k, 'v) hmap" where
  "hm_put k v m = AList.update k v m"

definition hm_del :: "'k \<Rightarrow> ('k, 'v) hmap \<Rightarrow> ('k, 'v) hmap" where
  "hm_del k m = AList.delete k m"

definition hm_rows :: "('k, 'v) hmap \<Rightarrow> ('k \<times> 'v) list" where
  "hm_rows m = m"

definition hm_good :: "('k, 'v) hmap \<Rightarrow> bool" where
  "hm_good m = distinct (map fst m)"

interpretation hm: kv_map hm_get hm_put hm_del hm_rows hm_good
proof (unfold_locales, goal_cases)
  case 1 then show ?case by (simp add: hm_get_def hm_put_def update_conv)
next
  case 2 then show ?case by (simp add: hm_get_def hm_del_def delete_conv')
next
  case 3 then show ?case by (simp add: hm_get_def hm_rows_def hm_good_def)
next
  case 4 then show ?case by (simp add: hm_rows_def hm_good_def)
next
  case 5 then show ?case by (simp add: hm_put_def hm_good_def distinct_update)
next
  case 6 then show ?case by (simp add: hm_del_def hm_good_def distinct_delete)
qed

lemma hm_good_Nil [simp]: "hm_good []"
  by (simp add: hm_good_def)

lemma hm_get_Nil [simp]: "hm_get [] k = None"
  by (simp add: hm_get_def)

text \<open>Lookups after an update need no invariant on association lists.\<close>

lemma hm_get_put [simp]: "hm_get (hm_put k v m) k' = (if k' = k then Some v else hm_get m k')"
  by (simp add: hm_get_def hm_put_def update_conv)

lemma hm_get_del [simp]: "hm_get (hm_del k m) k' = (if k' = k then None else hm_get m k')"
  by (simp add: hm_get_def hm_del_def delete_conv')

lemmas hm_good_intros [simp, intro] = hm.good_put hm.good_del

lemmas [kv_facts] = hm.keys_put hm.keys_del hm.keys_iff hm.rows_get hm.values_iff

section \<open>\<open>BTreeMap\<close>\<close>

text \<open>\<open>BTreeMap::insert\<close> keeps the entries in key order; \<open>get\<close> and \<open>remove\<close> search by key.\<close>

type_synonym ('k, 'v) bmap = "('k \<times> 'v) list"

fun bt_insert :: "'k :: linorder \<Rightarrow> 'v \<Rightarrow> ('k, 'v) bmap \<Rightarrow> ('k, 'v) bmap" where
  "bt_insert k v [] = [(k, v)]"
| "bt_insert k v ((k', v') # m) =
     (if k < k' then (k, v) # (k', v') # m
      else if k = k' then (k, v) # m
      else (k', v') # bt_insert k v m)"

definition bt_get :: "('k :: linorder, 'v) bmap \<Rightarrow> 'k \<Rightarrow> 'v option" where
  "bt_get m k = map_of m k"

definition bt_remove :: "'k :: linorder \<Rightarrow> ('k, 'v) bmap \<Rightarrow> ('k, 'v) bmap" where
  "bt_remove k m = filter (\<lambda>p. fst p \<noteq> k) m"

definition bt_rows :: "('k :: linorder, 'v) bmap \<Rightarrow> ('k \<times> 'v) list" where
  "bt_rows m = m"

definition bt_good :: "('k :: linorder, 'v) bmap \<Rightarrow> bool" where
  "bt_good m = (sorted (map fst m) \<and> distinct (map fst m))"

lemma keys_bt_insert: "fst ` set (bt_insert k v m) = insert k (fst ` set m)"
  by (induction k v m rule: bt_insert.induct) auto

lemma bt_good_Cons:
  "bt_good ((k, v) # m) \<longleftrightarrow> bt_good m \<and> (\<forall>k' \<in> fst ` set m. k < k')"
  by (force simp: bt_good_def order.strict_iff_order)

lemma bt_good_insert: "bt_good m \<Longrightarrow> bt_good (bt_insert k v m)"
proof (induction k v m rule: bt_insert.induct)
  case (1 k v)
  then show ?case by (simp add: bt_good_def)
next
  case (2 k v k' v' m)
  then have m: "bt_good m" "\<forall>x \<in> fst ` set m. k' < x"
    by (simp_all add: bt_good_Cons)
  consider "k < k'" | "k = k'" | "k' < k" by fastforce
  then show ?case
  proof cases
    case 1
    with m show ?thesis by (auto simp: bt_good_Cons)
  next
    case 2
    with m show ?thesis by (simp add: bt_good_Cons)
  next
    case 3
    with m "2.IH" show ?thesis by (auto simp: bt_good_Cons keys_bt_insert)
  qed
qed

lemma bt_get_insert [simp]:
  "bt_get (bt_insert k v m) k' = (if k' = k then Some v else bt_get m k')"
  by (induction k v m rule: bt_insert.induct) (auto simp: bt_get_def)

lemma bt_get_remove [simp]:
  "bt_get (bt_remove k m) k' = (if k' = k then None else bt_get m k')"
  by (induction m) (auto simp: bt_get_def bt_remove_def)

lemma bt_good_remove: "bt_good m \<Longrightarrow> bt_good (bt_remove k m)"
  by (simp add: bt_good_def bt_remove_def sorted_filter distinct_map_filter_fst)

lemma bt_get_Nil [simp]: "bt_get [] k = None"
  by (simp add: bt_get_def)

lemma bt_good_Nil [simp]: "bt_good []"
  by (simp add: bt_good_def)

interpretation bt: kv_map bt_get bt_insert bt_remove bt_rows bt_good
proof (unfold_locales, goal_cases)
  case 1 show ?case by simp
next
  case 2 show ?case by simp
next
  case 3 then show ?case by (simp add: bt_get_def bt_rows_def bt_good_def)
next
  case 4 then show ?case by (simp add: bt_rows_def bt_good_def)
next
  case 5 then show ?case by (rule bt_good_insert)
next
  case 6 then show ?case by (rule bt_good_remove)
qed

lemmas [kv_facts] = bt.keys_put bt.keys_iff bt.rows_get

text \<open>Collecting a sequence of pairs: \<open>collect()\<close> into a \<open>BTreeMap\<close>, later pairs win.\<close>

definition bt_of_pairs :: "('k :: linorder \<times> 'v) list \<Rightarrow> ('k, 'v) bmap" where
  "bt_of_pairs ps = fold (\<lambda>(k, v) m. bt_insert k v m) ps []"

lemma bt_good_fold: "bt_good m \<Longrightarrow> bt_good (fold (\<lambda>(k, v) m. bt_insert k v m) ps m)"
  by (induction ps arbitrary: m) (auto simp: bt_good_insert)

lemma bt_good_of_pairs: "bt_good (bt_of_pairs ps)"
  by (simp add: bt_of_pairs_def bt_good_fold)

lemma bt_get_fold:
  "bt_get (fold (\<lambda>(k, v) m. bt_insert k v m) ps m) k =
     (case map_of (rev ps) k of None \<Rightarrow> bt_get m k | Some v \<Rightarrow> Some v)"
  by (induction ps arbitrary: m) (auto simp: map_add_def split: option.splits)

end
