(* ===== verification/Rust_Str.thy ===== *)
theory Rust_Str
  imports Prelude
begin

text \<open>
  Rust strings as lists of UTF-8 bytes (\<open>string\<close>, whose characters are bytes), and the
  standard-library operations the source uses on them: \<open>trim\<close>, \<open>parse::<u32/u64>\<close>,
  \<open>to_string\<close> of unsigned integers, prefixes and substrings, and the \<open>Path\<close> operations
  \<open>file_name\<close>, \<open>file_stem\<close>, \<open>extension\<close>, \<open>with_extension\<close> and \<open>join\<close>.  Bytes, not code
  points, because the source slices by byte offset and asks \<open>is_char_boundary\<close>.
\<close>

section \<open>Characters\<close>

definition is_digit :: "char \<Rightarrow> bool" where
  "is_digit c = (CHR ''0'' \<le> c \<and> c \<le> CHR ''9'')"

definition is_ascii_alphanumeric :: "char \<Rightarrow> bool" where
  "is_ascii_alphanumeric c =
     (is_digit c \<or> (CHR ''A'' \<le> c \<and> c \<le> CHR ''Z'') \<or> (CHR ''a'' \<le> c \<and> c \<le> CHR ''z''))"

text \<open>A UTF-8 continuation byte: \<open>10xxxxxx\<close>.  \<open>is_char_boundary(i)\<close> asks for the absence of one.\<close>

definition is_cont :: "char \<Rightarrow> bool" where
  "is_cont c = (of_char c div 64 = (2 :: nat))"

definition is_char_boundary :: "string \<Rightarrow> nat \<Rightarrow> bool" where
  "is_char_boundary s i = (i = 0 \<or> i = length s \<or> (i < length s \<and> \<not> is_cont (s ! i)))"

section \<open>Unsigned integers in decimal\<close>

definition digit_char :: "nat \<Rightarrow> char" where
  "digit_char d = char_of (48 + d)"

definition digit_val :: "char \<Rightarrow> nat" where
  "digit_val c = of_char c - 48"

fun show_nat :: "nat \<Rightarrow> string" where
  "show_nat n = (if n < 10 then [digit_char n] else show_nat (n div 10) @ [digit_char (n mod 10)])"

declare show_nat.simps [simp del]

definition show_word :: "'w :: len word \<Rightarrow> string" where
  "show_word w = show_nat (unat w)"

text \<open>\<open>from_str\<close> for an unsigned type with \<open>bound\<close> values: an optional \<open>+\<close>, then one or more
  digits; overflow is an error.\<close>

definition digits_val :: "string \<Rightarrow> nat" where
  "digits_val s = foldl (\<lambda>n c. 10 * n + digit_val c) 0 s"

definition parse_uint :: "nat \<Rightarrow> string \<Rightarrow> nat option" where
  "parse_uint bound s =
     (let ds = (case s of c # r \<Rightarrow> if c = CHR ''+'' then r else s | [] \<Rightarrow> [])
      in if ds \<noteq> [] \<and> list_all is_digit ds \<and> digits_val ds < bound then Some (digits_val ds) else None)"

definition parse_u32 :: "string \<Rightarrow> u32 option" where
  "parse_u32 s = map_option of_nat (parse_uint (2 ^ 32) s)"

definition parse_u64 :: "string \<Rightarrow> u64 option" where
  "parse_u64 s = map_option of_nat (parse_uint (2 ^ 64) s)"

lemma of_char_digit_char: "d < 10 \<Longrightarrow> of_char (digit_char d) = 48 + d"
  by (simp add: digit_char_def)

lemma digit_val_digit_char [simp]: "d < 10 \<Longrightarrow> digit_val (digit_char d) = d"
  by (simp add: digit_val_def of_char_digit_char)

lemma is_digit_iff: "is_digit c \<longleftrightarrow> 48 \<le> (of_char c :: nat) \<and> (of_char c :: nat) \<le> 57"
  by (simp add: is_digit_def less_eq_char_def)

lemma is_digit_digit_char [simp]: "d < 10 \<Longrightarrow> is_digit (digit_char d)"
  by (simp add: is_digit_iff of_char_digit_char)

lemma digits_val_snoc: "digits_val (s @ [c]) = 10 * digits_val s + digit_val c"
  by (simp add: digits_val_def)

lemma digits_val_show_nat [simp]: "digits_val (show_nat n) = n"
proof (induction n rule: show_nat.induct)
  case (1 n)
  show ?case
  proof (cases "n < 10")
    case True
    then show ?thesis by (simp add: show_nat.simps [of n] digits_val_def)
  next
    case False
    with "1.IH" show ?thesis by (simp add: show_nat.simps [of n] digits_val_snoc)
  qed
qed

lemma show_nat_digits: "list_all is_digit (show_nat n)"
proof (induction n rule: show_nat.induct)
  case (1 n)
  then show ?case by (cases "n < 10") (simp_all add: show_nat.simps [of n])
qed

lemma show_nat_not_Nil [simp]: "show_nat n \<noteq> []"
  by (subst show_nat.simps) simp

lemma show_nat_inj: "show_nat m = show_nat n \<longleftrightarrow> m = n"
  by (metis digits_val_show_nat)

lemma digit_not_plus: "is_digit c \<Longrightarrow> c \<noteq> CHR ''+''"
  by (auto simp: is_digit_iff)

lemma parse_uint_digits:
  "ds \<noteq> [] \<Longrightarrow> list_all is_digit ds \<Longrightarrow>
    parse_uint b ds = (if digits_val ds < b then Some (digits_val ds) else None)"
  by (cases ds) (simp_all add: parse_uint_def digit_not_plus Let_def)

lemma parse_uint_show_nat: "n < b \<Longrightarrow> parse_uint b (show_nat n) = Some n"
  by (simp add: parse_uint_digits show_nat_digits)

lemma parse_u32_show [simp]: "parse_u32 (show_word (w :: u32)) = Some w"
proof -
  have "unat w < 2 ^ 32" using unsigned_less [of w, where 'a = nat] by simp
  then show ?thesis by (simp add: parse_u32_def show_word_def parse_uint_show_nat)
qed

lemma parse_u64_show [simp]: "parse_u64 (show_word (w :: u64)) = Some w"
proof -
  have "unat w < 2 ^ 64" using unsigned_less [of w, where 'a = nat] by simp
  then show ?thesis by (simp add: parse_u64_def show_word_def parse_uint_show_nat)
qed

lemma show_word_inj: "show_word v = show_word w \<longleftrightarrow> v = (w :: 'w :: len word)"
  by (simp add: show_word_def show_nat_inj word_unat_eq_iff)

lemma parse_uint_plus:
  "parse_uint b (CHR ''+'' # ds) =
     (if ds \<noteq> [] \<and> list_all is_digit ds \<and> digits_val ds < b then Some (digits_val ds) else None)"
  by (simp add: parse_uint_def)

lemma parse_uint_None_nondigit:
  "c \<in> set s \<Longrightarrow> \<not> is_digit c \<Longrightarrow> c \<noteq> CHR ''+'' \<Longrightarrow> parse_uint b s = None"
  by (cases s) (auto simp: parse_uint_def Let_def list_all_iff)

section \<open>Whitespace\<close>

text \<open>The UTF-8 encodings of the characters with the Unicode property \<open>White_Space\<close>.\<close>

definition ws_chars :: "string list" where
  "ws_chars = map (map char_of)
     ([[9], [10], [11], [12], [13], [32], [0xC2, 0x85], [0xC2, 0xA0], [0xE1, 0x9A, 0x80 :: nat],
       [0xE2, 0x80, 0xA8], [0xE2, 0x80, 0xA9], [0xE2, 0x80, 0xAF], [0xE2, 0x81, 0x9F], [0xE3, 0x80, 0x80]]
      @ map (\<lambda>b. [0xE2, 0x80, b]) [0x80 ..< 0x8B])"

definition starts_with :: "string \<Rightarrow> string \<Rightarrow> bool" where
  "starts_with s p = (take (length p) s = p)"

definition ends_with :: "string \<Rightarrow> string \<Rightarrow> bool" where
  "ends_with s p = (length p \<le> length s \<and> drop (length s - length p) s = p)"

function trim_start :: "string \<Rightarrow> string" where
  "trim_start s =
     (case find (starts_with s) ws_chars of
        None \<Rightarrow> s
      | Some w \<Rightarrow> trim_start (drop (length w) s))"
  by pat_completeness auto
termination
proof (relation "measure length", goal_cases)
  case 1 show ?case by simp
next
  case (2 s w)
  then have w: "starts_with s w" "w \<in> set ws_chars"
    by (auto simp: find_Some_iff)
  then have "w \<noteq> []" by (auto simp: ws_chars_def)
  moreover have "s \<noteq> []" using w(1) \<open>w \<noteq> []\<close> by (auto simp: starts_with_def)
  ultimately show ?case by (simp add: length_greater_0_conv)
qed

function trim_end :: "string \<Rightarrow> string" where
  "trim_end s =
     (case find (ends_with s) ws_chars of
        None \<Rightarrow> s
      | Some w \<Rightarrow> trim_end (take (length s - length w) s))"
  by pat_completeness auto
termination
proof (relation "measure length", goal_cases)
  case 1 show ?case by simp
next
  case (2 s w)
  then have w: "ends_with s w" "w \<in> set ws_chars"
    by (auto simp: find_Some_iff)
  then have "w \<noteq> []" by (auto simp: ws_chars_def)
  with w(1) have "0 < length w" "length w \<le> length s" by (auto simp: ends_with_def)
  then show ?case by (simp del: length_greater_0_conv)
qed

declare trim_start.simps [simp del] trim_end.simps [simp del]

definition trim :: "string \<Rightarrow> string" where
  "trim s = trim_end (trim_start s)"

lemma trim_start_id: "find (starts_with s) ws_chars = None \<Longrightarrow> trim_start s = s"
  by (subst trim_start.simps) simp

lemma trim_end_id: "find (ends_with s) ws_chars = None \<Longrightarrow> trim_end s = s"
  by (subst trim_end.simps) simp

text \<open>A string whose first and last bytes are printable ASCII is its own trim.\<close>

definition plain :: "char \<Rightarrow> bool" where
  "plain c = (33 \<le> (of_char c :: nat) \<and> (of_char c :: nat) < 128)"

lemma ws_char_bytes: "w \<in> set ws_chars \<Longrightarrow> w \<noteq> [] \<and> \<not> plain (hd w) \<and> \<not> plain (last w)"
  by (auto simp: ws_chars_def plain_def)

lemma trim_plain:
  assumes "s \<noteq> []" "plain (hd s)" "plain (last s)"
  shows "trim s = s"
proof -
  have start: "\<not> starts_with s w" if w: "w \<in> set ws_chars" for w
  proof
    assume sw: "starts_with s w"
    from ws_char_bytes [OF w] obtain c r where cr: "w = c # r" "\<not> plain c" by (cases w) auto
    with sw assms(1) have "hd s = c" by (cases s) (auto simp: starts_with_def)
    with cr assms(2) show False by simp
  qed
  have fin: "\<not> ends_with s w" if w: "w \<in> set ws_chars" for w
  proof
    assume ew: "ends_with s w"
    from ws_char_bytes [OF w] have ne: "w \<noteq> []" "\<not> plain (last w)" by auto
    from ew have "last s = last w"
      using ne(1) by (metis append_take_drop_id ends_with_def last_appendR)
    with ne assms(3) show False by simp
  qed
  have "find (starts_with s) ws_chars = None" "find (ends_with s) ws_chars = None"
    using start fin by (auto simp: find_None_iff)
  then show ?thesis by (simp add: trim_def trim_start_id trim_end_id)
qed

section \<open>Substrings\<close>

fun str_contains :: "string \<Rightarrow> string \<Rightarrow> bool" where
  "str_contains [] p = (p = [])"
| "str_contains (c # s) p = (starts_with (c # s) p \<or> str_contains s p)"

text \<open>Splitting at a separator byte; always at least one piece.\<close>

fun split_on :: "char \<Rightarrow> string \<Rightarrow> string list" where
  "split_on d [] = [[]]"
| "split_on d (c # s) =
     (if c = d then [] # split_on d s
      else (case split_on d s of [] \<Rightarrow> [[c]] | w # ws \<Rightarrow> (c # w) # ws))"

lemma split_on_not_Nil [simp]: "split_on d s \<noteq> []"
  by (induction s) (auto split: list.splits)

lemma split_on_notin: "d \<notin> set s \<Longrightarrow> split_on d s = [s]"
  by (induction s) auto

lemma split_on_append: "split_on d (a @ d # b) = split_on d a @ split_on d b"
proof (induction a)
  case Nil
  show ?case by simp
next
  case (Cons c a)
  then show ?case by (cases "split_on d a") auto
qed

section \<open>Paths\<close>

text \<open>\<open>Path::file_name\<close>: the last component if it is a normal one.  Empty and \<open>.\<close> components
  are skipped; \<open>..\<close> has no file name.\<close>

definition path_file_name :: "string \<Rightarrow> string option" where
  "path_file_name p =
     (let cs = filter (\<lambda>c. c \<noteq> [] \<and> c \<noteq> ''.'') (split_on (CHR ''/'') p)
      in if cs = [] \<or> last cs = ''..'' then None else Some (last cs))"

text \<open>\<open>file_stem\<close> and \<open>extension\<close> split the name at its last dot, unless that dot is the first byte.\<close>

definition last_dot_split :: "string \<Rightarrow> (string \<times> string) option" where
  "last_dot_split n =
     (let r = rev n; ext = rev (takeWhile (\<lambda>c. c \<noteq> CHR ''.'') r);
          rest = dropWhile (\<lambda>c. c \<noteq> CHR ''.'') r
      in case rest of [] \<Rightarrow> None | _ # stem \<Rightarrow> if stem = [] then None else Some (rev stem, ext))"

definition path_file_stem :: "string \<Rightarrow> string option" where
  "path_file_stem p =
     map_option (\<lambda>n. case last_dot_split n of None \<Rightarrow> n | Some (stem, _) \<Rightarrow> stem) (path_file_name p)"

definition path_extension :: "string \<Rightarrow> string option" where
  "path_extension p =
     Option.bind (path_file_name p) (\<lambda>n. map_option snd (last_dot_split n))"

text \<open>
  \<open>with_extension\<close> cuts the path at the end of the file stem, so separators and \<open>.\<close> components
  after the file name go too; a path with no file name is returned as it is.
\<close>

fun trim_tail_rev :: "string \<Rightarrow> string" where
  "trim_tail_rev (c # r) =
     (if c = CHR ''/'' then trim_tail_rev r
      else if c = CHR ''.'' \<and> r \<noteq> [] \<and> hd r = CHR ''/'' then trim_tail_rev r
      else c # r)"
| "trim_tail_rev [] = []"

definition path_with_extension :: "string \<Rightarrow> string \<Rightarrow> string" where
  "path_with_extension p ext =
     (case path_file_name p of
        None \<Rightarrow> p
      | Some n \<Rightarrow>
          let body = rev (trim_tail_rev (rev p));
              stem = (case last_dot_split n of None \<Rightarrow> n | Some (st, _) \<Rightarrow> st);
              cut = take (length body - length n + length stem) body
          in if ext = [] then cut else cut @ ''.'' @ ext)"

text \<open>The components as \<open>Path\<close> compares them: the root, then the non-empty pieces other than \<open>.\<close>
  (a leading \<open>.\<close> of a relative path is a component of its own).\<close>

definition path_components :: "string \<Rightarrow> string list" where
  "path_components p =
     (if starts_with p ''/'' then [''/''] else if starts_with (p @ ''/'') ''./'' then [''.''] else [])
     @ filter (\<lambda>c. c \<noteq> [] \<and> c \<noteq> ''.'') (split_on (CHR ''/'') p)"

text \<open>\<open>parent\<close>: the path up to its last component, \<open>None\<close> for the root and the empty path.\<close>

definition path_parent :: "string \<Rightarrow> string option" where
  "path_parent p =
     (let cs = path_components p in
      if cs = [] \<or> cs = [''/''] then None
      else
        let body = rev (trim_tail_rev (rev p));
            pre = rev (trim_tail_rev (rev (take (length body - length (last cs)) body)))
        in Some (if pre = [] \<and> starts_with p ''/'' then ''/'' else pre))"

text \<open>\<open>PathBuf::push\<close> as \<open>join\<close> uses it: an absolute argument replaces the base.\<close>

definition path_join :: "string \<Rightarrow> string \<Rightarrow> string" where
  "path_join base p =
     (if starts_with p ''/'' then p
      else if base = [] \<or> last base = CHR ''/'' then base @ p
      else base @ ''/'' @ p)"

lemma path_join_inj: "\<not> starts_with p ''/'' \<Longrightarrow> \<not> starts_with q ''/'' \<Longrightarrow>
    path_join b p = path_join b q \<longleftrightarrow> p = q"
  by (simp add: path_join_def)

end
