(* ===== verification/Paths.thy ===== *)
theory Paths
  imports Rust_Str
begin

text \<open>
  \<open>src/paths.rs\<close>: the layout of the pmr home directory and the default log and pid file names.
  The process environment (\<open>std::env::var\<close>) is the argument \<open>ev\<close>.
\<close>

type_synonym env_vars = "string \<Rightarrow> string option"

section \<open>Definitions\<close>

definition home :: "env_vars \<Rightarrow> string" where
  "home ev =
     (case ev ''PMR_HOME'' of
        Some h \<Rightarrow> if h \<noteq> [] then h
                  else path_join (case ev ''HOME'' of Some b \<Rightarrow> b | None \<Rightarrow> ''/etc'') ''.pmr''
      | None \<Rightarrow> path_join (case ev ''HOME'' of Some b \<Rightarrow> b | None \<Rightarrow> ''/etc'') ''.pmr'')"

definition rpc_sock :: "env_vars \<Rightarrow> string" where
  "rpc_sock ev = path_join (home ev) ''rpc.sock''"

definition daemon_pid_file :: "env_vars \<Rightarrow> string" where
  "daemon_pid_file ev = path_join (home ev) ''pmr.pid''"

definition daemon_log :: "env_vars \<Rightarrow> string" where
  "daemon_log ev = path_join (home ev) ''pmr.log''"

definition dump_file :: "env_vars \<Rightarrow> string" where
  "dump_file ev = path_join (home ev) ''dump.pmr''"

definition dump_backup_file :: "env_vars \<Rightarrow> string" where
  "dump_backup_file ev = path_join (home ev) ''dump.pmr.bak''"

definition log_dir :: "env_vars \<Rightarrow> string" where
  "log_dir ev = path_join (home ev) ''logs''"

definition pid_dir :: "env_vars \<Rightarrow> string" where
  "pid_dir ev = path_join (home ev) ''pids''"

text \<open>
  \<open>chars().map(..)\<close> over UTF-8: an allowed byte is kept, any other character becomes one dash,
  so its continuation bytes disappear.
\<close>

definition name_char :: "char \<Rightarrow> bool" where
  "name_char c = (is_ascii_alphanumeric c \<or> c = CHR ''.'' \<or> c = CHR ''-'')"

fun sanitize_name :: "string \<Rightarrow> string" where
  "sanitize_name [] = []"
| "sanitize_name (c # cs) =
     (if name_char c then c # sanitize_name cs
      else if is_cont c then sanitize_name cs
      else CHR ''-'' # sanitize_name cs)"

definition default_log_path :: "env_vars \<Rightarrow> string \<Rightarrow> u32 \<Rightarrow> string \<Rightarrow> bool \<Rightarrow> string" where
  "default_log_path ev nm pm_id kind merge_logs =
     (let base = sanitize_name nm
      in if merge_logs then path_join (log_dir ev) (base @ ''-'' @ kind @ ''.log'')
         else path_join (log_dir ev) (base @ ''-'' @ show_word pm_id @ ''-'' @ kind @ ''.log''))"

definition default_pid_path :: "env_vars \<Rightarrow> string \<Rightarrow> u32 \<Rightarrow> string" where
  "default_pid_path ev nm pm_id = path_join (pid_dir ev) (sanitize_name nm @ ''-'' @ show_word pm_id @ ''.pid'')"

section \<open>Sanitised names\<close>

lemma sanitize_name_chars: "set (sanitize_name s) \<subseteq> {c. name_char c}"
  by (induction s) (auto simp: name_char_def)

lemma sanitize_name_id: "list_all name_char s \<Longrightarrow> sanitize_name s = s"
  by (induction s) auto

lemma sanitize_name_idem: "sanitize_name (sanitize_name s) = sanitize_name s"
  using sanitize_name_chars [of s] by (intro sanitize_name_id) (auto simp: list_all_iff)

lemma slash_not_name_char: "\<not> name_char (CHR ''/'')"
  by (simp add: name_char_def is_ascii_alphanumeric_def is_digit_def)

lemma slash_notin_sanitize: "CHR ''/'' \<notin> set (sanitize_name s)"
  using sanitize_name_chars slash_not_name_char by blast

lemma length_sanitize_name: "length (sanitize_name s) \<le> length s"
  by (induction s) auto

section \<open>Default file names keep processes apart\<close>

text \<open>The number between the last two dashes can be read back from a generated name.\<close>

lemma digits_no_dash: "list_all is_digit ds \<Longrightarrow> CHR ''-'' \<notin> set ds"
  by (auto simp: list_all_iff is_digit_iff)

lemma dash_suffix_unique:
  assumes "a @ CHR ''-'' # ds = b @ CHR ''-'' # es" "CHR ''-'' \<notin> set ds" "CHR ''-'' \<notin> set es"
  shows "a = b \<and> ds = es"
proof -
  have "rev ds @ CHR ''-'' # rev a = rev es @ CHR ''-'' # rev b"
    using arg_cong [OF assms(1), of rev] by simp
  moreover have "takeWhile (\<lambda>c. c \<noteq> CHR ''-'') (rev ds @ CHR ''-'' # rev a) = rev ds"
    using assms(2) by (subst takeWhile_append2) auto
  moreover have "takeWhile (\<lambda>c. c \<noteq> CHR ''-'') (rev es @ CHR ''-'' # rev b) = rev es"
    using assms(3) by (subst takeWhile_append2) auto
  ultimately have "rev ds = rev es" by metis
  then have "ds = es" by simp
  with assms(1) show ?thesis by simp
qed

lemma path_join_rel_inj:
  assumes "p \<noteq> []" "q \<noteq> []" "CHR ''/'' \<notin> set p" "CHR ''/'' \<notin> set q"
  shows "path_join d p = path_join d q \<longleftrightarrow> p = q"
proof (rule path_join_inj)
  show "\<not> starts_with p ''/''" using assms(1,3) by (cases p) (auto simp: starts_with_def)
  show "\<not> starts_with q ''/''" using assms(2,4) by (cases q) (auto simp: starts_with_def)
qed

lemma slash_notin_show: "CHR ''/'' \<notin> set (show_word w)"
  using show_nat_digits [of "unat w"] by (auto simp: show_word_def list_all_iff is_digit_iff)

lemma show_word_no_dash: "CHR ''-'' \<notin> set (show_word w)"
  using digits_no_dash [OF show_nat_digits] by (simp add: show_word_def)

lemma default_pid_path_inj:
  assumes "default_pid_path ev m i = default_pid_path ev n j"
  shows "i = j \<and> sanitize_name m = sanitize_name n"
proof -
  let ?f = "\<lambda>m i. sanitize_name m @ ''-'' @ show_word i @ ''.pid''"
  have slash: "CHR ''/'' \<notin> set (?f m i)" for m and i :: u32
    using slash_notin_sanitize slash_notin_show by auto
  have "path_join (pid_dir ev) (?f m i) = path_join (pid_dir ev) (?f n j)"
    using assms by (simp add: default_pid_path_def)
  then have "?f m i = ?f n j"
    using path_join_rel_inj [of "?f m i" "?f n j"] slash by simp
  then have "sanitize_name m @ CHR ''-'' # show_word i = sanitize_name n @ CHR ''-'' # show_word j"
    by simp
  then show ?thesis
    using dash_suffix_unique [OF _ show_word_no_dash show_word_no_dash] show_word_inj by metis
qed

lemma default_log_path_inj:
  assumes "default_log_path ev m i k False = default_log_path ev n j k False" "CHR ''/'' \<notin> set k"
  shows "i = j \<and> sanitize_name m = sanitize_name n"
proof -
  let ?f = "\<lambda>m i. sanitize_name m @ ''-'' @ show_word i @ ''-'' @ k @ ''.log''"
  have slash: "CHR ''/'' \<notin> set (?f m i)" for m and i :: u32
    using slash_notin_sanitize slash_notin_show assms(2) by auto
  have "path_join (log_dir ev) (?f m i) = path_join (log_dir ev) (?f n j)"
    using assms(1) by (simp add: default_log_path_def Let_def)
  then have "?f m i = ?f n j"
    using path_join_rel_inj [of "?f m i" "?f n j"] slash by simp
  then have "sanitize_name m @ CHR ''-'' # show_word i = sanitize_name n @ CHR ''-'' # show_word j"
    by simp
  then show ?thesis
    using dash_suffix_unique [OF _ show_word_no_dash show_word_no_dash] show_word_inj by metis
qed

section \<open>Properties\<close>

text \<open>Two processes with different ids never share a default pid file or, unless they merge
  their logs, a default log file of the same kind, whatever their names.\<close>
theorem default_files_are_separate:
  assumes "i \<noteq> j" "k \<in> {''out'', ''error''}"
  shows "default_pid_path ev m i \<noteq> default_pid_path ev n j
    \<and> default_log_path ev m i k False \<noteq> default_log_path ev n j k False"
proof -
  have k: "CHR ''/'' \<notin> set k" using assms(2) by auto
  show ?thesis
    using assms(1) default_pid_path_inj [of ev m i n j] default_log_path_inj [OF _ k, of ev m i n j] by blast
qed

lemma default_files_are_separate_witness:
  "default_pid_path (\<lambda>_. None) ''a-1'' 2 \<noteq> default_pid_path (\<lambda>_. None) ''a'' 12"
  using default_files_are_separate [of 2 12 "''out''" "\<lambda>_. None" "''a-1''" "''a''"] by simp

text \<open>A sanitised name has only ASCII letters, digits, dots and dashes, so no path separator,
  is not longer than the name, and sanitising it again changes nothing.\<close>
lemma sanitize_name_is_safe:
  "set (sanitize_name s) \<subseteq> {c. name_char c} \<and> CHR ''/'' \<notin> set (sanitize_name s)
   \<and> length (sanitize_name s) \<le> length s \<and> sanitize_name (sanitize_name s) = sanitize_name s"
  by (simp add: sanitize_name_chars slash_notin_sanitize length_sanitize_name sanitize_name_idem)

lemma path_file_name_join:
  assumes "CHR ''/'' \<notin> set n" "n \<notin> {'''', ''.'', ''..''}"
  shows "path_file_name (path_join b n) = Some n"
proof -
  have rel: "\<not> starts_with n ''/''" using assms by (cases n) (auto simp: starts_with_def)
  have last: "path_file_name (x @ CHR ''/'' # n) = Some n" for x
    using assms by (simp add: path_file_name_def split_on_append split_on_notin Let_def)
  consider "b = []" | x where "b = x @ ''/''" | "b \<noteq> []" "last b \<noteq> CHR ''/''"
    by (cases b rule: rev_cases) auto
  then show ?thesis
  proof cases
    case 1
    with rel assms show ?thesis by (simp add: path_join_def path_file_name_def split_on_notin Let_def)
  next
    case (2 x)
    with rel last show ?thesis by (simp add: path_join_def)
  next
    case 3
    with rel last show ?thesis by (simp add: path_join_def)
  qed
qed

lemma path_join_snoc: "\<not> starts_with n ''/'' \<Longrightarrow> \<exists>a. path_join b n = a @ n \<and> (\<forall>m. \<not> starts_with m ''/'' \<longrightarrow> path_join b m = a @ m)"
  by (cases "b = [] \<or> last b = CHR ''/''") (auto simp: path_join_def)

end
