(* ===== verification/Config.thy ===== *)
theory Config
  imports Errs Kv Paths
begin

text \<open>
  \<open>src/config.rs\<close>: the application configuration, its defaults and builder methods, the
  effective name and interpreter, \<open>env_<profile>\<close> overlays, validation, loading of ecosystem
  files and memory sizes.  What the crates behind it do is an argument: the cron parser
  (\<open>cron_ok\<close>), the text of a JSON value (\<open>json_text\<close>), the JSON, YAML and TOML parsers and the
  derived deserialiser (\<open>eco_parsers\<close>), the file system (\<open>is_file\<close>, \<open>read_file\<close>).
\<close>

section \<open>JSON values\<close>

text \<open>\<open>serde_json::Value\<close>; its map is a \<open>BTreeMap\<close>.  A number is kept as its integer or, when it
  is not one, as its text.\<close>

datatype json =
    JNull
  | JBool bool
  | JInt int
  | JFloat string
  | JString string
  | JArray "json list"
  | JObject "(string \<times> json) list"

section \<open>The configuration record\<close>

record health_check =
  hc_command :: string
  hc_interval :: u64
  hc_timeout :: u64
  hc_max_fails :: u32

record app_config =
  ac_script :: string
  ac_name :: "string option"
  ac_namespace :: string
  ac_cwd :: "string option"
  ac_args :: "string list"
  ac_runtime :: "string option"
  ac_interpreter :: "string option"
  ac_interpreter_args :: "string list"
  ac_instances :: u32
  ac_instance_var :: string
  ac_env :: "(string, string) bmap"
  ac_env_profiles :: "(string, json) bmap"
  ac_out_file :: "string option"
  ac_error_file :: "string option"
  ac_log_date_format :: "string option"
  ac_merge_logs :: bool
  ac_disable_log_files :: bool
  ac_disable_logs :: bool
  ac_pid_file :: "string option"
  ac_autostart :: bool
  ac_autorestart :: bool
  ac_max_restarts :: u32
  ac_min_uptime :: u64
  ac_restart_delay :: u64
  ac_exp_backoff :: u64
  ac_cron_restart :: "string option"
  ac_max_memory_restart :: "u64 option"
  ac_stop_exit_codes :: "i32 list"
  ac_kill_timeout :: u64
  ac_kill_retry_time :: u64
  ac_kill_signal :: string
  ac_treekill :: bool
  ac_max_log_size :: "u64 option"
  ac_health_check :: "health_check option"
  ac_watch :: bool
  ac_ignore_watch :: "string list"
  ac_watch_delay :: "u64 option"
  ac_uid :: "string option"
  ac_gid :: "string option"

definition default_true :: bool where "default_true = True"
definition default_instances :: u32 where "default_instances = 1"
definition default_max_restarts :: u32 where "default_max_restarts = 16"
definition default_min_uptime :: u64 where "default_min_uptime = 1000"
definition default_kill_timeout :: u64 where "default_kill_timeout = 1600"
definition default_kill_retry_time :: u64 where "default_kill_retry_time = 100"
definition default_kill_signal :: string where "default_kill_signal = ''SIGINT''"
definition default_namespace :: string where "default_namespace = ''default''"
definition default_instance_var :: string where "default_instance_var = ''NODE_APP_INSTANCE''"
definition default_hc_interval :: u64 where "default_hc_interval = 30000"
definition default_hc_timeout :: u64 where "default_hc_timeout = 5000"
definition default_hc_max_fails :: u32 where "default_hc_max_fails = 3"

lemmas config_defaults =
  default_true_def default_instances_def default_max_restarts_def default_min_uptime_def
  default_kill_timeout_def default_kill_retry_time_def default_kill_signal_def
  default_namespace_def default_instance_var_def default_hc_interval_def
  default_hc_timeout_def default_hc_max_fails_def

text \<open>\<open>AppConfig::new\<close>: every field but the script takes its serde default.\<close>

definition app_new :: "string \<Rightarrow> app_config" where
  "app_new script =
     \<lparr> ac_script = script, ac_name = None, ac_namespace = default_namespace, ac_cwd = None,
       ac_args = [], ac_runtime = None, ac_interpreter = None, ac_interpreter_args = [],
       ac_instances = default_instances, ac_instance_var = default_instance_var,
       ac_env = [], ac_env_profiles = [],
       ac_out_file = None, ac_error_file = None, ac_log_date_format = None,
       ac_merge_logs = False, ac_disable_log_files = False, ac_disable_logs = False, ac_pid_file = None,
       ac_autostart = default_true, ac_autorestart = default_true,
       ac_max_restarts = default_max_restarts, ac_min_uptime = default_min_uptime,
       ac_restart_delay = 0, ac_exp_backoff = 0, ac_cron_restart = None,
       ac_max_memory_restart = None, ac_stop_exit_codes = [],
       ac_kill_timeout = default_kill_timeout, ac_kill_retry_time = default_kill_retry_time,
       ac_kill_signal = default_kill_signal, ac_treekill = default_true,
       ac_max_log_size = None, ac_health_check = None,
       ac_watch = False, ac_ignore_watch = [], ac_watch_delay = None,
       ac_uid = None, ac_gid = None \<rparr>"

text \<open>The builder methods.\<close>

definition app_with_name :: "app_config \<Rightarrow> string \<Rightarrow> app_config" where
  "app_with_name c n = c\<lparr>ac_name := Some n\<rparr>"
definition app_with_cwd :: "app_config \<Rightarrow> string \<Rightarrow> app_config" where
  "app_with_cwd c d = c\<lparr>ac_cwd := Some d\<rparr>"
definition app_with_args :: "app_config \<Rightarrow> string list \<Rightarrow> app_config" where
  "app_with_args c xs = c\<lparr>ac_args := xs\<rparr>"
definition app_with_instances :: "app_config \<Rightarrow> u32 \<Rightarrow> app_config" where
  "app_with_instances c n = c\<lparr>ac_instances := n\<rparr>"
definition app_with_interpreter :: "app_config \<Rightarrow> string \<Rightarrow> app_config" where
  "app_with_interpreter c i = c\<lparr>ac_interpreter := Some i\<rparr>"
definition app_with_runtime :: "app_config \<Rightarrow> string \<Rightarrow> app_config" where
  "app_with_runtime c rt = c\<lparr>ac_runtime := Some rt\<rparr>"
definition app_with_env :: "app_config \<Rightarrow> string \<Rightarrow> string \<Rightarrow> app_config" where
  "app_with_env c k v = c\<lparr>ac_env := bt_insert k v (ac_env c)\<rparr>"
definition app_with_autorestart :: "app_config \<Rightarrow> bool \<Rightarrow> app_config" where
  "app_with_autorestart c y = c\<lparr>ac_autorestart := y\<rparr>"
definition app_with_max_restarts :: "app_config \<Rightarrow> u32 \<Rightarrow> app_config" where
  "app_with_max_restarts c n = c\<lparr>ac_max_restarts := n\<rparr>"
definition app_with_max_memory_restart :: "app_config \<Rightarrow> u64 \<Rightarrow> app_config" where
  "app_with_max_memory_restart c b = c\<lparr>ac_max_memory_restart := Some b\<rparr>"
definition app_with_watch :: "app_config \<Rightarrow> bool \<Rightarrow> app_config" where
  "app_with_watch c y = c\<lparr>ac_watch := y\<rparr>"
definition app_with_max_log_size :: "app_config \<Rightarrow> u64 \<Rightarrow> app_config" where
  "app_with_max_log_size c b = c\<lparr>ac_max_log_size := Some b\<rparr>"
definition app_with_disable_log_files :: "app_config \<Rightarrow> bool \<Rightarrow> app_config" where
  "app_with_disable_log_files c y = c\<lparr>ac_disable_log_files := y\<rparr>"
definition app_with_disable_logs :: "app_config \<Rightarrow> bool \<Rightarrow> app_config" where
  "app_with_disable_logs c y = c\<lparr>ac_disable_logs := y\<rparr>"
definition app_with_health_check :: "app_config \<Rightarrow> string \<Rightarrow> app_config" where
  "app_with_health_check c cmd =
     c\<lparr>ac_health_check := Some \<lparr>hc_command = cmd, hc_interval = default_hc_interval,
        hc_timeout = default_hc_timeout, hc_max_fails = default_hc_max_fails\<rparr>\<rparr>"

section \<open>Effective name and interpreter\<close>

definition effective_name :: "app_config \<Rightarrow> string" where
  "effective_name c =
     (case ac_name c of
        Some n \<Rightarrow> n
      | None \<Rightarrow> (case path_file_stem (ac_script c) of Some s \<Rightarrow> s | None \<Rightarrow> ac_script c))"

definition detect_interpreter :: "string \<Rightarrow> string option" where
  "detect_interpreter script =
     (case path_extension script of
        None \<Rightarrow> None
      | Some ext \<Rightarrow>
          if ext \<in> {''js'', ''cjs'', ''mjs''} then Some ''node''
          else if ext \<in> {''ts'', ''tsx''} then Some ''bun''
          else if ext = ''py'' then Some ''python3''
          else if ext = ''sh'' then Some ''bash''
          else if ext = ''rb'' then Some ''ruby''
          else if ext = ''pl'' then Some ''perl''
          else if ext = ''php'' then Some ''php''
          else None)"

definition runtime_candidates :: "env_vars \<Rightarrow> string \<Rightarrow> string list" where
  "runtime_candidates ev nm =
     (let hm = (case ev ''HOME'' of Some h \<Rightarrow> h | None \<Rightarrow> '''')
      in if nm = ''bun'' then [hm @ ''/.bun/bin/bun'', ''/usr/local/bin/bun'', ''/usr/bin/bun'']
         else if nm = ''deno'' then [hm @ ''/.deno/bin/deno'', ''/usr/local/bin/deno'', ''/usr/bin/deno'']
         else if nm = ''node'' then [''/usr/local/bin/node'', ''/usr/bin/node'']
         else if nm = ''python'' then [''/usr/bin/python3'']
         else [])"

definition resolve_runtime :: "env_vars \<Rightarrow> (string \<Rightarrow> bool) \<Rightarrow> string \<Rightarrow> string" where
  "resolve_runtime ev is_file nm =
     (case find is_file (runtime_candidates ev nm) of Some p \<Rightarrow> p | None \<Rightarrow> nm)"

definition effective_interpreter :: "env_vars \<Rightarrow> (string \<Rightarrow> bool) \<Rightarrow> app_config \<Rightarrow> string option" where
  "effective_interpreter ev is_file c =
     (case ac_runtime c of
        Some rt \<Rightarrow> Some (resolve_runtime ev is_file rt)
      | None \<Rightarrow>
          (case ac_interpreter c of
             Some i \<Rightarrow> if i = ''none'' \<or> i = '''' then None else Some i
           | None \<Rightarrow> map_option (resolve_runtime ev is_file) (detect_interpreter (ac_script c))))"

section \<open>Environment profiles\<close>

definition apply_env_profile :: "(json \<Rightarrow> string) \<Rightarrow> app_config \<Rightarrow> string \<Rightarrow> app_config res" where
  "apply_env_profile json_text c profile =
     (let key = ''env_'' @ profile
      in case bt_get (ac_env_profiles c) key of
           None \<Rightarrow> Inl (E_no_env_section (effective_name c) key)
         | Some overlay \<Rightarrow>
             (case overlay of
                JObject kvs \<Rightarrow>
                  Inr (c\<lparr>ac_env := fold (\<lambda>(k, v) m. bt_insert k
                         (case v of JString s \<Rightarrow> s | other \<Rightarrow> json_text other) m) kvs (ac_env c)\<rparr>)
              | _ \<Rightarrow> Inl (E_overlay_not_object key)))"

section \<open>Validation\<close>

text \<open>The loop over \<open>env_profiles.keys()\<close>: the first offending key, in key order, is reported.\<close>

fun validate_profiles :: "string \<Rightarrow> string list \<Rightarrow> err option" where
  "validate_profiles var [] = None"
| "validate_profiles var (k # ks) =
     (if k = ''exec_mode'' then Some (E_exec_mode var)
      else if \<not> starts_with k ''env_'' then Some (E_unknown_field k)
      else validate_profiles var ks)"

definition validate_health :: "health_check \<Rightarrow> err option" where
  "validate_health hc =
     (if trim (hc_command hc) = [] then Some E_health_command_empty
      else if hc_max_fails hc = 0 \<or> hc_interval hc = 0 then Some E_health_zero
      else None)"

definition validate :: "(string \<Rightarrow> bool) \<Rightarrow> app_config \<Rightarrow> unit res" where
  "validate cron_ok c =
     (if ac_script c = [] then Inl E_script_empty
      else if ac_instances c = 0 then Inl E_instances_zero
      else case validate_profiles (ac_instance_var c) (map fst (bt_rows (ac_env_profiles c))) of
        Some e \<Rightarrow> Inl e
      | None \<Rightarrow>
          if (case ac_cron_restart c of Some expr \<Rightarrow> \<not> cron_ok expr | None \<Rightarrow> False)
          then Inl (E_invalid_cron (the (ac_cron_restart c)))
          else if ac_runtime c \<noteq> None \<and> ac_interpreter c \<noteq> None then Inl E_runtime_and_interpreter
          else case ac_health_check c of
            None \<Rightarrow> Inr ()
          | Some hc \<Rightarrow> (case validate_health hc of Some e \<Rightarrow> Inl e | None \<Rightarrow> Inr ()))"

section \<open>Memory sizes\<close>

text \<open>\<open>n * mult\<close> is a \<open>u64\<close> product: it wraps.\<close>

definition memory_suffix :: "string \<Rightarrow> string \<times> u64" where
  "memory_suffix s =
     (if s = [] then (s, 1)
      else if last s = CHR ''G'' \<or> last s = CHR ''g'' then (butlast s, 1024 * 1024 * 1024)
      else if last s = CHR ''M'' \<or> last s = CHR ''m'' then (butlast s, 1024 * 1024)
      else if last s = CHR ''K'' \<or> last s = CHR ''k'' then (butlast s, 1024)
      else (s, 1))"

definition parse_memory :: "string \<Rightarrow> u64 res" where
  "parse_memory s0 =
     (let s = trim s0
      in case memory_suffix s of (num, mult) \<Rightarrow>
           (case parse_u64 num of None \<Rightarrow> Inl (E_invalid_memory s) | Some n \<Rightarrow> Inr (n * mult)))"

section \<open>Ecosystem files\<close>

record eco_parsers =
  ep_json :: "string \<Rightarrow> json option"
  ep_yaml :: "string \<Rightarrow> json option res"
  ep_toml_apps :: "string \<Rightarrow> app_config list option"
  ep_apps :: "json \<Rightarrow> app_config list option"

definition parse_json :: "eco_parsers \<Rightarrow> string \<Rightarrow> app_config list res" where
  "parse_json ep raw =
     (case ep_json ep raw of
        None \<Rightarrow> Inl E_invalid_json
      | Some val \<Rightarrow>
          (case (case val of
                   JArray _ \<Rightarrow> Inr val
                 | JObject m \<Rightarrow> (case bt_get m ''apps'' of Some a \<Rightarrow> Inr a | None \<Rightarrow> Inl E_json_no_apps)
                 | _ \<Rightarrow> Inl E_json_shape) of
             Inl e \<Rightarrow> Inl e
           | Inr apps_val \<Rightarrow> (case ep_apps ep apps_val of None \<Rightarrow> Inl E_invalid_app | Some apps \<Rightarrow> Inr apps)))"

text \<open>\<open>ep_yaml\<close> answers with an error for text that is not YAML, and with \<open>None\<close> for a document
  that has no JSON form.\<close>

definition parse_yaml :: "eco_parsers \<Rightarrow> string \<Rightarrow> app_config list res" where
  "parse_yaml ep raw =
     (case ep_yaml ep raw of
        Inl _ \<Rightarrow> Inl E_invalid_yaml
      | Inr None \<Rightarrow> Inl E_yaml_to_json
      | Inr (Some json_val) \<Rightarrow>
          (case (case json_val of
                   JArray _ \<Rightarrow> Inr json_val
                 | JObject m \<Rightarrow> (case bt_get m ''apps'' of Some a \<Rightarrow> Inr a | None \<Rightarrow> Inl E_yaml_shape)
                 | _ \<Rightarrow> Inl E_yaml_shape) of
             Inl e \<Rightarrow> Inl e
           | Inr apps_val \<Rightarrow> (case ep_apps ep apps_val of None \<Rightarrow> Inl E_invalid_app | Some apps \<Rightarrow> Inr apps)))"

definition to_ascii_lowercase :: "string \<Rightarrow> string" where
  "to_ascii_lowercase s = map (\<lambda>c. if CHR ''A'' \<le> c \<and> c \<le> CHR ''Z'' then char_of ((of_char c :: nat) + 32) else c) s"

fun validate_all :: "(string \<Rightarrow> bool) \<Rightarrow> app_config list \<Rightarrow> err option" where
  "validate_all cron_ok [] = None"
| "validate_all cron_ok (a # as) =
     (case validate cron_ok a of
        Inl e \<Rightarrow> Some (E_in_app (effective_name a) e)
      | Inr _ \<Rightarrow> validate_all cron_ok as)"

definition load_ecosystem ::
    "(string \<Rightarrow> bool) \<Rightarrow> eco_parsers \<Rightarrow> (string \<Rightarrow> string option) \<Rightarrow> string \<Rightarrow> app_config list res" where
  "load_ecosystem cron_ok ep read_file path =
     (case read_file path of
        None \<Rightarrow> Inl (E_cannot_read path)
      | Some raw \<Rightarrow>
          let ext = to_ascii_lowercase (case path_extension path of Some e \<Rightarrow> e | None \<Rightarrow> '''') in
          (case (if ext = ''json'' then parse_json ep raw
                 else if ext = ''yaml'' \<or> ext = ''yml'' then parse_yaml ep raw
                 else if ext = ''toml'' then
                   (case ep_toml_apps ep raw of None \<Rightarrow> Inl E_invalid_toml | Some apps \<Rightarrow> Inr apps)
                 else if ext \<in> {''js'', ''cjs'', ''mjs''} then Inl (E_js_config path)
                 else Inl (E_unsupported_extension ext)) of
             Inl e \<Rightarrow> Inl e
           | Inr apps \<Rightarrow>
               if apps = [] then Inl (E_no_apps path)
               else (case validate_all cron_ok apps of Some e \<Rightarrow> Inl e | None \<Rightarrow> Inr apps)))"

section \<open>Memory sizes: what is read\<close>

text \<open>The suffixes the code accepts, with their factors.\<close>

definition memory_units :: "(string \<times> nat) list" where
  "memory_units =
     [('''', 1), (''K'', 1024), (''k'', 1024), (''M'', 1048576), (''m'', 1048576), (''G'', 1073741824),
      (''g'', 1073741824)]"

lemma digit_plain: "is_digit c \<Longrightarrow> plain c"
  by (simp add: is_digit_iff plain_def)

lemma trim_number:
  assumes "ds \<noteq> []" "list_all is_digit ds" "(u, f) \<in> set memory_units"
  shows "trim (ds @ u) = ds @ u"
proof (rule trim_plain)
  have "is_digit (hd ds)" "is_digit (last ds)" using assms(1,2) by (auto simp: list_all_iff)
  then show "plain (hd (ds @ u))" using assms(1) digit_plain by simp
  show "plain (last (ds @ u))"
    using assms(1,3) \<open>is_digit (last ds)\<close> digit_plain by (auto simp: memory_units_def plain_def)
qed (use assms in simp)

lemma digit_not_unit:
  "is_digit c \<Longrightarrow> c \<notin> {CHR ''G'', CHR ''g'', CHR ''M'', CHR ''m'', CHR ''K'', CHR ''k''}"
  by (auto simp: is_digit_iff)

lemma memory_suffix_number:
  assumes "ds \<noteq> []" "list_all is_digit ds" "(u, f) \<in> set memory_units"
  shows "memory_suffix (ds @ u) = (ds, of_nat f)"
proof -
  have "is_digit (last ds)" using assms(1,2) by (auto simp: list_all_iff)
  from digit_not_unit [OF this] assms show ?thesis
    by (auto simp: memory_units_def memory_suffix_def butlast_append)
qed

lemma parse_memory_number:
  assumes "ds \<noteq> []" "list_all is_digit ds" "(u, f) \<in> set memory_units"
  shows "parse_memory (ds @ u) =
    (if digits_val ds < 2 ^ 64 then Inr (of_nat (digits_val ds * f)) else Inl (E_invalid_memory (ds @ u)))"
  using assms
  by (simp add: parse_memory_def trim_number memory_suffix_number parse_u64_def parse_uint_digits Let_def)

section \<open>Validation: what is accepted\<close>

lemma validate_profiles_None:
  "validate_profiles var ks = None \<longleftrightarrow> (\<forall>k \<in> set ks. starts_with k ''env_'')"
proof (induction ks)
  case (Cons k ks)
  have "\<not> starts_with ''exec_mode'' ''env_''" by (simp add: starts_with_def)
  with Cons show ?case by auto
qed simp

definition acceptable :: "(string \<Rightarrow> bool) \<Rightarrow> app_config \<Rightarrow> bool" where
  "acceptable cron_ok c =
     (ac_script c \<noteq> [] \<and> ac_instances c \<noteq> 0
      \<and> list_all (\<lambda>k. starts_with k ''env_'') (map fst (bt_rows (ac_env_profiles c)))
      \<and> pred_option cron_ok (ac_cron_restart c)
      \<and> (ac_runtime c = None \<or> ac_interpreter c = None)
      \<and> pred_option (\<lambda>hc. trim (hc_command hc) \<noteq> [] \<and> hc_max_fails hc \<noteq> 0 \<and> hc_interval hc \<noteq> 0)
          (ac_health_check c))"

lemma validate_iff: "validate cron_ok c = Inr () \<longleftrightarrow> acceptable cron_ok c"
  using validate_profiles_None [of "ac_instance_var c" "map fst (bt_rows (ac_env_profiles c))"]
  by (auto simp: validate_def validate_health_def acceptable_def list_all_iff split: option.splits if_splits)

lemma validate_all_None: "validate_all cron_ok as = None \<longleftrightarrow> list_all (acceptable cron_ok) as"
proof (induction as)
  case (Cons a as)
  then show ?case using validate_iff [of cron_ok a] by (cases "validate cron_ok a") auto
qed simp

section \<open>Properties\<close>

text \<open>A memory size is read exactly: a number of at most 64 bits with an optional unit means that
  many bytes, provided the product fits 64 bits.\<close>
theorem parse_memory_is_exact:
  assumes "ds \<noteq> []" "list_all is_digit ds" "(u, f) \<in> set memory_units" "digits_val ds * f < 2 ^ 64"
  shows "\<exists>w. parse_memory (ds @ u) = Inr w \<and> unat w = digits_val ds * f"
proof -
  have "0 < f" using assms(3) by (auto simp: memory_units_def)
  then have "digits_val ds \<le> digits_val ds * f" by simp
  with assms(4) have "digits_val ds < 2 ^ 64" by linarith
  moreover have "unat (of_nat (digits_val ds * f) :: u64) = digits_val ds * f"
    using assms(4) by (simp add: unsigned_of_nat take_bit_nat_eq_self del: of_nat_mult)
  ultimately show ?thesis using parse_memory_number [OF assms(1-3)] by simp
qed

lemma parse_memory_is_exact_witness: "\<exists>w. parse_memory ''512M'' = Inr w \<and> unat w = 536870912"
proof -
  have "digits_val ''512'' = 512" by (simp add: digits_val_def digit_val_def)
  moreover have "list_all is_digit ''512''" by (simp add: is_digit_iff)
  ultimately show ?thesis
    using parse_memory_is_exact [of "''512''" "''M''" 1048576] by (simp add: memory_units_def)
qed

text \<open>A product beyond 64 bits is not refused but wraps: 16 EiB reads as 0 bytes.\<close>
theorem parse_memory_wraps:
  "parse_memory ''17179869184G'' = Inr 0"
proof -
  have "digits_val ''17179869184'' = 17179869184" by (simp add: digits_val_def digit_val_def)
  moreover have "list_all is_digit ''17179869184''" by (simp add: is_digit_iff)
  ultimately have "parse_memory (''17179869184'' @ ''G'') = Inr (of_nat (17179869184 * 1073741824))"
    using parse_memory_number [of "''17179869184''" "''G''" 1073741824] by (simp add: memory_units_def)
  moreover have "(of_nat (17179869184 * 1073741824) :: u64) = 0" by simp
  ultimately show ?thesis by simp
qed

text \<open>C40: \<open>validate\<close> accepts a configuration exactly when it has a script, at least one instance, only
  \<open>env_\<close> profiles among its unknown fields, a cron expression that parses, not both a runtime and an
  interpreter, and a usable health check if any; and a loaded ecosystem file has at least one
  application and only such ones.\<close>
theorem only_valid_configs_load:
  assumes "load_ecosystem cron_ok ep read_file path = Inr apps"
  shows "apps \<noteq> [] \<and> list_all (acceptable cron_ok) apps \<and> list_all (\<lambda>a. validate cron_ok a = Inr ()) apps
    \<and> (validate cron_ok c = Inr () \<longleftrightarrow> acceptable cron_ok c)"
proof -
  have "apps \<noteq> []" "validate_all cron_ok apps = None"
    using assms by (auto simp: load_ecosystem_def Let_def split: option.splits sum.splits if_splits)
  then show ?thesis by (simp add: validate_all_None validate_iff list_all_iff)
qed

definition sample_parsers :: eco_parsers where
  "sample_parsers =
     \<lparr> ep_json = (\<lambda>raw. if raw = ''[1]'' then Some (JArray [JInt 1]) else None), ep_yaml = (\<lambda>_. Inl E_invalid_yaml),
       ep_toml_apps = (\<lambda>_. None), ep_apps = (\<lambda>v. Some [app_new ''/srv/a.js'']) \<rparr>"

lemma only_valid_configs_load_witness:
  "load_ecosystem (\<lambda>_. True) sample_parsers (\<lambda>_. Some ''[1]'') ''/srv/eco.JSON'' = Inr [app_new ''/srv/a.js'']
   \<and> acceptable (\<lambda>_. True) (app_new ''/srv/a.js'')"
proof -
  have "load_ecosystem (\<lambda>_. True) sample_parsers (\<lambda>_. Some ''[1]'') ''/srv/eco.JSON'' = Inr [app_new ''/srv/a.js'']"
    by code_simp
  from this only_valid_configs_load [OF this] show ?thesis by simp
qed

text \<open>The interpreter follows the precedence runtime, interpreter (\<open>none\<close> and the empty string
  mean no interpreter), file extension; a named runtime is the first of its known locations that is a
  file, or the bare name for the shell path.\<close>
theorem interpreter_precedence:
  "effective_interpreter ev is_file c =
     (case (ac_runtime c, ac_interpreter c) of
        (Some rt, _) \<Rightarrow> Some (resolve_runtime ev is_file rt)
      | (None, Some i) \<Rightarrow> (if i \<in> {''none'', ''''} then None else Some i)
      | (None, None) \<Rightarrow> map_option (resolve_runtime ev is_file) (detect_interpreter (ac_script c)))
   \<and> (resolve_runtime ev is_file rt = rt
      \<or> (\<exists>n < length (runtime_candidates ev rt). resolve_runtime ev is_file rt = runtime_candidates ev rt ! n
           \<and> is_file (runtime_candidates ev rt ! n)
           \<and> list_all (\<lambda>q. \<not> is_file q) (take n (runtime_candidates ev rt))))"
proof -
  have "resolve_runtime ev is_file rt = rt
      \<or> (\<exists>n < length (runtime_candidates ev rt). resolve_runtime ev is_file rt = runtime_candidates ev rt ! n
           \<and> is_file (runtime_candidates ev rt ! n)
           \<and> list_all (\<lambda>q. \<not> is_file q) (take n (runtime_candidates ev rt)))"
  proof (cases "find is_file (runtime_candidates ev rt)")
    case None
    then show ?thesis by (simp add: resolve_runtime_def)
  next
    case (Some p)
    then obtain n where "n < length (runtime_candidates ev rt)" "is_file (runtime_candidates ev rt ! n)"
      "p = runtime_candidates ev rt ! n" "\<forall>m < n. \<not> is_file (runtime_candidates ev rt ! m)"
      by (auto simp: find_Some_iff)
    with Some show ?thesis
      by (intro disjI2 exI [of _ n]) (auto simp: resolve_runtime_def list_all_length)
  qed
  then show ?thesis by (auto simp: effective_interpreter_def split: option.split)
qed

lemma interpreter_precedence_witness:
  "effective_interpreter (\<lambda>_. Some ''/root'') (\<lambda>f. f = ''/usr/bin/node'') (app_new ''/srv/a.js'') = Some ''/usr/bin/node''"
proof -
  have "resolve_runtime (\<lambda>_. Some ''/root'') (\<lambda>f. f = ''/usr/bin/node'') ''node'' = ''/usr/bin/node''"
    "ac_runtime (app_new ''/srv/a.js'') = None" "ac_interpreter (app_new ''/srv/a.js'') = None"
    "detect_interpreter (ac_script (app_new ''/srv/a.js'')) = Some ''node''"
    by code_simp+
  then show ?thesis
    using interpreter_precedence [of "\<lambda>_. Some ''/root''" "\<lambda>f. f = ''/usr/bin/node''" "app_new ''/srv/a.js''" "''node''"]
    by simp
qed

text \<open>Applying a profile overlays its object on the environment: a key of the object gets the
  overlay's value (strings as they are, other values as their JSON text), every other key keeps its
  value, and nothing but the environment changes.\<close>
theorem profile_overlays_env:
  assumes "apply_env_profile json_text c profile = Inr c'"
  shows "\<exists>kvs. bt_get (ac_env_profiles c) (''env_'' @ profile) = Some (JObject kvs)
    \<and> bt_get (ac_env c') k =
        (case map_of (rev kvs) k of
           Some v \<Rightarrow> Some (case v of JString s \<Rightarrow> s | other \<Rightarrow> json_text other)
         | None \<Rightarrow> bt_get (ac_env c) k)
    \<and> c'\<lparr>ac_env := ac_env c\<rparr> = c"
proof -
  let ?txt = "\<lambda>v. case v of JString s \<Rightarrow> s | other \<Rightarrow> json_text other"
  obtain kvs where kvs: "bt_get (ac_env_profiles c) (''env_'' @ profile) = Some (JObject kvs)"
    and c': "c' = c\<lparr>ac_env := fold (\<lambda>(k, v) m. bt_insert k (?txt v) m) kvs (ac_env c)\<rparr>"
    using assms by (auto simp: apply_env_profile_def Let_def split: option.splits json.splits)
  have "bt_get (fold (\<lambda>(k, v) m. bt_insert k (?txt v) m) ps m) k =
      (case map_of (rev ps) k of Some v \<Rightarrow> Some (?txt v) | None \<Rightarrow> bt_get m k)" for ps m
    by (induction ps arbitrary: m) (auto simp: map_add_def split: option.split)
  with kvs c' show ?thesis by simp
qed

definition sample_profiled :: app_config where
  "sample_profiled =
     (app_with_env (app_with_env (app_new ''/srv/a.js'') ''B'' ''1'') ''A'' ''x'')
       \<lparr>ac_env_profiles := [(''env_prod'', JObject [(''A'', JString ''y''), (''C'', JBool True)])]\<rparr>"

lemma profile_overlays_env_witness:
  "\<exists>c'. apply_env_profile (\<lambda>_. ''true'') sample_profiled ''prod'' = Inr c' \<and> bt_get (ac_env c') ''A'' = Some ''y''"
proof -
  obtain c' where c': "apply_env_profile (\<lambda>_. ''true'') sample_profiled ''prod'' = Inr c'"
    by (simp add: apply_env_profile_def sample_profiled_def bt_get_def)
  have "bt_get (ac_env_profiles sample_profiled) ''env_prod'' = Some (JObject [(''A'', JString ''y''), (''C'', JBool True)])"
    by (simp add: sample_profiled_def bt_get_def)
  with profile_overlays_env [OF c', of "''A''"] c' show ?thesis by auto
qed

end
