(* ===== verification/Ipc.thy ===== *)
theory Ipc
  imports Config
begin

text \<open>
  \<open>src/ipc.rs\<close>: targets, requests and responses of the wire protocol, bus events, process
  states and the public snapshot of a process.  An \<open>f32\<close> is kept as its 32 bits; the model
  never computes with it.
\<close>

section \<open>Definitions\<close>

datatype target = All | Ids "u32 list" | Names "string list"

definition target_parse :: "string \<Rightarrow> target" where
  "target_parse token =
     (if token = ''all'' then All
      else case parse_u32 token of Some i \<Rightarrow> Ids [i] | None \<Rightarrow> Names [token])"

datatype rpc_method =
    M_ping
  | M_version
  | M_start "app_config list"
  | M_stop target
  | M_restart target
  | M_delete target
  | M_reset target
  | M_list
  | M_describe target
  | M_scale string u32
  | M_send_signal target string
  | M_flush "target option"
  | M_reload_logs
  | M_save
  | M_resurrect
  | M_kill
  | M_subscribe "string list" "target option"

datatype event =
    EvLog u32 string string string i64       \<comment> \<open>\<open>pm_id\<close>, \<open>name\<close>, \<open>stream\<close>, \<open>line\<close>, \<open>at\<close>\<close>
  | EvProcess u32 string string i64          \<comment> \<open>\<open>pm_id\<close>, \<open>name\<close>, \<open>event\<close>, \<open>at\<close>\<close>
  | EvDaemonKill

fun ev_topic :: "event \<Rightarrow> string" where
  "ev_topic (EvLog _ _ stream _ _) = ''log:'' @ stream"
| "ev_topic (EvProcess _ _ _ _) = ''process:event''"
| "ev_topic EvDaemonKill = ''pmr:kill''"

fun ev_pm_id :: "event \<Rightarrow> u32 option" where
  "ev_pm_id (EvLog i _ _ _ _) = Some i"
| "ev_pm_id (EvProcess i _ _ _) = Some i"
| "ev_pm_id EvDaemonKill = None"

fun ev_proc_name :: "event \<Rightarrow> string option" where
  "ev_proc_name (EvLog _ n _ _ _) = Some n"
| "ev_proc_name (EvProcess _ n _ _) = Some n"
| "ev_proc_name EvDaemonKill = None"

datatype status = Launching | Online | Stopping | Stopped | Errored | WaitingRestart

fun show_status :: "status \<Rightarrow> string" where
  "show_status Launching = ''launching''"
| "show_status Online = ''online''"
| "show_status Stopping = ''stopping''"
| "show_status Stopped = ''stopped''"
| "show_status Errored = ''errored''"
| "show_status WaitingRestart = ''waiting restart''"

type_synonym f32 = "32 word"

record monit =
  m_cpu :: f32
  m_memory :: u64

definition monit_default :: monit where
  "monit_default = \<lparr>m_cpu = 0, m_memory = 0\<rparr>"

record snapshot =
  s_pm_id :: u32
  s_name :: string
  s_namespace :: string
  s_status :: status
  s_pid :: u32
  s_instance :: u32
  s_restarts :: u32
  s_unstable_restarts :: u32
  s_uptime_ms :: "i64 option"
  s_monit :: monit
  s_out_file :: string
  s_error_file :: string
  s_pid_file :: string
  s_exit_code :: "i32 option"
  s_config :: app_config
  s_env :: "(string, string) bmap"

section \<open>Targets\<close>

lemma target_parse_all: "target_parse ''all'' = All"
  by (simp add: target_parse_def)

lemma show_word_not_all: "show_word w \<noteq> ''all''"
proof
  assume "show_word w = ''all''"
  with show_nat_digits [of "unat w"] show False
    by (simp add: show_word_def is_digit_iff)
qed

lemma target_parse_id: "target_parse (show_word i) = Ids [i]"
  by (simp add: target_parse_def show_word_not_all)

lemma target_parse_name:
  assumes "token \<noteq> ''all''" "c \<in> set token" "\<not> is_digit c" "c \<noteq> CHR ''+''"
  shows "target_parse token = Names [token]"
  using assms by (simp add: target_parse_def parse_u32_def parse_uint_None_nondigit)

text \<open>There are finitely many states, so a statement over all of them evaluates.\<close>

instantiation status :: enum
begin

definition "enum_status = [Launching, Online, Stopping, Stopped, Errored, WaitingRestart]"

definition "enum_all_status P = list_all P [Launching, Online, Stopping, Stopped, Errored, WaitingRestart]"

definition "enum_ex_status P = list_ex P [Launching, Online, Stopping, Stopped, Errored, WaitingRestart]"

instance
proof
  have "st \<in> set enum_class.enum" for st :: status
    by (cases st) (simp_all add: enum_status_def)
  then show univ: "UNIV = set (enum_class.enum :: status list)" by blast
  show "distinct (enum_class.enum :: status list)" by (simp add: enum_status_def)
  show "enum_class.enum_all P = Ball UNIV P" "enum_class.enum_ex P = Bex UNIV P" for P :: "status \<Rightarrow> bool"
    unfolding univ by (simp_all add: enum_status_def enum_all_status_def enum_ex_status_def)
qed

end

lemma show_status_inj: "show_status a = show_status b \<longleftrightarrow> a = b"
proof -
  have "\<forall>a b. show_status a = show_status b \<longrightarrow> a = b" by code_simp
  then show ?thesis by blast
qed

section \<open>Properties\<close>

text \<open>A command-line token is read as the target it was written for: \<open>all\<close>, the id a number
  prints, and any word with a character that is neither a digit nor a plus sign as a name.\<close>
theorem target_parse_round_trip:
  assumes "\<exists>c \<in> set nm. \<not> is_digit c \<and> c \<noteq> CHR ''+''" "nm \<noteq> ''all''"
  shows "target_parse ''all'' = All \<and> target_parse (show_word i) = Ids [i] \<and> target_parse nm = Names [nm]"
  using assms target_parse_all target_parse_id target_parse_name by blast

lemma target_parse_round_trip_witness:
  "target_parse ''web-1'' = Names [''web-1''] \<and> target_parse (show_word (7 :: u32)) = Ids [7]"
  using target_parse_round_trip [of "''web-1''" 7] by (simp add: is_digit_iff)

end
