(* ===== verification/State.thy ===== *)
theory State
  imports Ipc
begin

text \<open>
  \<open>src/daemon/state.rs\<close>: one row per process instance (\<open>proc\<close>), the process table with its id
  counter, and the context every daemon task shares (\<open>ctx\<close>).  A command channel is the
  number of the supervisor task that reads it; a background task is its number.  The clock
  (\<open>now_ms\<close>) and the environment are arguments.  The context also holds the part of the
  file system the daemon writes (\<open>c_files\<close>) and the events published so far (\<open>c_bus\<close>).
\<close>

section \<open>Rows\<close>

record proc =
  p_pm_id :: u32
  p_config :: app_config
  p_instance :: u32
  p_status :: status
  p_pid :: u32
  p_restarts :: u32
  p_unstable :: u32
  p_created_at :: i64
  p_uptime_ms :: "i64 option"
  p_prev_delay :: u64
  p_exit_code :: "i32 option"
  p_monit :: monit
  p_out_file :: string
  p_error_file :: string
  p_pid_file :: string
  p_cmd_tx :: "nat option"
  p_cron_task :: "nat option"
  p_health_task :: "nat option"

text \<open>\<open>abort_tasks\<close> takes the two handles out of the row and aborts the tasks behind them.\<close>

definition abort_tasks :: "proc \<Rightarrow> proc \<times> nat list" where
  "abort_tasks p =
     (p\<lparr>p_cron_task := None, p_health_task := None\<rparr>,
      (case p_cron_task p of Some t \<Rightarrow> [t] | None \<Rightarrow> []) @ (case p_health_task p of Some t \<Rightarrow> [t] | None \<Rightarrow> []))"

definition proc_new :: "env_vars \<Rightarrow> i64 \<Rightarrow> u32 \<Rightarrow> u32 \<Rightarrow> app_config \<Rightarrow> proc" where
  "proc_new ev now pm_id inst config =
     (let nm = effective_name config;
          merge = ac_merge_logs config;
          out = (case ac_out_file config of Some f \<Rightarrow> f | None \<Rightarrow> default_log_path ev nm pm_id ''out'' merge);
          err = (case ac_error_file config of Some f \<Rightarrow> f | None \<Rightarrow> default_log_path ev nm pm_id ''error'' merge);
          pidf = (case ac_pid_file config of Some f \<Rightarrow> f | None \<Rightarrow> default_pid_path ev nm pm_id)
      in \<lparr> p_pm_id = pm_id, p_config = config, p_instance = inst, p_status = Stopped, p_pid = 0,
           p_restarts = 0, p_unstable = 0, p_created_at = now, p_uptime_ms = None, p_prev_delay = 0,
           p_exit_code = None, p_monit = monit_default, p_out_file = out, p_error_file = err,
           p_pid_file = pidf, p_cmd_tx = None, p_cron_task = None, p_health_task = None \<rparr>)"

definition p_name :: "proc \<Rightarrow> string" where
  "p_name p = effective_name (p_config p)"

definition child_env :: "proc \<Rightarrow> (string, string) bmap" where
  "child_env p =
     bt_insert ''PMR_NAME'' (p_name p)
       (bt_insert ''PMR_ID'' (show_word (p_pm_id p))
         (bt_insert (ac_instance_var (p_config p)) (show_word (p_instance p)) (ac_env (p_config p))))"

definition snapshot_of :: "bool \<Rightarrow> proc \<Rightarrow> snapshot" where
  "snapshot_of with_env p =
     \<lparr> s_pm_id = p_pm_id p, s_name = p_name p, s_namespace = ac_namespace (p_config p),
       s_status = p_status p, s_pid = p_pid p, s_instance = p_instance p,
       s_restarts = p_restarts p, s_unstable_restarts = p_unstable p,
       s_uptime_ms = (if p_status p = Online then p_uptime_ms p else None),
       s_monit = p_monit p, s_out_file = p_out_file p, s_error_file = p_error_file p,
       s_pid_file = p_pid_file p, s_exit_code = p_exit_code p, s_config = p_config p,
       s_env = (if with_env then child_env p else []) \<rparr>"

definition reset_state :: "i64 \<Rightarrow> proc \<Rightarrow> proc" where
  "reset_state now p = p\<lparr>p_unstable := 0, p_prev_delay := 0, p_created_at := now\<rparr>"

definition reset_counters :: "i64 \<Rightarrow> proc \<Rightarrow> proc" where
  "reset_counters now p =
     p\<lparr>p_restarts := 0, p_unstable := 0, p_prev_delay := 0, p_created_at := now\<rparr>"

section \<open>The table\<close>

record ptable =
  procs :: "(u32, proc) hmap"
  next_id :: u32

definition table_default :: ptable where
  "table_default = \<lparr>procs = [], next_id = 0\<rparr>"

definition alloc_id :: "ptable \<Rightarrow> u32 \<times> ptable" where
  "alloc_id t =
     (let t' = (if hm_rows (procs t) = [] then t\<lparr>next_id := 0\<rparr> else t);
          i = next_id t'
      in (i, t'\<lparr>next_id := i + 1\<rparr>))"

definition bump_next_id :: "u32 \<Rightarrow> ptable \<Rightarrow> ptable" where
  "bump_next_id used t = (if next_id t \<le> used then t\<lparr>next_id := used + 1\<rparr> else t)"

definition table_resolve :: "ptable \<Rightarrow> target \<Rightarrow> u32 list" where
  "table_resolve t tg =
     sort (case tg of
             All \<Rightarrow> map fst (hm_rows (procs t))
           | Ids is \<Rightarrow> filter (\<lambda>i. hm_get (procs t) i \<noteq> None) is
           | Names ns \<Rightarrow> map p_pm_id (filter (\<lambda>p. \<exists>n \<in> set ns. n = p_name p) (map snd (hm_rows (procs t)))))"

section \<open>The shared context\<close>

record ctx =
  c_table :: ptable
  c_bus :: "event list"
  c_log_generation :: u64
  c_shutting_down :: bool
  c_shutdown_sent :: bool
  c_watchers :: "(u32, unit) hmap"
  c_last_sample_ms :: i64
  c_prev_sample_pids :: "u32 list"
  c_files :: "(string, string) hmap"
  c_aborted :: "nat list"

definition publish :: "event \<Rightarrow> ctx \<Rightarrow> ctx" where
  "publish e c = c\<lparr>c_bus := c_bus c @ [e]\<rparr>"

definition publish_process_event :: "i64 \<Rightarrow> u32 \<Rightarrow> string \<Rightarrow> string \<Rightarrow> ctx \<Rightarrow> ctx" where
  "publish_process_event now pm_id nm ev c = publish (EvProcess pm_id nm ev now) c"

text \<open>The lock sections of the source: look a row up, or change it if it is there.\<close>

abbreviation row_of :: "ctx \<Rightarrow> u32 \<Rightarrow> proc option" where
  "row_of c i \<equiv> hm_get (procs (c_table c)) i"

definition put_row :: "u32 \<Rightarrow> proc \<Rightarrow> ctx \<Rightarrow> ctx" where
  "put_row i p c = c\<lparr>c_table := (c_table c)\<lparr>procs := hm_put i p (procs (c_table c))\<rparr>\<rparr>"

definition with_row :: "u32 \<Rightarrow> (proc \<Rightarrow> proc) \<Rightarrow> ctx \<Rightarrow> ctx" where
  "with_row i f c = (case row_of c i of Some p \<Rightarrow> put_row i (f p) c | None \<Rightarrow> c)"

definition del_row :: "u32 \<Rightarrow> ctx \<Rightarrow> ctx" where
  "del_row i c = c\<lparr>c_table := (c_table c)\<lparr>procs := hm_del i (procs (c_table c))\<rparr>\<rparr>"

section \<open>Well-formed tables\<close>

text \<open>Keys are distinct and every row carries the id it is filed under.\<close>

definition wf_table :: "ptable \<Rightarrow> bool" where
  "wf_table t = (hm_good (procs t) \<and> (\<forall>i p. hm_get (procs t) i = Some p \<longrightarrow> p_pm_id p = i))"

text \<open>Every id in use is below the counter: what makes \<open>alloc_id\<close> fresh.\<close>

definition ids_below :: "ptable \<Rightarrow> bool" where
  "ids_below t = (\<forall>i p. hm_get (procs t) i = Some p \<longrightarrow> i < next_id t)"

lemma wf_table_default [simp]: "wf_table table_default"
  by (simp add: wf_table_def table_default_def)

lemma wf_table_put:
  "wf_table t \<Longrightarrow> p_pm_id p = i \<Longrightarrow> wf_table (t\<lparr>procs := hm_put i p (procs t)\<rparr>)"
  by (simp add: wf_table_def)

lemma wf_table_del: "wf_table t \<Longrightarrow> wf_table (t\<lparr>procs := hm_del i (procs t)\<rparr>)"
  by (simp add: wf_table_def)

lemma wf_table_next [simp]: "wf_table (t\<lparr>next_id := n\<rparr>) = wf_table t"
  by (simp add: wf_table_def)

lemma procs_alloc_id [simp]: "procs (snd (alloc_id t)) = procs t"
  by (simp add: alloc_id_def Let_def)

lemma procs_bump [simp]: "procs (bump_next_id u t) = procs t"
  by (simp add: bump_next_id_def)

lemma wf_alloc_id [simp]: "wf_table (snd (alloc_id t)) = wf_table t"
  by (simp add: wf_table_def)

lemma wf_bump [simp]: "wf_table (bump_next_id u t) = wf_table t"
  by (simp add: wf_table_def)

lemma row_put_row [table_facts]: "row_of (put_row i p c) j = (if j = i then Some p else row_of c j)"
  by (simp add: put_row_def)

lemma row_with_row [table_facts]:
  "row_of (with_row i f c) j = (if j = i then map_option f (row_of c i) else row_of c j)"
  by (simp add: with_row_def row_put_row split: option.splits)

lemma row_del_row [table_facts]: "row_of (del_row i c) j = (if j = i then None else row_of c j)"
  by (simp add: del_row_def)

lemma row_publish [simp]: "c_table (publish e c) = c_table c"
  by (simp add: publish_def)

lemma row_publish_process [simp]: "c_table (publish_process_event now i n e c) = c_table c"
  by (simp add: publish_process_event_def)

lemma wf_put_row: "wf_table (c_table c) \<Longrightarrow> p_pm_id p = i \<Longrightarrow> wf_table (c_table (put_row i p c))"
  by (simp add: put_row_def wf_table_put)

lemma wf_with_row:
  "wf_table (c_table c) \<Longrightarrow> (\<And>p. p_pm_id (f p) = p_pm_id p) \<Longrightarrow> wf_table (c_table (with_row i f c))"
  by (auto simp: with_row_def wf_table_def put_row_def split: option.splits)

lemma wf_del_row: "wf_table (c_table c) \<Longrightarrow> wf_table (c_table (del_row i c))"
  by (simp add: del_row_def wf_table_del)

lemma proc_new_fields [simp]:
  "p_pm_id (proc_new ev now i n cfg) = i" "p_instance (proc_new ev now i n cfg) = n"
  "p_config (proc_new ev now i n cfg) = cfg" "p_status (proc_new ev now i n cfg) = Stopped"
  "p_cmd_tx (proc_new ev now i n cfg) = None" "p_pid (proc_new ev now i n cfg) = 0"
  "p_restarts (proc_new ev now i n cfg) = 0" "p_unstable (proc_new ev now i n cfg) = 0"
  by (simp_all add: proc_new_def Let_def)

section \<open>Identifiers\<close>

lemma ids_below_alloc:
  assumes "ids_below t"
  shows "hm_get (procs t) (fst (alloc_id t)) = None"
proof (cases "hm_rows (procs t) = []")
  case True
  then show ?thesis by (simp add: alloc_id_def hm_rows_def hm_get_def)
next
  case False
  with assms show ?thesis by (force simp: alloc_id_def Let_def ids_below_def)
qed

lemma ids_below_alloc_insert:
  assumes "ids_below t" "alloc_id t = (i, t')" "i \<noteq> - 1"
  shows "ids_below (t'\<lparr>procs := hm_put i p (procs t')\<rparr>)"
proof -
  have lt: "i < i + 1" using assms(3) by (rule u32_less_Suc)
  have t': "next_id t' = i + 1" "procs t' = procs t"
    using assms(2) by (auto simp: alloc_id_def Let_def split: if_splits)
  show ?thesis
  proof (cases "hm_rows (procs t) = []")
    case True
    with t' lt show ?thesis by (auto simp: ids_below_def hm_rows_def)
  next
    case False
    with assms(2) have "i = next_id t" by (simp add: alloc_id_def Let_def)
    with assms(1) t' lt show ?thesis by (force simp: ids_below_def dest: order.strict_trans)
  qed
qed

lemma ids_below_bump_insert:
  assumes "ids_below t" "i \<noteq> - 1"
  shows "ids_below ((bump_next_id i t)\<lparr>procs := hm_put i p (procs t)\<rparr>)"
proof -
  have lt: "i < i + 1" using assms(2) by (rule u32_less_Suc)
  with assms(1) show ?thesis
    by (force simp: ids_below_def bump_next_id_def dest: order.strict_trans1 order.strict_trans)
qed

section \<open>Resolution\<close>

lemma sorted_table_resolve: "sorted (table_resolve t tg)"
  by (simp add: table_resolve_def)

lemma set_table_resolve:
  assumes "wf_table t"
  shows "i \<in> set (table_resolve t tg) \<longleftrightarrow>
    (\<exists>p. hm_get (procs t) i = Some p \<and>
      (case tg of All \<Rightarrow> True | Ids is \<Rightarrow> i \<in> set is | Names ns \<Rightarrow> p_name p \<in> set ns))"
proof -
  have good: "hm_good (procs t)" and key: "\<And>p. hm_get (procs t) i = Some p \<Longrightarrow> p_pm_id p = i"
    using assms by (auto simp: wf_table_def)
  show ?thesis
  proof (cases tg)
    case All
    then show ?thesis using hm.keys_iff [OF good, of i] by (simp add: table_resolve_def del: set_map)
  next
    case (Ids js)
    then show ?thesis by (auto simp: table_resolve_def)
  next
    case (Names ns)
    have "i \<in> set (table_resolve t (Names ns)) \<longleftrightarrow>
        (\<exists>p \<in> set (map snd (hm_rows (procs t))). p_name p \<in> set ns \<and> p_pm_id p = i)"
      by (auto simp: table_resolve_def)
    also have "\<dots> \<longleftrightarrow> (\<exists>p k. hm_get (procs t) k = Some p \<and> p_name p \<in> set ns \<and> p_pm_id p = i)"
      using hm.values_iff [OF good] by blast
    also have "\<dots> \<longleftrightarrow> (\<exists>p. hm_get (procs t) i = Some p \<and> p_name p \<in> set ns)"
      using assms by (metis wf_table_def)
    finally show ?thesis using Names by simp
  qed
qed

section \<open>Properties\<close>

text \<open>While every id in use is below the counter, a new process gets an id no row has.\<close>
theorem alloc_id_is_fresh:
  assumes "ids_below t"
  shows "hm_get (procs t) (fst (alloc_id t)) = None \<and> procs (snd (alloc_id t)) = procs t"
  using ids_below_alloc [OF assms] by simp

definition sample_table :: ptable where
  "sample_table =
     \<lparr>procs = [(2, proc_new (\<lambda>_. None) 0 2 0 (app_new ''a.js'')), (0, proc_new (\<lambda>_. None) 0 0 1 (app_new ''b.py''))],
      next_id = 3\<rparr>"

lemma alloc_id_is_fresh_witness: "fst (alloc_id sample_table) = 3 \<and> hm_get (procs sample_table) 3 = None"
proof -
  have "ids_below sample_table" by (auto simp: ids_below_def sample_table_def hm_get_def)
  from alloc_id_is_fresh [OF this] show ?thesis by (simp add: alloc_id_def sample_table_def hm_rows_def)
qed

text \<open>Restoring a process under the largest id wraps the counter: the next start is given id 0,
  whether or not a process has it.\<close>
theorem restoring_last_id_reuses_zero:
  assumes "hm_rows (procs t) \<noteq> []"
  shows "fst (alloc_id (bump_next_id (- 1) t)) = 0"
  using assms by (simp add: alloc_id_def bump_next_id_def)

lemma restoring_last_id_reuses_zero_witness:
  "fst (alloc_id (bump_next_id (- 1) sample_table)) = 0 \<and> hm_get (procs sample_table) 0 \<noteq> None"
  using restoring_last_id_reuses_zero [of sample_table] by (simp add: sample_table_def hm_rows_def hm_get_def)

text \<open>A target resolves to the ids of exactly the rows it names, in ascending order, and to each
  of them once unless the request itself lists an id twice.\<close>
theorem resolve_selects_rows:
  assumes "wf_table t"
  shows "sorted (table_resolve t tg)
    \<and> (i \<in> set (table_resolve t tg) \<longleftrightarrow>
        (\<exists>p. hm_get (procs t) i = Some p \<and>
          (case tg of All \<Rightarrow> True | Ids is \<Rightarrow> i \<in> set is | Names ns \<Rightarrow> p_name p \<in> set ns)))
    \<and> (distinct (table_resolve t tg) \<or> (\<exists>is. tg = Ids is \<and> \<not> distinct is))"
proof -
  have good: "distinct (map fst (procs t))" using assms by (simp add: wf_table_def hm_good_def)
  have ids: "map p_pm_id (map snd (procs t)) = map fst (procs t)"
  proof -
    have "p_pm_id (snd r) = fst r" if "r \<in> set (procs t)" for r
    proof -
      have "hm_get (procs t) (fst r) = Some (snd r)" using good that by (simp add: hm_get_def)
      then show ?thesis using assms by (simp add: wf_table_def)
    qed
    then show ?thesis by simp
  qed
  have "distinct (map p_pm_id (filter P (map snd (procs t))))" for P
    using good unfolding ids [symmetric] by (rule distinct_map_filter)
  with good have "distinct (table_resolve t tg) \<or> (\<exists>is. tg = Ids is \<and> \<not> distinct is)"
    by (cases tg) (auto simp: table_resolve_def hm_rows_def)
  with sorted_table_resolve set_table_resolve [OF assms] show ?thesis by simp
qed

lemma resolve_selects_rows_witness:
  "sorted (table_resolve sample_table All) \<and> 2 \<in> set (table_resolve sample_table (Names [''a'', ''x'']))"
proof -
  have wf: "wf_table sample_table"
    by (auto simp: wf_table_def sample_table_def hm_good_def hm_get_def)
  have nm: "p_name (proc_new (\<lambda>_. None) 0 2 0 (app_new ''a.js'')) = ''a''" by code_simp
  show ?thesis
    using resolve_selects_rows [OF wf, of All 2] resolve_selects_rows [OF wf, of "Names [''a'', ''x'']" 2] nm
    by (simp add: sample_table_def hm_get_def)
qed

end
