(* ===== verification/Dump.thy ===== *)
theory Dump
  imports State
begin

text \<open>
  \<open>src/daemon/dump.rs\<close>: \<open>save\<close> writes the table to \<open>dump.pmr\<close> through a temporary file and a
  backup, \<open>resurrect\<close> reads it back and starts what is missing.  The JSON codec of a list of
  entries is the pair of arguments \<open>enc\<close>, \<open>dec\<close>; the disk is \<open>c_files\<close>, changed by a list of
  disk operations, each of which may be cut short.  \<open>start_app\<close> is the argument \<open>start\<close>.
\<close>

section \<open>Entries\<close>

record dump_entry =
  de_pm_id :: u32
  de_instance :: u32
  de_config :: app_config

definition dump_entries :: "ptable \<Rightarrow> dump_entry list" where
  "dump_entries t =
     map (\<lambda>p. \<lparr>de_pm_id = p_pm_id p, de_instance = p_instance p, de_config = p_config p\<rparr>)
       (sort_key p_pm_id (map snd (hm_rows (procs t))))"

record codec =
  cd_enc :: "dump_entry list \<Rightarrow> string option"
  cd_dec :: "string \<Rightarrow> dump_entry list option"

section \<open>The disk\<close>

type_synonym disk = "(string, string) hmap"

datatype disk_op =
    DCopy string string
  | DWrite string string
  | DRename string string

text \<open>\<open>cut\<close> is how many bytes an interrupted operation has written; a rename is atomic.\<close>

fun apply_op :: "disk_op \<Rightarrow> disk \<Rightarrow> disk" where
  "apply_op (DCopy a b) d = (case hm_get d a of Some x \<Rightarrow> hm_put b x d | None \<Rightarrow> d)"
| "apply_op (DWrite f x) d = hm_put f x d"
| "apply_op (DRename a b) d = (case hm_get d a of Some x \<Rightarrow> hm_put b x (hm_del a d) | None \<Rightarrow> d)"

fun cut_op :: "nat \<Rightarrow> disk_op \<Rightarrow> disk \<Rightarrow> disk" where
  "cut_op n (DCopy a b) d = (case hm_get d a of Some x \<Rightarrow> hm_put b (take n x) d | None \<Rightarrow> d)"
| "cut_op n (DWrite f x) d = hm_put f (take n x) d"
| "cut_op n (DRename a b) d = d"

section \<open>\<open>save\<close>\<close>

definition dump_tmp :: "env_vars \<Rightarrow> string" where
  "dump_tmp ev = path_with_extension (dump_file ev) ''pmr.tmp''"

text \<open>The backup is made only of a dump that parses.\<close>

definition backup_ops :: "codec \<Rightarrow> env_vars \<Rightarrow> disk \<Rightarrow> disk_op list" where
  "backup_ops cd ev d =
     (case hm_get d (dump_file ev) of
        Some old \<Rightarrow> if cd_dec cd old \<noteq> None then [DCopy (dump_file ev) (dump_backup_file ev)] else []
      | None \<Rightarrow> [])"

definition replace_ops :: "env_vars \<Rightarrow> string \<Rightarrow> disk_op list" where
  "replace_ops ev json = [DWrite (dump_tmp ev) json, DRename (dump_tmp ev) (dump_file ev)]"

text \<open>An operation that fails leaves what it has written; a failed backup is ignored, any other
  failure ends the save.  \<open>fails\<close> says which operations fail, and after how many bytes.\<close>

fun run_ops :: "(disk_op \<Rightarrow> nat option) \<Rightarrow> disk_op list \<Rightarrow> disk \<Rightarrow> bool \<times> disk" where
  "run_ops fails [] d = (True, d)"
| "run_ops fails (x # xs) d =
     (case fails x of
        Some n \<Rightarrow> (False, cut_op n x d)
      | None \<Rightarrow> run_ops fails xs (apply_op x d))"

definition save :: "codec \<Rightarrow> env_vars \<Rightarrow> (disk_op \<Rightarrow> nat option) \<Rightarrow> ctx \<Rightarrow> string res \<times> ctx" where
  "save cd ev fails c =
     (let entries = dump_entries (c_table c); path = dump_file ev
      in if entries = [] then
           (if hm_get (c_files c) path \<noteq> None then Inl E_dump_would_be_empty else Inr path, c)
         else
           let d1 = snd (run_ops fails (backup_ops cd ev (c_files c)) (c_files c))
           in case cd_enc cd entries of
                None \<Rightarrow> (Inl E_dump_io, c\<lparr>c_files := d1\<rparr>)
              | Some json \<Rightarrow>
                  (case run_ops fails (replace_ops ev json) d1 of
                     (ok, d2) \<Rightarrow> (if ok then Inr path else Inl E_dump_io, c\<lparr>c_files := d2\<rparr>)))"

section \<open>\<open>resurrect\<close>\<close>

definition load_dump :: "codec \<Rightarrow> env_vars \<Rightarrow> disk \<Rightarrow> dump_entry list res" where
  "load_dump cd ev d =
     (case Option.bind (hm_get d (dump_file ev)) (cd_dec cd) of
        Some e \<Rightarrow> Inr e
      | None \<Rightarrow>
          (case hm_get d (dump_backup_file ev) of
             None \<Rightarrow> Inl E_no_usable_dump
           | Some raw \<Rightarrow> (case cd_dec cd raw of None \<Rightarrow> Inl E_backup_corrupt | Some e \<Rightarrow> Inr e)))"

type_synonym starter = "app_config \<Rightarrow> u32 \<times> u32 \<Rightarrow> ctx \<Rightarrow> u32 list res \<times> ctx"

definition names_of :: "ptable \<Rightarrow> string list" where
  "names_of t = map p_name (map snd (hm_rows (procs t)))"

fun resurrect_entries :: "starter \<Rightarrow> string list \<Rightarrow> dump_entry list \<Rightarrow> ctx \<Rightarrow> u32 list \<times> ctx" where
  "resurrect_entries start pre [] c = ([], c)"
| "resurrect_entries start pre (e # es) c =
     (if row_of c (de_pm_id e) \<noteq> None \<or> effective_name (de_config e) \<in> set pre then
        (case resurrect_entries start pre es c of (ids, c') \<Rightarrow> (de_pm_id e # ids, c'))
      else
        (case start (de_config e) (de_pm_id e, de_instance e) c of
           (r, c1) \<Rightarrow>
             (case resurrect_entries start pre es c1 of
                (ids, c') \<Rightarrow> ((case r of Inr started \<Rightarrow> started | Inl _ \<Rightarrow> []) @ ids, c'))))"

definition resurrect :: "codec \<Rightarrow> env_vars \<Rightarrow> starter \<Rightarrow> ctx \<Rightarrow> u32 list res \<times> ctx" where
  "resurrect cd ev start c =
     (case load_dump cd ev (c_files c) of
        Inl e \<Rightarrow> (Inl e, c)
      | Inr entries \<Rightarrow>
          (case resurrect_entries start (names_of (c_table c)) entries c of (ids, c') \<Rightarrow> (Inr ids, c')))"

section \<open>The three files are different files\<close>

lemma dump_paths:
  "dump_tmp ev \<noteq> dump_file ev" "dump_tmp ev \<noteq> dump_backup_file ev" "dump_backup_file ev \<noteq> dump_file ev"
proof -
  have rel: "\<not> starts_with ''dump.pmr'' ''/''" "\<not> starts_with ''dump.pmr.bak'' ''/''" by (simp_all add: starts_with_def)
  obtain a where a: "dump_file ev = a @ ''dump.pmr''" "dump_backup_file ev = a @ ''dump.pmr.bak''"
    using path_join_snoc [OF rel(1), of "home ev"] rel(2) unfolding dump_file_def dump_backup_file_def by blast
  have nm: "path_file_name (dump_file ev) = Some ''dump.pmr''"
    unfolding dump_file_def by (rule path_file_name_join) auto
  have "last_dot_split ''dump.pmr'' = Some (''dump'', ''pmr'')" by (simp add: last_dot_split_def Let_def)
  with nm have "dump_tmp ev = a @ ''dump.pmr.tmp''"
    by (simp add: dump_tmp_def path_with_extension_def a Let_def)
  with a show "dump_tmp ev \<noteq> dump_file ev" "dump_tmp ev \<noteq> dump_backup_file ev" "dump_backup_file ev \<noteq> dump_file ev"
    by simp_all
qed

section \<open>Crashes\<close>

text \<open>The disk after a crash: some operations done, the next one cut, the rest never run.\<close>

definition crash_disk :: "disk_op list \<Rightarrow> nat \<Rightarrow> nat \<Rightarrow> disk \<Rightarrow> disk" where
  "crash_disk ops k n d =
     (let d' = fold apply_op (take k ops) d in if k < length ops then cut_op n (ops ! k) d' else d')"

lemma load_dump_tmp [simp]: "load_dump cd ev (hm_put (dump_tmp ev) x d) = load_dump cd ev d"
proof -
  have "hm_get (hm_put (dump_tmp ev) x d) (dump_backup_file ev) = hm_get d (dump_backup_file ev)"
    "hm_get (hm_put (dump_tmp ev) x d) (dump_file ev) = hm_get d (dump_file ev)"
    using dump_paths [of ev] by simp_all
  then show ?thesis by (simp only: load_dump_def)
qed

lemma load_dump_main:
  "hm_get d (dump_file ev) = Some x \<Longrightarrow> cd_dec cd x = Some es \<Longrightarrow> load_dump cd ev d = Inr es"
  by (simp add: load_dump_def)

lemma load_dump_backup:
  assumes "hm_get d (dump_file ev) = Some x" "cd_dec cd x = Some es"
  shows "load_dump cd ev (hm_put (dump_backup_file ev) y d) = Inr es"
  using assms dump_paths [of ev] by (simp add: load_dump_def)

lemma crash_backup:
  "load_dump cd ev (crash_disk (backup_ops cd ev d) k n d) = load_dump cd ev d"
proof (cases "backup_ops cd ev d")
  case Nil
  then show ?thesis by (simp add: crash_disk_def)
next
  case (Cons op ops)
  then obtain x es where x: "hm_get d (dump_file ev) = Some x" "cd_dec cd x = Some es"
    and ops: "backup_ops cd ev d = [DCopy (dump_file ev) (dump_backup_file ev)]"
    by (auto simp: backup_ops_def split: option.splits if_splits)
  show ?thesis
    unfolding ops using x load_dump_backup [OF x] load_dump_main [OF x]
    by (cases k) (simp_all add: crash_disk_def Let_def)
qed

lemma crash_replace:
  assumes "cd_dec cd json = Some es"
  shows "load_dump cd ev (crash_disk (replace_ops ev json) k n d) \<in> {load_dump cd ev d, Inr es}"
proof -
  consider "k = 0" | "k = 1" | "2 \<le> k" by linarith
  then show ?thesis
  proof cases
    case 3
    then have "take k (replace_ops ev json) = replace_ops ev json" by (simp add: replace_ops_def)
    with assms dump_paths [of ev] show ?thesis by (simp add: crash_disk_def replace_ops_def load_dump_def Let_def)
  qed (use load_dump_tmp in \<open>simp_all add: crash_disk_def replace_ops_def Let_def\<close>)
qed

lemma backup_all: "load_dump cd ev (fold apply_op (backup_ops cd ev d) d) = load_dump cd ev d"
  using crash_backup [of cd ev d "length (backup_ops cd ev d)" 0] by (simp add: crash_disk_def Let_def)

lemma run_ops_ok: "(\<And>x. x \<in> set ops \<Longrightarrow> fails x = None) \<Longrightarrow> run_ops fails ops d = (True, fold apply_op ops d)"
  by (induction ops arbitrary: d) simp_all

lemma run_ops_crash:
  "\<exists>k n. snd (run_ops fails ops d) = crash_disk ops k n d"
proof (induction ops arbitrary: d)
  case Nil
  show ?case by (simp add: crash_disk_def)
next
  case (Cons x xs)
  show ?case
  proof (cases "fails x")
    case (Some n)
    then show ?thesis by (intro exI [of _ 0] exI [of _ n]) (simp add: crash_disk_def)
  next
    case None
    from Cons obtain k n where "snd (run_ops fails xs (apply_op x d)) = crash_disk xs k n (apply_op x d)" by blast
    with None show ?thesis by (intro exI [of _ "Suc k"] exI [of _ n]) (simp add: crash_disk_def Let_def)
  qed
qed

section \<open>Properties\<close>

text \<open>The operations a save performs when nothing fails.\<close>

definition save_ops :: "codec \<Rightarrow> env_vars \<Rightarrow> string \<Rightarrow> disk \<Rightarrow> disk_op list" where
  "save_ops cd ev json d = backup_ops cd ev d @ replace_ops ev json"

text \<open>C10: The dump survives a crash: cut the save short after any operation and any number of bytes,
  and reading the dump back yields what it yielded before or the entries being saved, given only
  that the codec reads back the text it wrote.\<close>
theorem save_is_crash_safe:
  assumes "cd_enc cd entries = Some json" "cd_dec cd json = Some entries"
  shows "load_dump cd ev (crash_disk (save_ops cd ev json d) k n d) \<in> {load_dump cd ev d, Inr entries}"
proof -
  let ?b = "backup_ops cd ev d"
  show ?thesis
  proof (cases "k < length ?b")
    case True
    then have "crash_disk (save_ops cd ev json d) k n d = crash_disk ?b k n d"
      by (simp add: crash_disk_def save_ops_def nth_append Let_def)
    then show ?thesis by (simp add: crash_backup)
  next
    case False
    then have "crash_disk (save_ops cd ev json d) k n d
        = crash_disk (replace_ops ev json) (k - length ?b) n (fold apply_op ?b d)"
      by (auto simp: crash_disk_def save_ops_def nth_append Let_def)
    then show ?thesis
      using crash_replace [OF assms(2), of ev "k - length ?b" n "fold apply_op ?b d"] by (simp add: backup_all)
  qed
qed

definition sample_vars :: env_vars where
  "sample_vars = (\<lambda>_. None)"

definition sample_codec :: codec where
  "sample_codec =
     \<lparr> cd_enc = (\<lambda>es. if es = dump_entries sample_table then Some ''new'' else None),
       cd_dec = (\<lambda>s. if s = ''new'' then Some (dump_entries sample_table) else if s = ''old'' then Some [] else None) \<rparr>"

lemma save_is_crash_safe_witness:
  "load_dump sample_codec sample_vars (crash_disk (save_ops sample_codec sample_vars ''new'' [(dump_file sample_vars, ''old'')]) 1 2 [(dump_file sample_vars, ''old'')])
     \<in> {Inr [], Inr (dump_entries sample_table)}"
proof -
  have "load_dump sample_codec sample_vars [(dump_file sample_vars, ''old'')] = Inr []"
    by (simp add: load_dump_def sample_codec_def hm_get_def)
  with save_is_crash_safe [of sample_codec "dump_entries sample_table" "''new''" sample_vars "[(dump_file sample_vars, ''old'')]" 1 2]
  show ?thesis by (simp add: sample_codec_def)
qed

text \<open>C30: A save that reports success makes the next read yield exactly the table's entries, in
  ascending order of id; one that fails leaves what a read yields unchanged or, at worst, already
  replaced by these entries; an empty table changes nothing on disk.\<close>
theorem save_then_load:
  assumes "cd_enc cd (dump_entries (c_table c)) = Some json" "cd_dec cd json = Some (dump_entries (c_table c))"
    and "save cd ev fails c = (r, c')"
  shows "(if dump_entries (c_table c) = [] then c' = c
     else if is_ok r then load_dump cd ev (c_files c') = Inr (dump_entries (c_table c))
     else load_dump cd ev (c_files c') \<in> {load_dump cd ev (c_files c), Inr (dump_entries (c_table c))})
    \<and> sorted (map de_pm_id (dump_entries (c_table c)))"
proof -
  let ?es = "dump_entries (c_table c)" and ?d = "c_files c"
  let ?d1 = "snd (run_ops fails (backup_ops cd ev ?d) ?d)"
  have srt: "sorted (map de_pm_id ?es)" by (simp add: dump_entries_def o_def)
  have d1: "load_dump cd ev ?d1 = load_dump cd ev ?d"
    using run_ops_crash [of fails "backup_ops cd ev ?d" ?d] crash_backup by metis
  show ?thesis
  proof (cases "?es = []")
    case True
    with assms(3) srt show ?thesis by (auto simp: save_def Let_def)
  next
    case False
    obtain ok d2 where run: "run_ops fails (replace_ops ev json) ?d1 = (ok, d2)"
      by (cases "run_ops fails (replace_ops ev json) ?d1")
    with assms False have r: "is_ok r = ok" "c_files c' = d2"
      by (auto simp: save_def Let_def split: if_splits)
    have "load_dump cd ev d2 \<in> {load_dump cd ev ?d1, Inr ?es}"
      using run_ops_crash [of fails "replace_ops ev json" ?d1] crash_replace [OF assms(2)] run by (metis snd_conv)
    moreover have "load_dump cd ev d2 = Inr ?es" if ok
    proof -
      from run that have "d2 = fold apply_op (replace_ops ev json) ?d1"
        by (auto simp: replace_ops_def split: option.splits)
      with assms(2) dump_paths [of ev] show ?thesis by (simp add: replace_ops_def load_dump_def)
    qed
    ultimately show ?thesis using False r d1 srt by auto
  qed
qed

definition sample_ctx :: ctx where
  "sample_ctx =
     \<lparr> c_table = sample_table, c_bus = [], c_log_generation = 0, c_shutting_down = False, c_shutdown_sent = False,
       c_watchers = [], c_last_sample_ms = 0, c_prev_sample_pids = [], c_files = [], c_aborted = [] \<rparr>"

lemma save_then_load_witness:
  "load_dump sample_codec sample_vars (c_files (snd (save sample_codec sample_vars (\<lambda>_. None) sample_ctx))) = Inr (dump_entries sample_table)
   \<and> map de_pm_id (dump_entries sample_table) = [0, 2]"
proof -
  have ids: "map de_pm_id (dump_entries sample_table) = [0, 2]" by code_simp
  then have ne: "dump_entries sample_table \<noteq> []" by auto
  obtain r c' where run: "save sample_codec sample_vars (\<lambda>_. None) sample_ctx = (r, c')" by fastforce
  have "is_ok r"
    using run ne by (auto simp: save_def sample_ctx_def sample_codec_def run_ops_ok Let_def)
  with save_then_load [OF _ _ run, of "''new''"] ne run ids show ?thesis
    by (simp add: sample_codec_def sample_ctx_def)
qed

text \<open>What \<open>resurrect\<close> needs of \<open>start_app\<close>: a success reports the id it was given and leaves a row
  under it, and no start makes another row disappear.\<close>

definition starts_rows :: "starter \<Rightarrow> bool" where
  "starts_rows start =
     (\<forall>app i n c. (case start app (i, n) c of (r, c') \<Rightarrow>
        (\<forall>ids. r = Inr ids \<longrightarrow> ids = [i] \<and> row_of c' i \<noteq> None) \<and> (\<forall>j. row_of c j \<noteq> None \<longrightarrow> row_of c' j \<noteq> None)))"

lemma starts_rowsD:
  assumes "starts_rows start" "start app (i, n) c = (r, c')"
  shows "r = Inr ids \<Longrightarrow> ids = [i] \<and> row_of c' i \<noteq> None" "row_of c j \<noteq> None \<Longrightarrow> row_of c' j \<noteq> None"
proof -
  have "(\<forall>ids. r = Inr ids \<longrightarrow> ids = [i] \<and> row_of c' i \<noteq> None) \<and> (\<forall>j. row_of c j \<noteq> None \<longrightarrow> row_of c' j \<noteq> None)"
    using assms(1) [unfolded starts_rows_def, THEN spec, of app, THEN spec, of i, THEN spec, of n, THEN spec, of c]
    unfolding assms(2) by simp
  then show "r = Inr ids \<Longrightarrow> ids = [i] \<and> row_of c' i \<noteq> None" "row_of c j \<noteq> None \<Longrightarrow> row_of c' j \<noteq> None"
    by blast+
qed

lemma resurrect_entries_rows:
  assumes "starts_rows start" "resurrect_entries start pre es c = (ids, c')"
  shows "(\<forall>j. row_of c j \<noteq> None \<longrightarrow> row_of c' j \<noteq> None)
    \<and> (\<forall>i \<in> set ids. \<exists>e \<in> set es. de_pm_id e = i \<and> (row_of c' i \<noteq> None \<or> effective_name (de_config e) \<in> set pre))
    \<and> (\<forall>e \<in> set es. row_of c (de_pm_id e) \<noteq> None \<or> effective_name (de_config e) \<in> set pre \<longrightarrow> de_pm_id e \<in> set ids)"
  using assms(2)
proof (induction es arbitrary: c ids)
  case Nil
  then show ?case by simp
next
  case (Cons e es)
  show ?case
  proof (cases "row_of c (de_pm_id e) \<noteq> None \<or> effective_name (de_config e) \<in> set pre")
    case True
    with Cons.prems obtain ids' where r: "resurrect_entries start pre es c = (ids', c')" "ids = de_pm_id e # ids'"
      by (auto split: prod.splits)
    from Cons.IH [OF r(1)] True r(2) show ?thesis by auto
  next
    case False
    obtain r c1 where st: "start (de_config e) (de_pm_id e, de_instance e) c = (r, c1)" by fastforce
    with False Cons.prems obtain ids' where rest: "resurrect_entries start pre es c1 = (ids', c')"
      and ids: "ids = (case r of Inr started \<Rightarrow> started | Inl _ \<Rightarrow> []) @ ids'"
      by (auto split: prod.splits)
    note keep = starts_rowsD(2) [OF assms(1) st] and new = starts_rowsD(1) [OF assms(1) st]
    note IH = Cons.IH [OF rest]
    have "i = de_pm_id e \<and> row_of c' i \<noteq> None" if "i \<in> set (case r of Inr started \<Rightarrow> started | Inl _ \<Rightarrow> [])" for i
      using that new IH by (cases r) auto
    with IH keep False show ?thesis unfolding ids by auto
  qed
qed

text \<open>\<open>resurrect\<close> reports exactly what the dump covers: every id it returns belongs to an entry
  that now has a row or whose name was already in use, every entry that was already present is
  reported, and no process that had a row loses it.\<close>
theorem resurrect_reports_coverage:
  assumes "starts_rows start" "load_dump cd ev (c_files c) = Inr entries" "resurrect cd ev start c = (Inr ids, c')"
  shows "(\<forall>j. row_of c j \<noteq> None \<longrightarrow> row_of c' j \<noteq> None)
    \<and> (\<forall>i \<in> set ids. \<exists>e \<in> set entries. de_pm_id e = i
          \<and> (row_of c' i \<noteq> None \<or> effective_name (de_config e) \<in> set (names_of (c_table c))))
    \<and> (\<forall>e \<in> set entries. row_of c (de_pm_id e) \<noteq> None \<longrightarrow> de_pm_id e \<in> set ids)"
proof -
  have "resurrect_entries start (names_of (c_table c)) entries c = (ids, c')"
    using assms(2,3) by (auto simp: resurrect_def split: prod.splits)
  from resurrect_entries_rows [OF assms(1) this] show ?thesis by blast
qed

definition sample_starter :: starter where
  "sample_starter app f c = (Inr [fst f], put_row (fst f) (proc_new (\<lambda>_. None) 0 (fst f) (snd f) app) c)"

lemma resurrect_reports_coverage_witness:
  "\<exists>ids c'. resurrect sample_codec sample_vars sample_starter (sample_ctx\<lparr>c_table := table_default, c_files := [(dump_file sample_vars, ''new'')]\<rparr>)
       = (Inr ids, c') \<and> (\<forall>i \<in> set ids. row_of c' i \<noteq> None)"
proof -
  let ?c = "sample_ctx\<lparr>c_table := table_default, c_files := [(dump_file sample_vars, ''new'')]\<rparr>"
  have law: "starts_rows sample_starter" by (simp add: starts_rows_def sample_starter_def row_put_row)
  have load: "load_dump sample_codec sample_vars (c_files ?c) = Inr (dump_entries sample_table)"
    by (simp add: load_dump_def sample_codec_def hm_get_def)
  obtain ids c' where "resurrect_entries sample_starter (names_of (c_table ?c)) (dump_entries sample_table) ?c = (ids, c')"
    by fastforce
  with load have run: "resurrect sample_codec sample_vars sample_starter ?c = (Inr ids, c')" by (simp add: resurrect_def)
  have "names_of (c_table ?c) = []" by (simp add: names_of_def table_default_def hm_rows_def)
  with resurrect_reports_coverage [OF law load run] run show ?thesis by auto
qed

end
