(* ===== verification/Restart.thy ===== *)
theory Restart
  imports State
begin

text \<open>
  The restart policy of \<open>src/daemon/supervisor.rs\<close> (\<open>decide_restart\<close>): what happens after a
  child exits.  The executable definition keeps the source's integer widths and casts; an
  ideal policy over unbounded numbers is its specification, and the two agree on every input
  whose products and differences fit.
\<close>

section \<open>Definitions\<close>

datatype restart_decision =
    RdStop
  | RdGiveUp
  | RdRestart u64 u32 u64     \<comment> \<open>\<open>delay_ms\<close>, \<open>unstable_restarts\<close>, \<open>prev_restart_delay\<close>\<close>

record exit_facts =
  f_status :: status
  f_autorestart :: bool
  f_exit_code :: "i32 option"
  f_stop_exit_codes :: "i32 list"
  f_min_uptime_ms :: u64
  f_max_restarts :: u32
  f_unstable_restarts :: u32
  f_created_at_ms :: i64
  f_online_since_ms :: i64
  f_now_ms :: i64
  f_restart_delay_ms :: u64
  f_backoff_base_ms :: u64
  f_prev_restart_delay_ms :: u64

definition backoff_cap_ms :: u64 where
  "backoff_cap_ms = 15000"

definition exit_is_final :: "exit_facts \<Rightarrow> bool" where
  "exit_is_final f =
     (f_status f \<in> {Stopping, Stopped, Errored} \<or> \<not> f_autorestart f
      \<or> (case f_exit_code f of Some c \<Rightarrow> c \<in> set (f_stop_exit_codes f) | None \<Rightarrow> False))"

text \<open>\<open>window\<close> saturates as a \<open>u64\<close> and is then read as an \<open>i64\<close>.\<close>

definition exit_is_unstable :: "exit_facts \<Rightarrow> bool" where
  "exit_is_unstable f =
     (let window = saturating_mul_u64 (f_min_uptime_ms f) (ucast (f_max_restarts f))
      in i64_less (f_now_ms f - f_created_at_ms f) window
       \<and> i64_less (f_now_ms f - f_online_since_ms f) (f_min_uptime_ms f))"

definition backoff_next :: "u64 \<Rightarrow> u64 \<Rightarrow> u64" where
  "backoff_next base prev = (if prev = 0 then base else min backoff_cap_ms (prev * 3 div 2))"

definition decide_restart :: "exit_facts \<Rightarrow> restart_decision" where
  "decide_restart f =
     (if exit_is_final f then RdStop
      else
        let unstable = (if exit_is_unstable f then f_unstable_restarts f + 1 else f_unstable_restarts f)
        in if f_max_restarts f \<le> unstable then RdGiveUp
           else if 0 < f_backoff_base_ms f then
             (let nxt = backoff_next (f_backoff_base_ms f) (f_prev_restart_delay_ms f)
              in RdRestart nxt unstable nxt)
           else RdRestart (f_restart_delay_ms f) unstable 0)"

section \<open>The ideal policy\<close>

datatype ideal_decision = IdStop | IdGiveUp | IdRestart nat nat nat

fun abs_decision :: "restart_decision \<Rightarrow> ideal_decision" where
  "abs_decision RdStop = IdStop"
| "abs_decision RdGiveUp = IdGiveUp"
| "abs_decision (RdRestart d u p) = IdRestart (unat d) (unat u) (unat p)"

text \<open>
  Uptime, window and counters as numbers: an exit is unstable when it comes sooner than
  \<open>min_uptime\<close> after going online and within \<open>min_uptime * max_restarts\<close> of the last reset.
\<close>

definition ideal_policy :: "exit_facts \<Rightarrow> ideal_decision" where
  "ideal_policy f =
     (let minup = int (unat (f_min_uptime_ms f));
          maxr = unat (f_max_restarts f);
          age = sint (f_now_ms f) - sint (f_created_at_ms f);
          up = sint (f_now_ms f) - sint (f_online_since_ms f);
          u = unat (f_unstable_restarts f);
          unstable = (if age < minup * int maxr \<and> up < minup then u + 1 else u);
          base = unat (f_backoff_base_ms f);
          prev = unat (f_prev_restart_delay_ms f)
      in if exit_is_final f then IdStop
         else if maxr \<le> unstable then IdGiveUp
         else if 0 < base then
           (let nxt = (if prev = 0 then base else min 15000 (prev * 3 div 2)) in IdRestart nxt unstable nxt)
         else IdRestart (unat (f_restart_delay_ms f)) unstable 0)"

definition facts_in_range :: "exit_facts \<Rightarrow> bool" where
  "facts_in_range f =
     (unat (f_min_uptime_ms f) * unat (f_max_restarts f) < 2 ^ 63
      \<and> unat (f_min_uptime_ms f) < 2 ^ 63
      \<and> - (2 ^ 63) \<le> sint (f_now_ms f) - sint (f_created_at_ms f)
      \<and> sint (f_now_ms f) - sint (f_created_at_ms f) < 2 ^ 63
      \<and> - (2 ^ 63) \<le> sint (f_now_ms f) - sint (f_online_since_ms f)
      \<and> sint (f_now_ms f) - sint (f_online_since_ms f) < 2 ^ 63
      \<and> f_unstable_restarts f < f_max_restarts f
      \<and> unat (f_prev_restart_delay_ms f) * 3 < 2 ^ 64)"

lemma exit_is_unstable_in_range:
  assumes "facts_in_range f"
  shows "exit_is_unstable f \<longleftrightarrow>
    sint (f_now_ms f) - sint (f_created_at_ms f) < int (unat (f_min_uptime_ms f) * unat (f_max_restarts f))
    \<and> sint (f_now_ms f) - sint (f_online_since_ms f) < int (unat (f_min_uptime_ms f))"
proof -
  let ?w = "saturating_mul_u64 (f_min_uptime_ms f) (ucast (f_max_restarts f))"
  have prod: "unat (f_min_uptime_ms f) * unat (f_max_restarts f) < 2 ^ 63"
    using assms by (simp add: facts_in_range_def)
  have w: "unat ?w = unat (f_min_uptime_ms f) * unat (f_max_restarts f)"
    using prod by (simp only: unat_saturating_mul_u64 unat_ucast_u32_u64) simp
  have "sint ?w = int (unat ?w)"
    using prod w by (intro sint_nonneg_i64) simp
  moreover have "sint (f_min_uptime_ms f) = int (unat (f_min_uptime_ms f))"
    using assms by (intro sint_nonneg_i64) (simp add: facts_in_range_def)
  moreover have "sint (f_now_ms f - f_created_at_ms f) = sint (f_now_ms f) - sint (f_created_at_ms f)"
    "sint (f_now_ms f - f_online_since_ms f) = sint (f_now_ms f) - sint (f_online_since_ms f)"
    using assms by (auto intro!: sint_diff_i64 simp: facts_in_range_def)
  ultimately show ?thesis
    by (simp add: exit_is_unstable_def i64_less_def Let_def w)
qed

lemma unat_min: "unat (min a b) = min (unat a) (unat (b :: 'w :: len word))"
  by (simp add: min_def word_le_nat_alt)

lemma unat_backoff_next:
  assumes "unat prev * 3 < 2 ^ 64"
  shows "unat (backoff_next base prev) = (if prev = 0 then unat base else min 15000 (unat prev * 3 div 2))"
proof -
  have "unat (prev * 3) = unat prev * 3"
    using assms by (simp add: unat_word_ariths)
  then show ?thesis
    by (simp add: backoff_next_def backoff_cap_ms_def unat_min unat_div_distrib)
qed

lemma unat_backoff_grow:
  assumes "0 < unat prev" "unat prev * 3 < 2 ^ 64"
  shows "unat (backoff_next base prev) = min 15000 (unat prev * 3 div 2)"
  using assms unat_backoff_next [OF assms(2), of base] by auto

section \<open>Repeated exits\<close>

text \<open>
  What the lifecycle loop carries from one exit to the next: the two counters of the decision
  go back into the row.  \<open>auto_restarts\<close> counts the restarts granted to a sequence of exits
  until the policy stops or gives up.
\<close>

definition with_counters :: "exit_facts \<Rightarrow> u32 \<Rightarrow> u64 \<Rightarrow> exit_facts" where
  "with_counters f u p = f\<lparr>f_unstable_restarts := u, f_prev_restart_delay_ms := p\<rparr>"

fun auto_restarts :: "exit_facts list \<Rightarrow> u32 \<Rightarrow> u64 \<Rightarrow> nat" where
  "auto_restarts [] u p = 0"
| "auto_restarts (f # fs) u p =
     (case decide_restart (with_counters f u p) of
        RdRestart d u' p' \<Rightarrow> Suc (auto_restarts fs u' p')
      | _ \<Rightarrow> 0)"

lemma exit_is_unstable_counters [simp]: "exit_is_unstable (with_counters f u p) = exit_is_unstable f"
  by (simp add: exit_is_unstable_def with_counters_def)

lemma exit_is_final_counters [simp]: "exit_is_final (with_counters f u p) = exit_is_final f"
  by (simp add: exit_is_final_def with_counters_def split: option.split)

lemma with_counters_fields [simp]:
  "f_max_restarts (with_counters f u p) = f_max_restarts f"
  "f_unstable_restarts (with_counters f u p) = u"
  "f_prev_restart_delay_ms (with_counters f u p) = p"
  "f_backoff_base_ms (with_counters f u p) = f_backoff_base_ms f"
  "f_restart_delay_ms (with_counters f u p) = f_restart_delay_ms f"
  by (simp_all add: with_counters_def)

lemma decide_unstable:
  assumes "exit_is_unstable f" "\<not> exit_is_final f"
  shows "decide_restart (with_counters f u p) =
    (if f_max_restarts f \<le> u + 1 then RdGiveUp
     else if 0 < f_backoff_base_ms f then
       RdRestart (backoff_next (f_backoff_base_ms f) p) (u + 1) (backoff_next (f_backoff_base_ms f) p)
     else RdRestart (f_restart_delay_ms f) (u + 1) 0)"
  using assms by (simp add: decide_restart_def Let_def)

lemma auto_restarts_unstable:
  assumes "\<And>f. f \<in> set fs \<Longrightarrow> exit_is_unstable f \<and> \<not> exit_is_final f \<and> f_max_restarts f = m"
    and "u < m"
  shows "auto_restarts fs u p = min (length fs) (unat m - 1 - unat u)"
  using assms
proof (induction fs arbitrary: u p)
  case Nil
  then show ?case by simp
next
  case (Cons f fs)
  have f: "exit_is_unstable f" "\<not> exit_is_final f" "f_max_restarts f = m" using Cons.prems(1) by auto
  have u1: "unat (u + 1) = unat u + 1" using Cons.prems(2) by (rule u32_less_plus_one)
  have lt: "unat u < unat m" using Cons.prems(2) by (simp add: word_less_nat_alt)
  show ?case
  proof (cases "m \<le> u + 1")
    case True
    with f have "auto_restarts (f # fs) u p = 0" by (simp add: decide_unstable)
    moreover have "unat m - 1 - unat u = 0" using True u1 by (simp add: word_le_nat_alt)
    ultimately show ?thesis by simp
  next
    case False
    then have lt1: "u + 1 < m" by simp
    have IH: "auto_restarts fs (u + 1) q = min (length fs) (unat m - 1 - unat (u + 1))" for q
      using Cons.prems(1) lt1 by (intro Cons.IH) auto
    have "auto_restarts (f # fs) u p = Suc (min (length fs) (unat m - 1 - unat (u + 1)))"
      using f False by (auto simp: decide_unstable IH)
    moreover have "Suc (unat m - 1 - unat (u + 1)) = unat m - 1 - unat u"
      using lt1 u1 by (simp add: word_less_nat_alt)
    ultimately show ?thesis by simp
  qed
qed

section \<open>The backoff sequence\<close>

definition backoff_iter :: "u64 \<Rightarrow> nat \<Rightarrow> u64" where
  "backoff_iter base n = ((backoff_next base) ^^ n) base"

text \<open>The same sequence on numbers.\<close>

definition grow :: "nat \<Rightarrow> nat" where
  "grow d = min 15000 (d * 3 div 2)"

lemma grow_le: "grow d \<le> 15000"
  by (simp add: grow_def)

lemma grow_mono: "a \<le> b \<Longrightarrow> grow a \<le> grow b"
  by (auto simp: grow_def intro: min.mono div_le_mono)

lemma grow_pos: "0 < d \<Longrightarrow> 0 < grow d"
  by (simp add: grow_def)

lemma grow_iter_mono: "a \<le> b \<Longrightarrow> (grow ^^ n) a \<le> (grow ^^ n) b"
  by (induction n) (auto intro: grow_mono)

lemma grow_ge_self: "d \<le> 15000 \<Longrightarrow> d \<le> grow d"
  by (simp add: grow_def)

lemma grow_cap: "grow 15000 = 15000"
  by (simp add: grow_def)

lemma grow_iter_cap: "(grow ^^ n) 15000 = 15000"
  by (induction n) (simp_all add: grow_cap)

lemma grow_chain:
  "grow 2 = 3" "grow 3 = 4" "grow 4 = 6" "grow 6 = 9" "grow 9 = 13" "grow 13 = 19" "grow 19 = 28"
  "grow 28 = 42" "grow 42 = 63" "grow 63 = 94" "grow 94 = 141" "grow 141 = 211" "grow 211 = 316"
  "grow 316 = 474" "grow 474 = 711" "grow 711 = 1066" "grow 1066 = 1599" "grow 1599 = 2398"
  "grow 2398 = 3597" "grow 3597 = 5395" "grow 5395 = 8092" "grow 8092 = 12138" "grow 12138 = 15000"
  by (simp_all add: grow_def)

lemma grow_reaches_cap: "(grow ^^ 23) 2 = 15000"
proof -
  have "(23 :: nat) = Suc (Suc (Suc (Suc (Suc (Suc (Suc (Suc (Suc (Suc (Suc (Suc (Suc (Suc (Suc (Suc (Suc (Suc (Suc (Suc (Suc (Suc (Suc 0))))))))))))))))))))))" by simp
  then show ?thesis by (simp only: funpow.simps o_apply id_apply grow_chain)
qed

lemma unat_backoff_iter:
  assumes "0 < unat base" "unat base * 3 < 2 ^ 64"
  shows "unat (backoff_iter base n) = (grow ^^ n) (unat base)"
proof (induction n)
  case 0
  show ?case by (simp add: backoff_iter_def)
next
  case (Suc n)
  have pos: "0 < (grow ^^ n) (unat base)"
    by (induction n) (use assms(1) grow_pos in auto)
  have bound: "(grow ^^ n) (unat base) * 3 < 2 ^ 64"
  proof (cases n)
    case 0
    with assms(2) show ?thesis by simp
  next
    case (Suc k)
    have "(grow ^^ n) (unat base) \<le> 15000" using Suc grow_le by simp
    then show ?thesis by simp
  qed
  have "unat (backoff_next base (backoff_iter base n)) = grow (unat (backoff_iter base n))"
    unfolding grow_def [of "unat (backoff_iter base n)"]
    using pos bound by (intro unat_backoff_grow) (simp_all only: Suc.IH)
  then have "unat (backoff_iter base (Suc n)) = grow (unat (backoff_iter base n))"
    by (simp add: backoff_iter_def)
  then show ?case by (simp add: Suc.IH)
qed

section \<open>Properties\<close>

text \<open>C11: After an exit the daemon decides as the ideal policy does (stop, give up, or restart with
  this delay and these counters), whenever the products and clock differences fit their types.\<close>
theorem decide_restart_refines_policy:
  assumes "facts_in_range f"
  shows "abs_decision (decide_restart f) = ideal_policy f"
proof -
  let ?u = "if exit_is_unstable f then f_unstable_restarts f + 1 else f_unstable_restarts f"
  have lt: "f_unstable_restarts f < f_max_restarts f" and small: "unat (f_prev_restart_delay_ms f) * 3 < 2 ^ 64"
    using assms by (simp_all add: facts_in_range_def)
  have u: "unat ?u = (if exit_is_unstable f then unat (f_unstable_restarts f) + 1 else unat (f_unstable_restarts f))"
    using u32_less_plus_one [OF lt] by simp
  have le: "f_max_restarts f \<le> ?u \<longleftrightarrow> unat (f_max_restarts f) \<le> unat ?u" by (simp add: word_le_nat_alt)
  have base: "0 < f_backoff_base_ms f \<longleftrightarrow> 0 < unat (f_backoff_base_ms f)" by (simp add: word_less_nat_alt)
  have zero: "f_prev_restart_delay_ms f = 0 \<longleftrightarrow> unat (f_prev_restart_delay_ms f) = 0"
    by (simp add: unat_eq_zero)
  have prod: "int (unat (f_min_uptime_ms f)) * int (unat (f_max_restarts f))
      = int (unat (f_min_uptime_ms f) * unat (f_max_restarts f))" by simp
  show ?thesis
    unfolding decide_restart_def ideal_policy_def Let_def
      exit_is_unstable_in_range [OF assms, symmetric] prod
    using u le base by (simp add: unat_backoff_next [OF small] zero)
qed

definition sample_exit :: exit_facts where
  "sample_exit =
     \<lparr> f_status = Online, f_autorestart = True, f_exit_code = Some 1, f_stop_exit_codes = [0],
       f_min_uptime_ms = 1000, f_max_restarts = 3, f_unstable_restarts = 1, f_created_at_ms = 500,
       f_online_since_ms = 900, f_now_ms = 1000, f_restart_delay_ms = 0, f_backoff_base_ms = 100,
       f_prev_restart_delay_ms = 100 \<rparr>"

lemma sample_exit_in_range: "facts_in_range sample_exit"
  by (simp add: facts_in_range_def sample_exit_def)

lemma decide_restart_refines_policy_witness:
  "facts_in_range sample_exit \<and> abs_decision (decide_restart sample_exit) = ideal_policy sample_exit
   \<and> ideal_policy sample_exit = IdRestart 150 2 150"
  using decide_restart_refines_policy [OF sample_exit_in_range] sample_exit_in_range
  by (simp add: ideal_policy_def sample_exit_def exit_is_final_def)

text \<open>C32: A process that keeps failing early is restarted exactly \<open>max_restarts - 1 - u\<close> times from
  \<open>u\<close> unstable restarts on, however the backoff goes; then the daemon gives up.\<close>
theorem failing_process_gives_up:
  assumes "\<And>f. f \<in> set fs \<Longrightarrow> exit_is_unstable f \<and> \<not> exit_is_final f \<and> f_max_restarts f = m"
    and "u < m"
  shows "auto_restarts fs u p = min (length fs) (unat m - 1 - unat u)"
  using assms by (rule auto_restarts_unstable)

lemma failing_process_gives_up_witness: "auto_restarts (replicate 5 sample_exit) 0 0 = 2"
proof -
  have "exit_is_unstable sample_exit \<and> \<not> exit_is_final sample_exit \<and> f_max_restarts sample_exit = 3"
    using exit_is_unstable_in_range [OF sample_exit_in_range] by (simp add: sample_exit_def exit_is_final_def)
  then have "auto_restarts (replicate 5 sample_exit) 0 0 = min (length (replicate 5 sample_exit)) (unat (3 :: u32) - 1 - unat (0 :: u32))"
    by (intro failing_process_gives_up) auto
  then show ?thesis by simp
qed

text \<open>C33: The backoff delays never shrink, stay at most 15 seconds, and have reached 15 seconds after
  23 restarts, for every base delay from 2 ms to 15 s.\<close>
theorem backoff_grows_to_cap:
  assumes "2 \<le> unat base" "unat base \<le> 15000"
  shows "unat (backoff_iter base n) \<le> unat (backoff_iter base (Suc n))
    \<and> unat (backoff_iter base n) \<le> 15000 \<and> backoff_iter base (23 + n) = 15000"
proof -
  have it: "unat (backoff_iter base k) = (grow ^^ k) (unat base)" for k
    using assms by (intro unat_backoff_iter) auto
  have le: "(grow ^^ k) (unat base) \<le> 15000" for k
    using assms grow_le by (cases k) auto
  have "(grow ^^ 23) 2 \<le> (grow ^^ 23) (unat base)" using assms(1) by (rule grow_iter_mono)
  then have "(grow ^^ 23) (unat base) = 15000" using le [of 23] grow_reaches_cap by simp
  then have "(grow ^^ (n + 23)) (unat base) = 15000" by (simp add: funpow_add grow_iter_cap del: funpow.simps)
  then have "(grow ^^ (23 + n)) (unat base) = 15000" by (simp only: add.commute)
  moreover have "unat (15000 :: u64) = 15000" by simp
  ultimately have "unat (backoff_iter base (23 + n)) = unat (15000 :: u64)" by (simp only: it)
  then have "backoff_iter base (23 + n) = 15000" by (simp only: word_unat_eq_iff)
  moreover have "(grow ^^ n) (unat base) \<le> (grow ^^ Suc n) (unat base)"
    using grow_ge_self [OF le] by simp
  ultimately show ?thesis by (simp only: it le simp_thms)
qed

lemma backoff_grows_to_cap_witness: "backoff_iter 100 23 = 15000 \<and> unat (backoff_iter 100 0) \<le> 15000"
  using backoff_grows_to_cap [of 100 0] by simp

text \<open>A backoff base of 1 ms never grows: the rounding of \<open>prev * 3 / 2\<close> keeps it at 1 ms.\<close>
lemma backoff_of_one_stays: "backoff_iter 1 n = 1"
  by (induction n) (simp_all add: backoff_iter_def backoff_next_def backoff_cap_ms_def)

text \<open>When \<open>min_uptime * max_restarts\<close> reaches \<open>2 ^ 63\<close> ms the window turns negative as an \<open>i64\<close>:
  no exit counts as unstable any more and the restart limit is never reached.\<close>
theorem huge_window_disables_limit:
  assumes "2 ^ 63 \<le> unat (f_min_uptime_ms f) * unat (f_max_restarts f)"
    and "0 \<le> sint (f_now_ms f - f_created_at_ms f)" and "f_unstable_restarts f < f_max_restarts f"
  shows "\<not> exit_is_unstable f \<and> decide_restart f \<noteq> RdGiveUp"
proof -
  let ?w = "saturating_mul_u64 (f_min_uptime_ms f) (ucast (f_max_restarts f))"
  have "2 ^ 63 \<le> unat ?w"
    using assms(1) by (simp add: unat_saturating_mul_u64 unat_ucast_u32_u64)
  then have "sint ?w < 0" by (rule sint_negative_i64)
  then have "\<not> exit_is_unstable f"
    using assms(2) by (simp add: exit_is_unstable_def i64_less_def Let_def)
  moreover have "\<not> f_max_restarts f \<le> f_unstable_restarts f" using assms(3) by simp
  ultimately show ?thesis by (auto simp: decide_restart_def Let_def)
qed

lemma huge_window_disables_limit_witness:
  "\<not> exit_is_unstable (sample_exit\<lparr>f_min_uptime_ms := 2 ^ 62\<rparr>)"
  using huge_window_disables_limit [of "sample_exit\<lparr>f_min_uptime_ms := 2 ^ 62\<rparr>"]
  by (simp add: sample_exit_def)

end
