(* ===== verification/Rotate.thy ===== *)
theory Rotate
  imports State "HOL-Library.Option_ord" "HOL-Library.Product_Lexorder"
begin

text \<open>
  Native log rotation of \<open>src/daemon/worker.rs\<close>: \<open>rotated_path\<close> (the single \<open>.old\<close> slot of a
  file), \<open>rotate_logs\<close> and \<open>rotate_daemon_log\<close>.  Files are the entries of \<open>c_files\<close>; whether a rename or
  an open succeeds are the arguments \<open>can_rename\<close> and \<open>can_open\<close>.
\<close>

section \<open>Definitions\<close>

definition rotated_path :: "string \<Rightarrow> string" where
  "rotated_path file =
     path_with_extension file ((case path_extension file of Some e \<Rightarrow> e @ ''.'' | None \<Rightarrow> '''') @ ''old'')"

definition log_targets :: "ctx \<Rightarrow> (string \<times> u64 option) list" where
  "log_targets c =
     concat (map (\<lambda>p. [(p_out_file p, ac_max_log_size (p_config p)), (p_error_file p, ac_max_log_size (p_config p))])
       (filter (\<lambda>p. p_pid p \<noteq> 0 \<and> \<not> ac_disable_logs (p_config p) \<and> \<not> ac_disable_log_files (p_config p))
         (map snd (hm_rows (procs (c_table c))))))"

text \<open>\<open>sort\<close> and \<open>dedup\<close> compare paths by component.\<close>

definition target_key :: "string \<times> u64 option \<Rightarrow> string list \<times> u64 option" where
  "target_key t = (path_components (fst t), snd t)"

fun dedup_by_key :: "('a \<Rightarrow> 'b) \<Rightarrow> 'a list \<Rightarrow> 'a list" where
  "dedup_by_key f [] = []"
| "dedup_by_key f [x] = [x]"
| "dedup_by_key f (x # y # xs) =
     (if f x = f y then dedup_by_key f (x # xs) else x # dedup_by_key f (y # xs))"

definition rotate_file :: "(string \<Rightarrow> string \<Rightarrow> bool) \<Rightarrow> string \<times> u64 option \<Rightarrow> bool \<times> ctx \<Rightarrow> bool \<times> ctx" where
  "rotate_file can_rename t st =
     (case t of (file, limit) \<Rightarrow> case st of (bump, c) \<Rightarrow>
        (case hm_get (c_files c) file of
           None \<Rightarrow> (True, c)
         | Some content \<Rightarrow>
             if (case limit of Some l \<Rightarrow> unat l < length content | None \<Rightarrow> False) then
               (let old = rotated_path file in
                if can_rename file old
                then (True, c\<lparr>c_files := hm_put old content (hm_del file (c_files c))\<rparr>)
                else (bump, c))
             else (bump, c)))"

definition rotate_app_logs :: "(string \<Rightarrow> string \<Rightarrow> bool) \<Rightarrow> ctx \<Rightarrow> ctx" where
  "rotate_app_logs can_rename c =
     (let files = dedup_by_key target_key (sort_key target_key (log_targets c));
          (bump, c') = fold (rotate_file can_rename) files (False, c)
      in if bump then c'\<lparr>c_log_generation := c_log_generation c' + 1\<rparr> else c')"

definition daemon_log_max :: nat where
  "daemon_log_max = 10 * 1024 * 1024"

text \<open>After the rename the new file is created empty and becomes standard output and error.\<close>

definition rotate_daemon_log ::
    "env_vars \<Rightarrow> bool \<Rightarrow> (string \<Rightarrow> string \<Rightarrow> bool) \<Rightarrow> (string \<Rightarrow> bool) \<Rightarrow> ctx \<Rightarrow> ctx" where
  "rotate_daemon_log ev tty can_rename can_open c =
     (let path = daemon_log ev
      in case hm_get (c_files c) path of
           None \<Rightarrow> c
         | Some content \<Rightarrow>
             if \<not> daemon_log_max < length content \<or> tty then c
             else
               (let old = path_with_extension path ''log.old''
                in if \<not> can_rename path old then c
                   else
                     let files = hm_put old content (hm_del path (c_files c))
                     in c\<lparr>c_files := (if can_open path then hm_put path [] files else files)\<rparr>))"

definition rotate_logs ::
    "env_vars \<Rightarrow> bool \<Rightarrow> (string \<Rightarrow> string \<Rightarrow> bool) \<Rightarrow> (string \<Rightarrow> bool) \<Rightarrow> ctx \<Rightarrow> ctx" where
  "rotate_logs ev tty can_rename can_open c =
     rotate_daemon_log ev tty can_rename can_open (rotate_app_logs can_rename c)"

section \<open>The rotation slot\<close>

lemma last_dot_split_Some:
  assumes "last_dot_split n = Some (st, e)"
  shows "n = st @ ''.'' @ e \<and> st \<noteq> []"
proof -
  let ?P = "\<lambda>c. c \<noteq> CHR ''.''"
  from assms obtain c stem where d: "dropWhile ?P (rev n) = c # stem" and ne: "stem \<noteq> []"
    and st: "st = rev stem" and e: "e = rev (takeWhile ?P (rev n))"
    by (auto simp: last_dot_split_def Let_def split: list.splits if_splits)
  have "c = CHR ''.''" using hd_dropWhile [of ?P "rev n"] d by simp
  have "rev n = takeWhile ?P (rev n) @ c # stem" using takeWhile_dropWhile_id [of ?P "rev n"] d by simp
  then have "n = rev stem @ c # rev (takeWhile ?P (rev n))"
    by (metis append.assoc append_Cons append_Nil rev.simps(2) rev_append rev_rev_ident)
  with \<open>c = CHR ''.''\<close> ne st e show ?thesis by simp
qed

lemma trim_tail_rev_id: "c \<noteq> CHR ''/'' \<Longrightarrow> c \<noteq> CHR ''.'' \<Longrightarrow> trim_tail_rev (c # r) = c # r"
  by simp

text \<open>A path in a directory, whose last component is a name that does not end in a dot or slash.\<close>

lemma rotated_path_append:
  assumes "path_file_name f = Some n" "f = d @ n" "n \<noteq> []" "last n \<noteq> CHR ''/''" "last n \<noteq> CHR ''.''"
  shows "rotated_path f = f @ ''.old''"
proof -
  obtain m c where n: "n = m @ [c]" using assms(3) by (cases n rule: rev_cases) auto
  with assms(4,5) have c: "c \<noteq> CHR ''/''" "c \<noteq> CHR ''.''" by auto
  have body: "rev (trim_tail_rev (rev f)) = f"
    using assms(2) n trim_tail_rev_id [OF c, of "rev m @ rev d"] by simp
  show ?thesis
  proof (cases "last_dot_split n")
    case None
    with assms(1) have "path_extension f = None" by (simp add: path_extension_def)
    with None assms(1,2) body show ?thesis
      by (simp add: rotated_path_def path_with_extension_def)
  next
    case (Some p)
    obtain st e where p: "p = (st, e)" by (cases p)
    with Some have ne: "n = st @ ''.'' @ e" using last_dot_split_Some by blast
    from Some p assms(1) have "path_extension f = Some e" by (simp add: path_extension_def)
    with Some p assms(1,2) body ne show ?thesis
      by (simp add: rotated_path_def path_with_extension_def)
  qed
qed

section \<open>Rotation\<close>

lemma set_dedup_by_key: "f ` set (dedup_by_key f xs) = f ` set xs"
  by (induction f xs rule: dedup_by_key.induct) auto

lemma set_dedup_by_key_subset: "set (dedup_by_key f xs) \<subseteq> set xs"
  by (induction f xs rule: dedup_by_key.induct) auto

lemma set_dedup_by_key_inj:
  assumes "inj_on f (set xs)"
  shows "set (dedup_by_key f xs) = set xs"
  by (rule inj_on_image_eq_iff [THEN iffD1, OF assms set_dedup_by_key_subset order_refl set_dedup_by_key])

lemma rotate_file_table [simp]: "c_table (snd (rotate_file cr t st)) = c_table (snd st)"
  by (auto simp: rotate_file_def Let_def split: prod.splits option.splits)

lemma rotate_fold_table: "c_table (snd (fold (rotate_file cr) ts st)) = c_table (snd st)"
  by (induction ts arbitrary: st) simp_all

lemma rotate_file_gen [simp]: "c_log_generation (snd (rotate_file cr t st)) = c_log_generation (snd st)"
  by (auto simp: rotate_file_def Let_def split: prod.splits option.splits)

lemma rotate_fold_gen: "c_log_generation (snd (fold (rotate_file cr) ts st)) = c_log_generation (snd st)"
  by (induction ts arbitrary: st) simp_all

lemma rotate_app_logs_table [simp]: "c_table (rotate_app_logs cr c) = c_table c"
  using rotate_fold_table [of cr _ "(False, c)"] by (auto simp: rotate_app_logs_def Let_def split: prod.split) (metis snd_conv)+

lemma rotate_daemon_log_frame [simp]:
  "c_table (rotate_daemon_log ev tty cr co c) = c_table c"
  "c_log_generation (rotate_daemon_log ev tty cr co c) = c_log_generation c"
  by (simp_all add: rotate_daemon_log_def Let_def split: option.split)

lemma rotate_logs_table [simp]: "c_table (rotate_logs ev tty cr co c) = c_table c"
  by (simp add: rotate_logs_def)

text \<open>The files on a list that are to be moved, given the contents.\<close>

definition on_move :: "(string \<Rightarrow> string \<Rightarrow> bool) \<Rightarrow> (string \<times> u64 option) list \<Rightarrow> (string \<Rightarrow> string option) \<Rightarrow> string \<Rightarrow> bool" where
  "on_move cr ts F f \<longleftrightarrow>
     (\<exists>l content. (f, Some l) \<in> set ts \<and> F f = Some content \<and> unat l < length content \<and> cr f (rotated_path f))"

definition slots_apart :: "string set \<Rightarrow> bool" where
  "slots_apart fs \<longleftrightarrow>
     (\<forall>f \<in> fs. \<forall>g \<in> fs. rotated_path f \<noteq> g \<and> (rotated_path f = rotated_path g \<longrightarrow> f = g))"

lemma slots_apart_mono: "slots_apart fs \<Longrightarrow> gs \<subseteq> fs \<Longrightarrow> slots_apart gs"
  unfolding slots_apart_def by blast

lemma on_move_Cons:
  "on_move cr (t # ts) F f \<longleftrightarrow> (f = fst t \<and> on_move cr [t] F f) \<or> on_move cr ts F f"
  by (cases t) (auto simp: on_move_def)

lemma rotate_file_moves:
  assumes "rotated_path (fst t) \<noteq> fst t"
  shows "hm_get (c_files (snd (rotate_file cr t (b, c)))) =
      (if on_move cr [t] (hm_get (c_files c)) (fst t)
       then (hm_get (c_files c))(fst t := None, rotated_path (fst t) := hm_get (c_files c) (fst t))
       else hm_get (c_files c))"
    and "fst (rotate_file cr t (b, c)) \<longleftrightarrow>
      b \<or> hm_get (c_files c) (fst t) = None \<or> on_move cr [t] (hm_get (c_files c)) (fst t)"
  using assms
  by (cases t; auto simp: rotate_file_def on_move_def Let_def fun_eq_iff split: option.splits)+

lemma on_move_step:
  assumes "slots_apart (fst ` set (t # ts))" "f \<in> fst ` set ts" "f \<noteq> fst t"
  shows "on_move cr ts (F(fst t := x, rotated_path (fst t) := y)) f = on_move cr ts F f"
  using assms by (auto simp: on_move_def slots_apart_def)

lemma on_move_target: "on_move cr ts F f \<Longrightarrow> f \<in> fst ` set ts"
  by (force simp: on_move_def)

definition moved_to ::
    "(string \<Rightarrow> string \<Rightarrow> bool) \<Rightarrow> (string \<times> u64 option) list \<Rightarrow> (string \<Rightarrow> string option) \<Rightarrow> (string \<Rightarrow> string option) \<Rightarrow> bool" where
  "moved_to cr ts F G \<longleftrightarrow>
     (\<forall>f. (on_move cr ts F f \<longrightarrow> G f = None \<and> G (rotated_path f) = F f)
        \<and> (\<not> on_move cr ts F f \<longrightarrow> (\<forall>g. on_move cr ts F g \<longrightarrow> f \<noteq> rotated_path g) \<longrightarrow> G f = F f))"

lemma moved_toD:
  assumes "moved_to cr ts F G"
  shows "on_move cr ts F f \<Longrightarrow> G f = None" "on_move cr ts F f \<Longrightarrow> G (rotated_path f) = F f"
    and "\<not> on_move cr ts F f \<Longrightarrow> (\<And>g. on_move cr ts F g \<Longrightarrow> f \<noteq> rotated_path g) \<Longrightarrow> G f = F f"
  using assms unfolding moved_to_def by blast+

lemma moved_to_Cons:
  assumes apart: "slots_apart (fst ` set (t # ts))" and mv: "on_move cr [t] F (fst t)"
    and rest: "moved_to cr ts (F(fst t := None, rotated_path (fst t) := F (fst t))) G"
  shows "moved_to cr (t # ts) F G"
proof -
  let ?g = "fst t" and ?F1 = "F(fst t := None, rotated_path (fst t) := F (fst t))"
  have self: "rotated_path ?g \<noteq> ?g" using apart by (auto simp: slots_apart_def)
  have slot: "rotated_path h \<noteq> ?g" "rotated_path h = rotated_path ?g \<Longrightarrow> h = ?g" "h \<noteq> rotated_path ?g" if "on_move cr ts F' h" for h F'
    using apart on_move_target [OF that] by (auto simp: slots_apart_def)
  have first: "\<not> on_move cr ts ?F1 ?g" using self by (simp add: on_move_def)
  have others: "on_move cr ts ?F1 f \<longleftrightarrow> on_move cr ts F f" if "f \<noteq> ?g" for f
    using that on_move_step [OF apart _ that] on_move_target by (metis (no_types, lifting))
  have all: "on_move cr (t # ts) F f \<longleftrightarrow> f = ?g \<or> on_move cr ts ?F1 f" for f
    using on_move_Cons [of cr t ts F f] mv others first by (cases "f = ?g") auto
  note moved = moved_toD [OF rest]
  have "\<And>h. on_move cr ts ?F1 h \<Longrightarrow> ?g \<noteq> rotated_path h" using slot(1) by metis
  from moved(3) [OF first this] have g: "G ?g = None" using self by simp
  have "\<not> on_move cr ts ?F1 (rotated_path ?g)" using slot(3) by blast
  moreover have "rotated_path ?g \<noteq> rotated_path h" if "on_move cr ts ?F1 h" for h
    using slot(2) [OF that] that first by metis
  ultimately have g_slot: "G (rotated_path ?g) = ?F1 (rotated_path ?g)" by (rule moved(3))
  show ?thesis
    unfolding moved_to_def all
  proof (intro allI conjI impI)
    fix f assume f: "f = ?g \<or> on_move cr ts ?F1 f"
    show "G f = None" using f g moved(1) by blast
    show "G (rotated_path f) = F f"
    proof (cases "f = ?g")
      case True
      with g_slot show ?thesis by simp
    next
      case False
      with f have mf: "on_move cr ts ?F1 f" by blast
      from moved(2) [OF mf] slot(3) [OF mf] False show ?thesis by simp
    qed
  next
    fix f assume f: "\<not> (f = ?g \<or> on_move cr ts ?F1 f)" and slots: "\<forall>h. h = ?g \<or> on_move cr ts ?F1 h \<longrightarrow> f \<noteq> rotated_path h"
    have "G f = ?F1 f" using f slots by (intro moved(3)) blast+
    with f slots show "G f = F f" by simp
  qed
qed

lemma moved_to_skip:
  assumes "\<not> on_move cr [t] F (fst t)"
  shows "on_move cr (t # ts) F = on_move cr ts F" "moved_to cr (t # ts) F G = moved_to cr ts F G"
proof -
  show eq: "on_move cr (t # ts) F = on_move cr ts F"
    using assms on_move_Cons [of cr t ts F] by (intro ext) metis
  show "moved_to cr (t # ts) F G = moved_to cr ts F G" unfolding moved_to_def eq ..
qed

lemma rotate_fold_moves:
  assumes "slots_apart (fst ` set ts)"
  shows "moved_to cr ts (hm_get (c_files c)) (hm_get (c_files (snd (fold (rotate_file cr) ts (b, c)))))
    \<and> (fst (fold (rotate_file cr) ts (b, c)) \<longleftrightarrow>
        b \<or> (\<exists>t \<in> set ts. hm_get (c_files c) (fst t) = None \<or> on_move cr ts (hm_get (c_files c)) (fst t)))"
  using assms
proof (induction ts arbitrary: b c)
  case Nil
  show ?case by (simp add: moved_to_def on_move_def)
next
  case (Cons t ts)
  let ?F = "hm_get (c_files c)"
  obtain b1 c1 where st: "rotate_file cr t (b, c) = (b1, c1)" by (cases "rotate_file cr t (b, c)")
  have self: "rotated_path (fst t) \<noteq> fst t" using Cons.prems by (auto simp: slots_apart_def)
  have apart: "slots_apart (fst ` set ts)" using Cons.prems by (rule slots_apart_mono) auto
  note IH = Cons.IH [OF apart, of c1 b1] and one = rotate_file_moves [OF self, of cr b c, unfolded st fst_conv snd_conv]
  show ?case
  proof (cases "on_move cr [t] ?F (fst t)")
    case True
    have F1: "hm_get (c_files c1) = ?F(fst t := None, rotated_path (fst t) := ?F (fst t))" and b1: b1
      using one True by (simp_all only: if_True simp_thms)
    from IH have "moved_to cr ts (hm_get (c_files c1)) (hm_get (c_files (snd (fold (rotate_file cr) ts (b1, c1)))))"
      and "fst (fold (rotate_file cr) ts (b1, c1))" using b1 by blast+
    moreover have "on_move cr (t # ts) ?F (fst t)" using True on_move_Cons by metis
    ultimately show ?thesis using moved_to_Cons [OF Cons.prems True] unfolding F1 fold_simps st by (metis list.set_intros(1))
  next
    case False
    have at_ts: "\<exists>t' \<in> set ts. on_move cr ts ?F (fst t')" if "on_move cr ts ?F (fst t)"
      using that on_move_target [OF that] by (metis imageE)
    have F1: "hm_get (c_files c1) = ?F" and b1: "b1 \<longleftrightarrow> b \<or> ?F (fst t) = None" using one False by simp_all
    show ?thesis using IH at_ts unfolding moved_to_skip [OF False] fold_simps st F1 b1 by auto
  qed
qed

section \<open>Properties\<close>

lemma daemon_log_slot: "path_with_extension (daemon_log ev) ''log.old'' \<noteq> daemon_log ev"
proof -
  have rel: "\<not> starts_with ''pmr.log'' ''/''" by (simp add: starts_with_def)
  obtain a where a: "daemon_log ev = a @ ''pmr.log''"
    using path_join_snoc [OF rel, of "home ev"] unfolding daemon_log_def by blast
  have nm: "path_file_name (daemon_log ev) = Some ''pmr.log''"
    unfolding daemon_log_def by (rule path_file_name_join) auto
  have "last_dot_split ''pmr.log'' = Some (''pmr'', ''log'')" by (simp add: last_dot_split_def Let_def)
  with nm show ?thesis by (simp add: path_with_extension_def a Let_def)
qed

text \<open>A file the pump of a running process writes to, with the limit its configuration sets.\<close>

definition writes_log :: "ctx \<Rightarrow> string \<Rightarrow> u64 option \<Rightarrow> bool" where
  "writes_log c f limit \<longleftrightarrow>
     (\<exists>i p. row_of c i = Some p \<and> p_pid p \<noteq> 0 \<and> \<not> ac_disable_logs (p_config p) \<and> \<not> ac_disable_log_files (p_config p)
        \<and> (f = p_out_file p \<or> f = p_error_file p) \<and> limit = ac_max_log_size (p_config p))"

text \<open>It has outgrown a limit, and the rename to its slot works.\<close>

definition outgrown :: "(string \<Rightarrow> string \<Rightarrow> bool) \<Rightarrow> ctx \<Rightarrow> string \<Rightarrow> bool" where
  "outgrown cr c f \<longleftrightarrow>
     (\<exists>l content. writes_log c f (Some l) \<and> hm_get (c_files c) f = Some content \<and> unat l < length content
        \<and> cr f (rotated_path f))"

text \<open>The log files of the table are not each other's slots nor spellings of one path, and none of them or their slots
  is a file of the daemon's own log.\<close>

definition log_files :: "ctx \<Rightarrow> string list" where
  "log_files c = concat (map (\<lambda>p. [p_out_file p, p_error_file p]) (map snd (hm_rows (procs (c_table c)))))"

definition daemon_logs :: "env_vars \<Rightarrow> string list" where
  "daemon_logs ev = [daemon_log ev, path_with_extension (daemon_log ev) ''log.old'']"

definition logs_apart :: "env_vars \<Rightarrow> ctx \<Rightarrow> bool" where
  "logs_apart ev c =
     list_all (\<lambda>f. f \<notin> set (daemon_logs ev) \<and> rotated_path f \<notin> set (daemon_logs ev)
       \<and> list_all (\<lambda>g. rotated_path f \<noteq> g \<and> (rotated_path f = rotated_path g \<longrightarrow> f = g)
            \<and> (path_components f = path_components g \<longrightarrow> f = g)) (log_files c)) (log_files c)"

lemma logs_apartD:
  assumes "logs_apart ev c" "f \<in> set (log_files c)"
  shows "f \<notin> set (daemon_logs ev)" "rotated_path f \<notin> set (daemon_logs ev)"
    and "g \<in> set (log_files c) \<Longrightarrow> rotated_path f \<noteq> g \<and> (rotated_path f = rotated_path g \<longrightarrow> f = g)
            \<and> (path_components f = path_components g \<longrightarrow> f = g)"
  using assms unfolding logs_apart_def list_all_iff by blast+

lemma log_targets_files: "fst ` set (log_targets c) \<subseteq> set (log_files c)"
  by (auto simp: log_targets_def log_files_def)

lemma writes_log_iff:
  assumes "wf_table (c_table c)"
  shows "writes_log c f limit \<longleftrightarrow> (f, limit) \<in> set (log_targets c)"
proof -
  have "hm_good (procs (c_table c))" using assms by (simp add: wf_table_def)
  note rows = hm.values_iff [OF this]
  have "(f, limit) \<in> set (log_targets c) \<longleftrightarrow>
    (\<exists>p \<in> set (map snd (hm_rows (procs (c_table c)))). p_pid p \<noteq> 0 \<and> \<not> ac_disable_logs (p_config p)
       \<and> \<not> ac_disable_log_files (p_config p) \<and> (f = p_out_file p \<or> f = p_error_file p) \<and> limit = ac_max_log_size (p_config p))"
    by (fastforce simp: log_targets_def)
  then show ?thesis unfolding writes_log_def Bex_def rows by blast
qed

lemma rotate_app_logs_moves:
  assumes wf: "wf_table (c_table c)" and apart: "logs_apart ev c"
  shows "outgrown cr c f \<Longrightarrow> hm_get (c_files (rotate_app_logs cr c)) f = None"
    and "outgrown cr c f \<Longrightarrow> hm_get (c_files (rotate_app_logs cr c)) (rotated_path f) = hm_get (c_files c) f"
    and "\<not> outgrown cr c f \<Longrightarrow> (\<And>g. outgrown cr c g \<Longrightarrow> f \<noteq> rotated_path g) \<Longrightarrow>
      hm_get (c_files (rotate_app_logs cr c)) f = hm_get (c_files c) f"
    and "c_log_generation (rotate_app_logs cr c) = c_log_generation c
      + (if \<exists>f limit. writes_log c f limit \<and> (hm_get (c_files c) f = None \<or> outgrown cr c f) then 1 else 0)"
proof -
  let ?ts = "dedup_by_key target_key (sort_key target_key (log_targets c))"
  let ?r = "fold (rotate_file cr) ?ts (False, c)"
  have rl: "rotate_app_logs cr c = (if fst ?r then (snd ?r)\<lparr>c_log_generation := c_log_generation (snd ?r) + 1\<rparr> else snd ?r)"
    by (simp add: rotate_app_logs_def Let_def split: prod.split)
  have inj: "inj_on target_key (set (sort_key target_key (log_targets c)))"
  proof (rule inj_onI)
    fix x y assume "x \<in> set (sort_key target_key (log_targets c))" "y \<in> set (sort_key target_key (log_targets c))"
      and key: "target_key x = target_key y"
    then have "fst x \<in> set (log_files c)" "fst y \<in> set (log_files c)" using log_targets_files by auto
    with key logs_apartD(3) [OF apart] show "x = y" by (auto simp: target_key_def prod_eq_iff)
  qed
  then have set: "set ?ts = set (log_targets c)" by (simp add: set_dedup_by_key_inj)
  have move: "on_move cr ?ts (hm_get (c_files c)) f \<longleftrightarrow> outgrown cr c f" for f
    by (simp add: on_move_def outgrown_def set writes_log_iff [OF wf])
  have "slots_apart (set (log_files c))"
    using logs_apartD(3) [OF apart] unfolding slots_apart_def by blast
  then have "slots_apart (fst ` set ?ts)" unfolding set using log_targets_files by (rule slots_apart_mono)
  note fold = rotate_fold_moves [OF this, of cr c False, unfolded move]
  note moved = fold [THEN conjunct1, THEN moved_toD(1)] fold [THEN conjunct1, THEN moved_toD(2)] fold [THEN conjunct1, THEN moved_toD(3)]
  have files: "c_files (rotate_app_logs cr c) = c_files (snd ?r)" by (simp add: rl)
  show "outgrown cr c f \<Longrightarrow> hm_get (c_files (rotate_app_logs cr c)) f = None"
    and "outgrown cr c f \<Longrightarrow> hm_get (c_files (rotate_app_logs cr c)) (rotated_path f) = hm_get (c_files c) f"
    and "\<not> outgrown cr c f \<Longrightarrow> (\<And>g. outgrown cr c g \<Longrightarrow> f \<noteq> rotated_path g) \<Longrightarrow>
      hm_get (c_files (rotate_app_logs cr c)) f = hm_get (c_files c) f"
    unfolding files using moved [unfolded move] by simp_all
  have "fst ?r \<longleftrightarrow> (\<exists>f limit. writes_log c f limit \<and> (hm_get (c_files c) f = None \<or> outgrown cr c f))"
    unfolding fold [THEN conjunct2] set writes_log_iff [OF wf] Bex_def split_paired_Ex fst_conv by blast
  then show "c_log_generation (rotate_app_logs cr c) = c_log_generation c
      + (if \<exists>f limit. writes_log c f limit \<and> (hm_get (c_files c) f = None \<or> outgrown cr c f) then 1 else 0)"
    by (simp add: rl rotate_fold_gen)
qed

text \<open>C39: Rotation moves exactly the log files that have outgrown their limit: each such file of a running process that
  logs to files ends up under its \<open>.old\<close> name with its content, every other file keeps its content, and the
  generation goes up by one, so that every writer reopens its file, exactly when a file was moved or
  one was missing.  The daemon's own log is moved to its slot when it exceeds 10 MB and is not a terminal, and
  starts empty.  This holds when no log file of the table is another's slot or a file of the daemon's log.\<close>
theorem rotation_moves_large_logs:
  assumes "wf_table (c_table c)" "logs_apart ev c"
  shows "let files = hm_get (c_files c); c' = rotate_logs ev tty cr co c; files' = hm_get (c_files c');
       own = daemon_log ev; old = path_with_extension own ''log.old'';
       own_moves = (\<not> tty \<and> cr own old \<and> (case files own of Some content \<Rightarrow> 10485760 < length content | None \<Rightarrow> False))
     in c_table c' = c_table c
      \<and> (outgrown cr c f \<longrightarrow> files' f = None \<and> files' (rotated_path f) = files f)
      \<and> (\<not> outgrown cr c f \<longrightarrow> (\<forall>g. outgrown cr c g \<longrightarrow> f \<noteq> rotated_path g) \<longrightarrow> f \<notin> {own, old} \<longrightarrow> files' f = files f)
      \<and> c_log_generation c' = c_log_generation c
          + (if \<exists>g limit. writes_log c g limit \<and> (files g = None \<or> outgrown cr c g) then 1 else 0)
      \<and> (if own_moves then files' old = files own \<and> files' own = (if co own then Some [] else None)
         else files' own = files own \<and> files' old = files old)"
proof -
  let ?c1 = "rotate_app_logs cr c" and ?own = "daemon_log ev" and ?old = "path_with_extension (daemon_log ev) ''log.old''"
  note app = rotate_app_logs_moves [OF assms]
  have log: "g \<in> set (log_files c)" if "outgrown cr c g" for g
    using that writes_log_iff [OF assms(1)] log_targets_files by (fastforce simp: outgrown_def)
  have mine: "g \<noteq> ?own" "g \<noteq> ?old" "rotated_path g \<noteq> ?own" "rotated_path g \<noteq> ?old" if "outgrown cr c g" for g
    using logs_apartD(1,2) [OF assms(2) log [OF that]] by (auto simp: daemon_logs_def)
  have own: "hm_get (c_files ?c1) ?own = hm_get (c_files c) ?own" "hm_get (c_files ?c1) ?old = hm_get (c_files c) ?old"
    using app(3) mine by metis+
  have ne: "?old \<noteq> ?own" by (rule daemon_log_slot)
  have dl: "hm_get (c_files (rotate_daemon_log ev tty cr co c2)) g =
      (if \<not> tty \<and> cr ?own ?old \<and> (case hm_get (c_files c2) ?own of Some content \<Rightarrow> 10485760 < length content | None \<Rightarrow> False)
       then if g = ?old then hm_get (c_files c2) ?own else if g = ?own then (if co ?own then Some [] else None) else hm_get (c_files c2) g
       else hm_get (c_files c2) g)" for g c2
    using ne by (auto simp: rotate_daemon_log_def daemon_log_max_def Let_def split: option.split)
  show ?thesis
    unfolding Let_def rotate_logs_def rotate_daemon_log_frame rotate_app_logs_table dl own app(4)
    using ne app(1,2,3) mine by auto
qed

definition sample_log_ctx :: ctx where
  "sample_log_ctx =
     \<lparr> c_table = \<lparr>procs = [(0, (proc_new (\<lambda>_. None) 0 0 0
           (app_with_max_log_size ((app_new ''a.js'')\<lparr>ac_out_file := Some ''/l/o.log'', ac_error_file := Some ''/l/e.log''\<rparr>) 2))
           \<lparr>p_pid := 7\<rparr>)], next_id = 1\<rparr>,
       c_bus = [], c_log_generation = 0, c_shutting_down = False, c_shutdown_sent = False, c_watchers = [],
       c_last_sample_ms = 0, c_prev_sample_pids = [],
       c_files = [(''/l/o.log'', ''abc''), (''/l/e.log'', ''a''), (''/x'', ''long text'')], c_aborted = [] \<rparr>"

text \<open>\<open>o.log\<close> is over its limit of 2 bytes, \<open>e.log\<close> is not, and \<open>x\<close> is nobody's log.\<close>

lemma rotation_moves_large_logs_witness:
  "let c' = rotate_logs (\<lambda>_. None) False (\<lambda>_ _. True) (\<lambda>_. True) sample_log_ctx in
    hm_get (c_files c') ''/l/o.log'' = None \<and> hm_get (c_files c') ''/l/o.log.old'' = Some ''abc''
    \<and> hm_get (c_files c') ''/l/e.log'' = Some ''a'' \<and> c_log_generation c' = 1"
proof -
  have wf: "wf_table (c_table sample_log_ctx)" by (auto simp: wf_table_def sample_log_ctx_def hm_good_def hm_get_def)
  have apart: "logs_apart (\<lambda>_. None) sample_log_ctx" by code_simp
  have targets: "log_targets sample_log_ctx = [(''/l/o.log'', Some 2), (''/l/e.log'', Some 2)]" by code_simp
  have slot: "rotated_path ''/l/o.log'' = ''/l/o.log.old''" "rotated_path ''/l/e.log'' = ''/l/e.log.old''" by code_simp+
  have files: "hm_get (c_files sample_log_ctx) ''/l/o.log'' = Some ''abc''" "hm_get (c_files sample_log_ctx) ''/l/e.log'' = Some ''a''"
    by code_simp+
  have grown: "outgrown (\<lambda>_ _. True) sample_log_ctx f \<longleftrightarrow> f = ''/l/o.log''" for f
    unfolding outgrown_def writes_log_iff [OF wf] targets using files by auto
  have e: "''/l/e.log'' \<notin> set (daemon_logs (\<lambda>_. None))" by code_simp
  note at = rotation_moves_large_logs [OF wf apart, of False "\<lambda>_ _. True" "\<lambda>_. True", unfolded Let_def]
  have gen: "c_log_generation sample_log_ctx = 0" by (simp add: sample_log_ctx_def)
  have "\<exists>g limit. writes_log sample_log_ctx g limit \<and> (hm_get (c_files sample_log_ctx) g = None \<or> outgrown (\<lambda>_ _. True) sample_log_ctx g)"
    unfolding writes_log_iff [OF wf] targets grown by auto
  with at [of "''/l/o.log''"] gen
  have "c_log_generation (rotate_logs (\<lambda>_. None) False (\<lambda>_ _. True) (\<lambda>_. True) sample_log_ctx) = 1" by simp
  with at [of "''/l/o.log''"] at [of "''/l/e.log''"] show ?thesis
    using e by (simp add: grown slot files daemon_logs_def Let_def)
qed

end
