(* ===== verification/Tasks.thy ===== *)
theory Tasks
  imports Restart Rotate
begin

text \<open>
  The concurrent part of the daemon as a state: supervisor tasks, running operations, their
  command channels and one-shot acknowledgements.  Every task is a program counter; a step of
  a task is one critical section of the source (one table or watcher lock, one channel
  operation, one completed wait) together with the file and bus effects that follow it up to
  the next one.  Between two steps any other task may run, as on the multi-threaded runtime.
\<close>

section \<open>The host\<close>

text \<open>What the daemon asks of its surroundings and this development does not model.\<close>

record host =
  h_env :: env_vars
  h_is_file :: "string \<Rightarrow> bool"
  h_cron_ok :: "string \<Rightarrow> bool"
  h_user :: "string \<Rightarrow> (unit, (u32 \<times> u32) option) result"
  h_group :: "string \<Rightarrow> (unit, u32 option) result"
  h_cwd :: "string option"
  h_watch_ok :: "string \<Rightarrow> bool"

section \<open>Channels\<close>

text \<open>A command carries the number of the one-shot channel that acknowledges it.\<close>

datatype sup_cmd = CmdStop nat | CmdRestart nat | CmdDelete nat

fun cmd_ack :: "sup_cmd \<Rightarrow> nat" where
  "cmd_ack (CmdStop a) = a"
| "cmd_ack (CmdRestart a) = a"
| "cmd_ack (CmdDelete a) = a"

datatype ack = AkPending | AkOk | AkErr err | AkDropped

section \<open>Supervisor tasks\<close>

text \<open>What \<open>run\<close> snapshots from its row at the top of a lifecycle.\<close>

record loc =
  l_config :: app_config
  l_name :: string
  l_env :: "(string, string) bmap"
  l_out :: string
  l_err :: string
  l_pidf :: string

datatype sup_pc =
    U_top
  | U_spawn loc
  | U_spawn_failed loc err
  | U_spawn_ack err
  | U_online loc
  | U_first_ack loc
  | U_select loc
  | U_kill_mark loc sup_cmd
  | U_kill_signal loc sup_cmd
  | U_kill_wait loc sup_cmd nat
  | U_killed loc sup_cmd
  | U_restart_ack nat
  | U_unwatch loc nat
  | U_clear "nat option"
  | U_ack nat
  | U_exit loc "i32 option"
  | U_decide loc "i32 option" exit_facts
  | U_stop_dead loc "i32 option"
  | U_give_up loc
  | U_restart loc "i32 option" u64 u32 u64
  | U_delay loc "i32 option"
  | U_delay_cmd loc "i32 option" sup_cmd

text \<open>The child a supervisor owns: \<open>ch_exit\<close> is set once the process has ended and holds the exit
  code, if it has one.  Reaping it removes the child from the task.\<close>

record child =
  ch_pid :: u32
  ch_exit :: "i32 option option"

record sup =
  u_pm :: u32
  u_pc :: sup_pc
  u_queue :: "sup_cmd list"
  u_first :: "nat option"
  u_child :: "child option"

section \<open>Operations\<close>

text \<open>What an operation does once a launch it made has finished.\<close>

datatype launch_cont =
    KReturn
  | KStart app_config "(u32 \<times> u32) option" nat "u32 list" u32   \<comment> \<open>back into \<open>start_app\<close>'s loop\<close>

datatype call_pc =
    ST_watch                     \<comment> \<open>\<open>stop_one\<close>\<close>
  | ST_lock
  | ST_send nat
  | ST_wait nat nat
  | ST_norm nat
  | RS_lock                      \<comment> \<open>\<open>restart_one\<close>\<close>
  | RS_mark nat
  | RS_send nat
  | RS_wait nat nat
  | RS_reset
  | DL_lock                      \<comment> \<open>\<open>delete_one\<close>\<close>
  | DL_send nat string
  | DL_wait nat nat string
  | DL_remove string
  | DL_unwatch string
  | LN_shut launch_cont          \<comment> \<open>\<open>launch\<close>\<close>
  | LN_check launch_cont
  | LN_spawn launch_cont
  | LN_wait nat launch_cont
  | LN_watch launch_cont
  | LN_arm launch_cont
  | SA_begin app_config "(u32 \<times> u32) option"                    \<comment> \<open>\<open>start_app\<close>\<close>
  | SA_clash app_config "(u32 \<times> u32) option"
  | SA_row app_config "(u32 \<times> u32) option" nat "u32 list"
  | SA_register app_config "(u32 \<times> u32) option" nat "u32 list" u32
  | SA_publish app_config "(u32 \<times> u32) option" nat "u32 list" u32
  | C_done "u32 list res"

record call =
  k_pm :: u32
  k_pc :: call_pc

section \<open>The system\<close>

record signal_sent =
  sg_pid :: u32
  sg_signal :: string
  sg_tree :: bool

record sys =
  y_ctx :: ctx
  y_now :: i64
  y_sups :: "(nat, sup) hmap"
  y_calls :: "(nat, call) hmap"
  y_acks :: "(nat, ack) hmap"
  y_next :: nat
  y_signals :: "signal_sent list"

definition ctx_default :: ctx where
  "ctx_default =
     \<lparr> c_table = table_default, c_bus = [], c_log_generation = 0, c_shutting_down = False,
       c_shutdown_sent = False, c_watchers = [], c_last_sample_ms = 0, c_prev_sample_pids = [],
       c_files = [], c_aborted = [] \<rparr>"

definition sys_init :: sys where
  "sys_init =
     \<lparr> y_ctx = ctx_default, y_now = 0, y_sups = [], y_calls = [], y_acks = [], y_next = 0,
       y_signals = [] \<rparr>"

abbreviation row :: "sys \<Rightarrow> u32 \<Rightarrow> proc option" where
  "row s i \<equiv> hm_get (procs (c_table (y_ctx s))) i"

abbreviation sup_of :: "sys \<Rightarrow> nat \<Rightarrow> sup option" where
  "sup_of s t \<equiv> hm_get (y_sups s) t"

abbreviation call_of :: "sys \<Rightarrow> nat \<Rightarrow> call option" where
  "call_of s k \<equiv> hm_get (y_calls s) k"

abbreviation ack_of :: "sys \<Rightarrow> nat \<Rightarrow> ack option" where
  "ack_of s a \<equiv> hm_get (y_acks s) a"

definition on_ctx :: "(ctx \<Rightarrow> ctx) \<Rightarrow> sys \<Rightarrow> sys" where
  "on_ctx f s = s\<lparr>y_ctx := f (y_ctx s)\<rparr>"

definition set_sup :: "nat \<Rightarrow> sup \<Rightarrow> sys \<Rightarrow> sys" where
  "set_sup t u s = s\<lparr>y_sups := hm_put t u (y_sups s)\<rparr>"

definition goto :: "nat \<Rightarrow> sup \<Rightarrow> sup_pc \<Rightarrow> sys \<Rightarrow> sys" where
  "goto t u pc s = set_sup t (u\<lparr>u_pc := pc\<rparr>) s"

definition set_call :: "nat \<Rightarrow> call \<Rightarrow> sys \<Rightarrow> sys" where
  "set_call k c s = s\<lparr>y_calls := hm_put k c (y_calls s)\<rparr>"

definition call_goto :: "nat \<Rightarrow> call \<Rightarrow> call_pc \<Rightarrow> sys \<Rightarrow> sys" where
  "call_goto k c pc s = set_call k (c\<lparr>k_pc := pc\<rparr>) s"

text \<open>Answering a one-shot channel; a channel that was answered or dropped keeps its state.\<close>

definition set_ack :: "nat \<Rightarrow> ack \<Rightarrow> sys \<Rightarrow> sys" where
  "set_ack a v s =
     (if hm_get (y_acks s) a = Some AkPending then s\<lparr>y_acks := hm_put a v (y_acks s)\<rparr> else s)"

definition set_ack_opt :: "nat option \<Rightarrow> ack \<Rightarrow> sys \<Rightarrow> sys" where
  "set_ack_opt o' v s = (case o' of Some a \<Rightarrow> set_ack a v s | None \<Rightarrow> s)"

definition new_ack :: "sys \<Rightarrow> nat \<times> sys" where
  "new_ack s = (y_next s, s\<lparr>y_acks := hm_put (y_next s) AkPending (y_acks s), y_next := Suc (y_next s)\<rparr>)"

text \<open>The command acknowledgements a task still owns outside its queue.\<close>

fun pc_acks :: "sup_pc \<Rightarrow> nat list" where
  "pc_acks (U_kill_mark l c) = [cmd_ack c]"
| "pc_acks (U_kill_signal l c) = [cmd_ack c]"
| "pc_acks (U_kill_wait l c n) = [cmd_ack c]"
| "pc_acks (U_killed l c) = [cmd_ack c]"
| "pc_acks (U_restart_ack a) = [a]"
| "pc_acks (U_unwatch l a) = [a]"
| "pc_acks (U_clear (Some a)) = [a]"
| "pc_acks (U_ack a) = [a]"
| "pc_acks (U_delay_cmd l e c) = [cmd_ack c]"
| "pc_acks _ = []"

definition sup_acks :: "sup \<Rightarrow> nat list" where
  "sup_acks u = map cmd_ack (u_queue u) @ pc_acks (u_pc u) @ (case u_first u of Some a \<Rightarrow> [a] | None \<Rightarrow> [])"

text \<open>
  A supervisor returns: its receiver and the acknowledgements it still owns are dropped, and a
  child that is still running is killed (\<open>kill_on_drop\<close>).
\<close>

definition finish :: "nat \<Rightarrow> sup \<Rightarrow> sys \<Rightarrow> sys" where
  "finish t u s =
     (let s1 = fold (\<lambda>a. set_ack a AkDropped) (sup_acks u) s;
          s2 = (case u_child u of
                  Some ch \<Rightarrow> if ch_exit ch = None
                     then s1\<lparr>y_signals := y_signals s1 @ [\<lparr>sg_pid = ch_pid ch, sg_signal = ''SIGKILL'', sg_tree = False\<rparr>]\<rparr>
                     else s1
                | None \<Rightarrow> s1)
      in s2\<lparr>y_sups := hm_del t (y_sups s2)\<rparr>)"

text \<open>Operations that hold a clone of a supervisor's sender.\<close>

fun pc_holds :: "call_pc \<Rightarrow> nat option" where
  "pc_holds (ST_send c) = Some c"
| "pc_holds (ST_wait c a) = Some c"
| "pc_holds (ST_norm c) = Some c"
| "pc_holds (RS_mark c) = Some c"
| "pc_holds (RS_send c) = Some c"
| "pc_holds (RS_wait c a) = Some c"
| "pc_holds (DL_send c n) = Some c"
| "pc_holds (DL_wait c a n) = Some c"
| "pc_holds _ = None"

text \<open>\<open>recv()\<close> yields \<open>None\<close> when the queue is empty and no sender is left.\<close>

definition channel_open :: "nat \<Rightarrow> sys \<Rightarrow> bool" where
  "channel_open t s =
     (list_ex (\<lambda>(i, p). p_cmd_tx p = Some t) (hm_rows (procs (c_table (y_ctx s))))
      \<or> list_ex (\<lambda>(k, c). pc_holds (k_pc c) = Some t) (hm_rows (y_calls s)))"

text \<open>The channel holds at most 8 commands; \<open>send\<close> waits while it is full.\<close>

definition channel_capacity :: nat where
  "channel_capacity = 8"

section \<open>Shared row updates of the supervisor\<close>

definition set_dead :: "u32 \<Rightarrow> status \<Rightarrow> i32 option \<Rightarrow> ctx \<Rightarrow> ctx" where
  "set_dead pm st code c =
     with_row pm (\<lambda>p. (p\<lparr>p_status := st, p_pid := 0, p_monit := monit_default,
        p_exit_code := (if code \<noteq> None then code else p_exit_code p)\<rparr>)) c"

definition clear_cmd_tx :: "u32 \<Rightarrow> ctx \<Rightarrow> ctx" where
  "clear_cmd_tx pm c = with_row pm (\<lambda>p. p\<lparr>p_cmd_tx := None\<rparr>) c"

definition remove_file :: "string \<Rightarrow> ctx \<Rightarrow> ctx" where
  "remove_file f c = c\<lparr>c_files := hm_del f (c_files c)\<rparr>"

definition write_file :: "string \<Rightarrow> string \<Rightarrow> ctx \<Rightarrow> ctx" where
  "write_file f content c = c\<lparr>c_files := hm_put f content (c_files c)\<rparr>"

text \<open>
  \<open>remove_proc\<close>, first section: the row goes, its background tasks are aborted, and its log
  files and their rotation slots are deleted unless another row still uses them.
\<close>

definition log_files_of :: "u32 \<Rightarrow> ctx \<Rightarrow> string list" where
  "log_files_of pm c =
     (case row_of c pm of
        None \<Rightarrow> []
      | Some p \<Rightarrow>
          filter (\<lambda>f. \<not> list_ex (\<lambda>(i, q). p_out_file q = f \<or> p_error_file q = f)
                     (hm_rows (hm_del pm (procs (c_table c)))))
            [p_out_file p, p_error_file p])"

definition remove_row :: "u32 \<Rightarrow> ctx \<Rightarrow> ctx" where
  "remove_row pm c =
     (case row_of c pm of
        None \<Rightarrow> c
      | Some p \<Rightarrow>
          let files = log_files_of pm c;
              c1 = (del_row pm c)\<lparr>c_aborted := c_aborted c @ snd (abort_tasks p)\<rparr>
          in fold (\<lambda>f. remove_file f \<circ> remove_file (rotated_path f)) files c1)"

text \<open>Second section: the watcher goes and the event is published.\<close>

definition remove_watch :: "i64 \<Rightarrow> u32 \<Rightarrow> string \<Rightarrow> ctx \<Rightarrow> ctx" where
  "remove_watch now pm nm c =
     publish_process_event now pm nm ''delete'' (c\<lparr>c_watchers := hm_del pm (c_watchers c)\<rparr>)"

end
