(* ===== verification/Supervisor.thy ===== *)
theory Supervisor
  imports Tasks
begin

text \<open>
  \<open>src/daemon/supervisor.rs\<close>: the task that owns one process.  \<open>run\<close> is a state machine over
  \<open>sup_pc\<close>; each definition below is the code between two of its suspension points, and
  \<open>sup_step\<close> puts them together.  The second argument of a step says how the outside world
  resolves it: which branch of a \<open>select!\<close> is ready, whether the kernel can spawn the program,
  whether a timeout elapses.
\<close>

datatype choice =
    ChGo
  | ChSpawnOk u32
  | ChSpawnErr bool string     \<comment> \<open>permission denied?, the error's text\<close>
  | ChExit
  | ChCmd
  | ChTimer
  | ChClosed

section \<open>Spawning the child\<close>

record command =
  cm_program :: string
  cm_args :: "string list"
  cm_cwd :: string
  cm_env :: "(string, string) bmap"
  cm_piped :: bool
  cm_ids :: "(u32 \<times> u32) option"

definition spawn_cwd :: "host \<Rightarrow> app_config \<Rightarrow> string" where
  "spawn_cwd h config =
     (case ac_cwd config of
        Some d \<Rightarrow> d
      | None \<Rightarrow>
          (case path_parent (ac_script config) of
             Some p \<Rightarrow> if p \<noteq> [] then p else (case h_cwd h of Some d \<Rightarrow> d | None \<Rightarrow> ''/'')
           | None \<Rightarrow> (case h_cwd h of Some d \<Rightarrow> d | None \<Rightarrow> ''/'')))"

definition lookup_ids :: "host \<Rightarrow> app_config \<Rightarrow> (u32 \<times> u32) option res" where
  "lookup_ids h config =
     (case ac_uid config of
        None \<Rightarrow> Inr None
      | Some user \<Rightarrow>
          (case h_user h user of
             Inl _ \<Rightarrow> Inl (E_user_lookup user)
           | Inr None \<Rightarrow> Inl (E_no_such_user user)
           | Inr (Some (uid, ugid)) \<Rightarrow>
               (case ac_gid config of
                  None \<Rightarrow> Inr (Some (uid, ugid))
                | Some g \<Rightarrow>
                    (case h_group h g of
                       Inl _ \<Rightarrow> Inl (E_group_lookup g)
                     | Inr None \<Rightarrow> Inl (E_no_such_group g)
                     | Inr (Some gid) \<Rightarrow> Inr (Some (uid, gid))))))"

definition spawn_child :: "host \<Rightarrow> app_config \<Rightarrow> (string, string) bmap \<Rightarrow> command res" where
  "spawn_child h config extra_env =
     (let interp = effective_interpreter (h_env h) (h_is_file h) config;
          (prog, pre) = (case interp of
                           Some i \<Rightarrow> (i, ac_interpreter_args config @ [ac_script config])
                         | None \<Rightarrow> (ac_script config, []))
      in case lookup_ids h config of
           Inl e \<Rightarrow> Inl e
         | Inr ids \<Rightarrow>
             Inr \<lparr> cm_program = prog, cm_args = pre @ ac_args config, cm_cwd = spawn_cwd h config,
                   cm_env = extra_env, cm_piped = (\<not> ac_disable_logs config), cm_ids = ids \<rparr>)"

definition spawn_error :: "host \<Rightarrow> app_config \<Rightarrow> bool \<Rightarrow> string \<Rightarrow> err" where
  "spawn_error h config denied msg =
     (if denied \<and> ac_uid config \<noteq> None then E_uid_needs_root
      else E_cannot_spawn (ac_script config) (effective_interpreter (h_env h) (h_is_file h) config) msg)"

section \<open>Signals\<close>

text \<open>The names \<open>nix\<close> parses as a signal.\<close>

definition signal_names :: "string list" where
  "signal_names =
     [''SIGHUP'', ''SIGINT'', ''SIGQUIT'', ''SIGILL'', ''SIGTRAP'', ''SIGABRT'', ''SIGBUS'', ''SIGFPE'',
      ''SIGKILL'', ''SIGUSR1'', ''SIGSEGV'', ''SIGUSR2'', ''SIGPIPE'', ''SIGALRM'', ''SIGTERM'',
      ''SIGSTKFLT'', ''SIGCHLD'', ''SIGCONT'', ''SIGSTOP'', ''SIGTSTP'', ''SIGTTIN'', ''SIGTTOU'',
      ''SIGURG'', ''SIGXCPU'', ''SIGXFSZ'', ''SIGVTALRM'', ''SIGPROF'', ''SIGWINCH'', ''SIGIO'',
      ''SIGPWR'', ''SIGSYS'']"

definition parse_signal :: "string \<Rightarrow> string option" where
  "parse_signal s = (if s \<in> set signal_names then Some s else None)"

definition send_signal_tree :: "u32 \<Rightarrow> string \<Rightarrow> bool \<Rightarrow> sys \<Rightarrow> sys" where
  "send_signal_tree pid sig treekill s =
     s\<lparr>y_signals := y_signals s @ [\<lparr>sg_pid = pid, sg_signal = sig, sg_tree = treekill\<rparr>]\<rparr>"

section \<open>The top of a lifecycle\<close>

definition loc_of :: "proc \<Rightarrow> loc" where
  "loc_of p =
     \<lparr> l_config = p_config p, l_name = p_name p, l_env = child_env p, l_out = p_out_file p,
       l_err = p_error_file p, l_pidf = p_pid_file p \<rparr>"

definition su_top :: "nat \<Rightarrow> sup \<Rightarrow> sys \<Rightarrow> sys" where
  "su_top t u s =
     (case row s (u_pm u) of
        None \<Rightarrow> finish t u s
      | Some p \<Rightarrow> goto t u (U_spawn (loc_of p)) s)"

definition su_spawn :: "host \<Rightarrow> nat \<Rightarrow> sup \<Rightarrow> loc \<Rightarrow> choice \<Rightarrow> sys \<Rightarrow> sys option" where
  "su_spawn h t u l ch s =
     (case spawn_child h (l_config l) (l_env l) of
        Inl e \<Rightarrow> (if ch = ChGo then Some (goto t u (U_spawn_failed l e) s) else None)
      | Inr cmd \<Rightarrow>
          (case ch of
             ChSpawnOk pid \<Rightarrow>
               if pid = 0 then None
               else Some (set_sup t (u\<lparr>u_child := Some \<lparr>ch_pid = pid, ch_exit = None\<rparr>, u_pc := U_online l\<rparr>) s)
           | ChSpawnErr denied msg \<Rightarrow>
               Some (goto t u (U_spawn_failed l (spawn_error h (l_config l) denied msg)) s)
           | _ \<Rightarrow> None))"

definition su_spawn_failed :: "nat \<Rightarrow> sup \<Rightarrow> loc \<Rightarrow> err \<Rightarrow> sys \<Rightarrow> sys" where
  "su_spawn_failed t u l e s =
     goto t u (U_spawn_ack e)
       (on_ctx (publish_process_event (y_now s) (u_pm u) (l_name l) ''errored''
                \<circ> set_dead (u_pm u) Errored None) s)"

definition su_spawn_ack :: "nat \<Rightarrow> sup \<Rightarrow> err \<Rightarrow> sys \<Rightarrow> sys" where
  "su_spawn_ack t u e s =
     set_ack_opt (u_first u) (AkErr e) (set_sup t (u\<lparr>u_first := None, u_pc := U_clear None\<rparr>) s)"

definition su_clear :: "nat \<Rightarrow> sup \<Rightarrow> nat option \<Rightarrow> sys \<Rightarrow> sys" where
  "su_clear t u ao s =
     (let s1 = on_ctx (clear_cmd_tx (u_pm u)) s
      in case ao of None \<Rightarrow> finish t u s1 | Some a \<Rightarrow> goto t u (U_ack a) s1)"

definition su_ack :: "nat \<Rightarrow> sup \<Rightarrow> nat \<Rightarrow> sys \<Rightarrow> sys" where
  "su_ack t u a s = finish t u (set_ack a AkOk s)"

definition child_pid :: "sup \<Rightarrow> u32" where
  "child_pid u = (case u_child u of Some ch \<Rightarrow> ch_pid ch | None \<Rightarrow> 0)"

definition go_online :: "u32 \<Rightarrow> i64 \<Rightarrow> proc \<Rightarrow> proc" where
  "go_online pid now p =
     p\<lparr>p_pid := pid, p_status := Online, p_uptime_ms := Some now, p_exit_code := None, p_monit := monit_default\<rparr>"

definition su_online :: "nat \<Rightarrow> sup \<Rightarrow> loc \<Rightarrow> sys \<Rightarrow> sys" where
  "su_online t u l s =
     goto t u (U_first_ack l)
       (on_ctx (publish_process_event (y_now s) (u_pm u) (l_name l) ''online''
                \<circ> write_file (l_pidf l) (show_word (child_pid u))
                \<circ> with_row (u_pm u) (go_online (child_pid u) (y_now s))) s)"

definition su_first_ack :: "nat \<Rightarrow> sup \<Rightarrow> loc \<Rightarrow> sys \<Rightarrow> sys" where
  "su_first_ack t u l s =
     set_ack_opt (u_first u) AkOk (set_sup t (u\<lparr>u_first := None, u_pc := U_select l\<rparr>) s)"

section \<open>Waiting for the child or a command\<close>

definition su_select :: "nat \<Rightarrow> sup \<Rightarrow> loc \<Rightarrow> choice \<Rightarrow> sys \<Rightarrow> sys option" where
  "su_select t u l ch s =
     (case ch of
        ChExit \<Rightarrow>
          (case u_child u of
             Some c \<Rightarrow>
               (case ch_exit c of
                  Some code \<Rightarrow> Some (set_sup t (u\<lparr>u_child := None, u_pc := U_exit l code\<rparr>) s)
                | None \<Rightarrow> None)
           | None \<Rightarrow> None)
      | ChCmd \<Rightarrow>
          (case u_queue u of
             c # q \<Rightarrow> Some (set_sup t (u\<lparr>u_queue := q, u_pc := U_kill_mark l c\<rparr>) s)
           | [] \<Rightarrow> None)
      | ChClosed \<Rightarrow> (if u_queue u = [] \<and> \<not> channel_open t s then Some (finish t u s) else None)
      | _ \<Rightarrow> None)"

section \<open>The kill sequence (\<open>do_kill\<close>)\<close>

definition su_kill_mark :: "nat \<Rightarrow> sup \<Rightarrow> loc \<Rightarrow> sup_cmd \<Rightarrow> sys \<Rightarrow> sys" where
  "su_kill_mark t u l c s =
     goto t u (U_kill_signal l c) (on_ctx (with_row (u_pm u) (\<lambda>p. p\<lparr>p_status := Stopping\<rparr>)) s)"

definition su_kill_signal :: "nat \<Rightarrow> sup \<Rightarrow> loc \<Rightarrow> sup_cmd \<Rightarrow> sys \<Rightarrow> sys" where
  "su_kill_signal t u l c s =
     (case u_child u of
        None \<Rightarrow> goto t u (U_killed l c) s
      | Some ch \<Rightarrow>
          let sig = (case parse_signal (ac_kill_signal (l_config l)) of Some g \<Rightarrow> g | None \<Rightarrow> ''SIGINT'')
          in goto t u (U_kill_wait l c 0)
               (send_signal_tree (ch_pid ch) sig (ac_treekill (l_config l)) s))"

text \<open>Stage 0 waits for the configured signal, stage 1 for \<open>SIGKILL\<close>, stage 2 without a timeout.\<close>

definition su_kill_wait :: "nat \<Rightarrow> sup \<Rightarrow> loc \<Rightarrow> sup_cmd \<Rightarrow> nat \<Rightarrow> choice \<Rightarrow> sys \<Rightarrow> sys option" where
  "su_kill_wait t u l c stage ch s =
     (case ch of
        ChExit \<Rightarrow>
          (case u_child u of
             Some cd \<Rightarrow>
               (if ch_exit cd \<noteq> None then Some (set_sup t (u\<lparr>u_child := None, u_pc := U_killed l c\<rparr>) s) else None)
           | None \<Rightarrow> None)
      | ChTimer \<Rightarrow>
          (if stage = 0 then
             Some (goto t u (U_kill_wait l c 1)
               (send_signal_tree (child_pid u) ''SIGKILL'' (ac_treekill (l_config l)) s))
           else if stage = 1 then Some (goto t u (U_kill_wait l c 2) s)
           else None)
      | _ \<Rightarrow> None)"

definition restart_row :: "i64 \<Rightarrow> proc \<Rightarrow> proc" where
  "restart_row now p =
     (reset_state now p)\<lparr>p_restarts := p_restarts p + 1, p_status := Launching\<rparr>"

definition su_killed :: "nat \<Rightarrow> sup \<Rightarrow> loc \<Rightarrow> sup_cmd \<Rightarrow> sys \<Rightarrow> sys" where
  "su_killed t u l c s =
     (case c of
        CmdStop a \<Rightarrow>
          goto t u (U_clear (Some a))
            (on_ctx (publish_process_event (y_now s) (u_pm u) (l_name l) ''stop''
                     \<circ> set_dead (u_pm u) Stopped None \<circ> remove_file (l_pidf l)) s)
      | CmdRestart a \<Rightarrow>
          goto t u (U_restart_ack a)
            (on_ctx (publish_process_event (y_now s) (u_pm u) (l_name l) ''restart''
                     \<circ> with_row (u_pm u) (\<lambda>p. (restart_row (y_now s) p)\<lparr>p_pid := 0\<rparr>)
                     \<circ> remove_file (l_pidf l)) s)
      | CmdDelete a \<Rightarrow>
          goto t u (U_unwatch l a) (on_ctx (remove_row (u_pm u) \<circ> remove_file (l_pidf l)) s))"

definition su_restart_ack :: "nat \<Rightarrow> sup \<Rightarrow> nat \<Rightarrow> sys \<Rightarrow> sys" where
  "su_restart_ack t u a s = set_ack a AkOk (goto t u U_top s)"

definition su_unwatch :: "nat \<Rightarrow> sup \<Rightarrow> loc \<Rightarrow> nat \<Rightarrow> sys \<Rightarrow> sys" where
  "su_unwatch t u l a s =
     goto t u (U_ack a) (on_ctx (remove_watch (y_now s) (u_pm u) (l_name l)) s)"

section \<open>After an exit\<close>

definition facts_of :: "i64 \<Rightarrow> i32 option \<Rightarrow> proc \<Rightarrow> exit_facts" where
  "facts_of now code p =
     \<lparr> f_status = p_status p, f_autorestart = ac_autorestart (p_config p), f_exit_code = code,
       f_stop_exit_codes = ac_stop_exit_codes (p_config p), f_min_uptime_ms = ac_min_uptime (p_config p),
       f_max_restarts = ac_max_restarts (p_config p), f_unstable_restarts = p_unstable p,
       f_created_at_ms = p_created_at p,
       f_online_since_ms = (case p_uptime_ms p of Some v \<Rightarrow> v | None \<Rightarrow> p_created_at p),
       f_now_ms = now, f_restart_delay_ms = ac_restart_delay (p_config p),
       f_backoff_base_ms = ac_exp_backoff (p_config p), f_prev_restart_delay_ms = p_prev_delay p \<rparr>"

definition su_exit :: "nat \<Rightarrow> sup \<Rightarrow> loc \<Rightarrow> i32 option \<Rightarrow> sys \<Rightarrow> sys" where
  "su_exit t u l code s =
     (let s1 = on_ctx (remove_file (l_pidf l)) s
      in case row s1 (u_pm u) of
           None \<Rightarrow> finish t u s1
         | Some p \<Rightarrow>
             goto t u (U_decide l code (facts_of (y_now s) code p))
               (on_ctx (publish_process_event (y_now s) (u_pm u) (l_name l) ''exit''
                        \<circ> put_row (u_pm u) (p\<lparr>p_pid := 0, p_exit_code := code\<rparr>)) s1))"

definition su_decide :: "nat \<Rightarrow> sup \<Rightarrow> loc \<Rightarrow> i32 option \<Rightarrow> exit_facts \<Rightarrow> sys \<Rightarrow> sys" where
  "su_decide t u l code f s =
     (if c_shutting_down (y_ctx s) then finish t u s
      else case decide_restart f of
        RdStop \<Rightarrow> goto t u (U_stop_dead l code) s
      | RdGiveUp \<Rightarrow> goto t u (U_give_up l) s
      | RdRestart d un pv \<Rightarrow> goto t u (U_restart l code d un pv) s)"

definition su_stop_dead :: "nat \<Rightarrow> sup \<Rightarrow> loc \<Rightarrow> i32 option \<Rightarrow> sys \<Rightarrow> sys" where
  "su_stop_dead t u l code s =
     goto t u (U_clear None)
       (on_ctx (publish_process_event (y_now s) (u_pm u) (l_name l) ''stop''
                \<circ> set_dead (u_pm u) Stopped code) s)"

definition su_give_up :: "nat \<Rightarrow> sup \<Rightarrow> loc \<Rightarrow> sys \<Rightarrow> sys" where
  "su_give_up t u l s =
     goto t u (U_clear None)
       (on_ctx (publish_process_event (y_now s) (u_pm u) (l_name l) ''restart overlimit''
                \<circ> with_row (u_pm u) (\<lambda>p. p\<lparr>p_status := Errored, p_unstable := ac_max_restarts (p_config p)\<rparr>)) s)"

definition auto_restart_row :: "u64 \<Rightarrow> u32 \<Rightarrow> u64 \<Rightarrow> proc \<Rightarrow> proc" where
  "auto_restart_row d un pv p =
     p\<lparr>p_unstable := un, p_prev_delay := pv, p_restarts := p_restarts p + 1,
       p_status := (if 0 < d then WaitingRestart else Launching)\<rparr>"

definition su_restart ::
    "nat \<Rightarrow> sup \<Rightarrow> loc \<Rightarrow> i32 option \<Rightarrow> u64 \<Rightarrow> u32 \<Rightarrow> u64 \<Rightarrow> sys \<Rightarrow> sys" where
  "su_restart t u l code d un pv s =
     goto t u (if 0 < d then U_delay l code else U_top)
       (on_ctx (publish_process_event (y_now s) (u_pm u) (l_name l) ''restart''
                \<circ> with_row (u_pm u) (auto_restart_row d un pv)) s)"

section \<open>The restart delay\<close>

definition su_delay :: "nat \<Rightarrow> sup \<Rightarrow> loc \<Rightarrow> i32 option \<Rightarrow> choice \<Rightarrow> sys \<Rightarrow> sys option" where
  "su_delay t u l code ch s =
     (case ch of
        ChTimer \<Rightarrow> Some (goto t u U_top s)
      | ChCmd \<Rightarrow>
          (case u_queue u of
             c # q \<Rightarrow> Some (set_sup t (u\<lparr>u_queue := q, u_pc := U_delay_cmd l code c\<rparr>) s)
           | [] \<Rightarrow> None)
      | ChClosed \<Rightarrow> (if u_queue u = [] \<and> \<not> channel_open t s then Some (finish t u s) else None)
      | _ \<Rightarrow> None)"

definition su_delay_cmd :: "nat \<Rightarrow> sup \<Rightarrow> loc \<Rightarrow> i32 option \<Rightarrow> sup_cmd \<Rightarrow> sys \<Rightarrow> sys" where
  "su_delay_cmd t u l code c s =
     (case c of
        CmdRestart a \<Rightarrow>
          goto t u (U_restart_ack a) (on_ctx (with_row (u_pm u) (restart_row (y_now s))) s)
      | CmdStop a \<Rightarrow>
          goto t u (U_clear (Some a))
            (on_ctx (publish_process_event (y_now s) (u_pm u) (l_name l) ''stop''
                     \<circ> set_dead (u_pm u) Stopped code) s)
      | CmdDelete a \<Rightarrow> goto t u (U_unwatch l a) (on_ctx (remove_row (u_pm u)) s))"

section \<open>One step of a supervisor\<close>

definition go :: "choice \<Rightarrow> sys \<Rightarrow> sys option" where
  "go ch s = (if ch = ChGo then Some s else None)"

definition sup_step :: "host \<Rightarrow> nat \<Rightarrow> choice \<Rightarrow> sys \<Rightarrow> sys option" where
  "sup_step h t ch s =
     (case sup_of s t of
        None \<Rightarrow> None
      | Some u \<Rightarrow>
          (case u_pc u of
             U_top \<Rightarrow> go ch (su_top t u s)
           | U_spawn l \<Rightarrow> su_spawn h t u l ch s
           | U_spawn_failed l e \<Rightarrow> go ch (su_spawn_failed t u l e s)
           | U_spawn_ack e \<Rightarrow> go ch (su_spawn_ack t u e s)
           | U_online l \<Rightarrow> go ch (su_online t u l s)
           | U_first_ack l \<Rightarrow> go ch (su_first_ack t u l s)
           | U_select l \<Rightarrow> su_select t u l ch s
           | U_kill_mark l c \<Rightarrow> go ch (su_kill_mark t u l c s)
           | U_kill_signal l c \<Rightarrow> go ch (su_kill_signal t u l c s)
           | U_kill_wait l c n \<Rightarrow> su_kill_wait t u l c n ch s
           | U_killed l c \<Rightarrow> go ch (su_killed t u l c s)
           | U_restart_ack a \<Rightarrow> go ch (su_restart_ack t u a s)
           | U_unwatch l a \<Rightarrow> go ch (su_unwatch t u l a s)
           | U_clear ao \<Rightarrow> go ch (su_clear t u ao s)
           | U_ack a \<Rightarrow> go ch (su_ack t u a s)
           | U_exit l code \<Rightarrow> go ch (su_exit t u l code s)
           | U_decide l code f \<Rightarrow> go ch (su_decide t u l code f s)
           | U_stop_dead l code \<Rightarrow> go ch (su_stop_dead t u l code s)
           | U_give_up l \<Rightarrow> go ch (su_give_up t u l s)
           | U_restart l code d un pv \<Rightarrow> go ch (su_restart t u l code d un pv s)
           | U_delay l code \<Rightarrow> su_delay t u l code ch s
           | U_delay_cmd l code c \<Rightarrow> go ch (su_delay_cmd t u l code c s)))"

end
