(* ===== verification/Ops.thy ===== *)
theory Ops
  imports Supervisor
begin

text \<open>
  \<open>src/daemon/ops.rs\<close>: \<open>start_app\<close>, \<open>launch\<close>, \<open>stop_one\<close>, \<open>restart_one\<close> and \<open>delete_one\<close> as tasks
  over \<open>call_pc\<close>, with \<open>supervisor::spawn\<close>, \<open>cron::register\<close>, \<open>health::register\<close> and
  \<open>watcher::register\<close> as far as they touch the shared state.
\<close>

section \<open>Channel operations\<close>

text \<open>\<open>tx.send(cmd).await\<close>: \<open>None\<close> while the channel is full, \<open>Some (Inl _)\<close> when the receiver is gone.\<close>

definition send_cmd :: "nat \<Rightarrow> (nat \<Rightarrow> sup_cmd) \<Rightarrow> sys \<Rightarrow> (unit, nat \<times> sys) result option" where
  "send_cmd c mk s =
     (case sup_of s c of
        None \<Rightarrow> Some (Inl ())
      | Some u \<Rightarrow>
          if length (u_queue u) < channel_capacity then
            (let (a, s1) = new_ack s
             in Some (Inr (a, set_sup c (u\<lparr>u_queue := u_queue u @ [mk a]\<rparr>) s1)))
          else None)"

definition send_step ::
    "nat \<Rightarrow> call \<Rightarrow> nat \<Rightarrow> (nat \<Rightarrow> sup_cmd) \<Rightarrow> (nat \<Rightarrow> call_pc) \<Rightarrow> call_pc \<Rightarrow> sys \<Rightarrow> sys option" where
  "send_step k cl c mk sent gone s =
     (case send_cmd c mk s of
        None \<Rightarrow> None
      | Some (Inl _) \<Rightarrow> Some (call_goto k cl gone s)
      | Some (Inr (a, s1)) \<Rightarrow> Some (call_goto k cl (sent a) s1))"

section \<open>\<open>stop_one\<close>\<close>

definition st_watch :: "nat \<Rightarrow> call \<Rightarrow> sys \<Rightarrow> sys" where
  "st_watch k cl s =
     call_goto k cl ST_lock (on_ctx (\<lambda>c. c\<lparr>c_watchers := hm_del (k_pm cl) (c_watchers c)\<rparr>) s)"

definition st_lock :: "nat \<Rightarrow> call \<Rightarrow> sys \<Rightarrow> sys" where
  "st_lock k cl s =
     (case row s (k_pm cl) of
        None \<Rightarrow> call_goto k cl (C_done (Inr [])) s
      | Some p \<Rightarrow>
          (case p_cmd_tx p of
             Some c \<Rightarrow> call_goto k cl (ST_send c) (on_ctx (put_row (k_pm cl) (p\<lparr>p_status := Stopping\<rparr>)) s)
           | None \<Rightarrow> call_goto k cl (C_done (Inr [])) (on_ctx (put_row (k_pm cl) (p\<lparr>p_status := Stopped\<rparr>)) s)))"

definition st_wait :: "nat \<Rightarrow> call \<Rightarrow> nat \<Rightarrow> nat \<Rightarrow> sys \<Rightarrow> sys option" where
  "st_wait k cl c a s =
     (if ack_of s a = Some AkPending then None else Some (call_goto k cl (ST_norm c) s))"

definition normalize :: "proc \<Rightarrow> proc" where
  "normalize p = (if p_status p = Stopping then p\<lparr>p_status := Stopped\<rparr> else p)"

definition st_norm :: "nat \<Rightarrow> call \<Rightarrow> nat \<Rightarrow> sys \<Rightarrow> sys" where
  "st_norm k cl c s = call_goto k cl (C_done (Inr [])) (on_ctx (with_row (k_pm cl) normalize) s)"

section \<open>\<open>restart_one\<close>\<close>

definition rs_lock :: "nat \<Rightarrow> call \<Rightarrow> sys \<Rightarrow> sys" where
  "rs_lock k cl s =
     (case row s (k_pm cl) of
        None \<Rightarrow> call_goto k cl (C_done (Inr [])) s
      | Some p \<Rightarrow> (case p_cmd_tx p of Some c \<Rightarrow> call_goto k cl (RS_mark c) s | None \<Rightarrow> call_goto k cl RS_reset s))"

definition rs_mark :: "nat \<Rightarrow> call \<Rightarrow> nat \<Rightarrow> sys \<Rightarrow> sys" where
  "rs_mark k cl c s =
     call_goto k cl (RS_send c)
       (on_ctx (with_row (k_pm cl) (\<lambda>p. if p_status p = Online then p\<lparr>p_status := Stopping\<rparr> else p)) s)"

definition rs_wait :: "nat \<Rightarrow> call \<Rightarrow> nat \<Rightarrow> nat \<Rightarrow> sys \<Rightarrow> sys option" where
  "rs_wait k cl c a s =
     (case ack_of s a of
        Some AkPending \<Rightarrow> None
      | Some AkDropped \<Rightarrow> Some (call_goto k cl (LN_shut KReturn) s)
      | _ \<Rightarrow> Some (call_goto k cl (C_done (Inr [])) s))"

definition rs_reset :: "nat \<Rightarrow> call \<Rightarrow> sys \<Rightarrow> sys" where
  "rs_reset k cl s =
     call_goto k cl (LN_shut KReturn)
       (on_ctx (with_row (k_pm cl) (\<lambda>p. (reset_state (y_now s) p)\<lparr>p_restarts := p_restarts p + 1\<rparr>)) s)"

section \<open>\<open>delete_one\<close>\<close>

definition dl_lock :: "nat \<Rightarrow> call \<Rightarrow> sys \<Rightarrow> sys" where
  "dl_lock k cl s =
     (case row s (k_pm cl) of
        None \<Rightarrow> call_goto k cl (C_done (Inr [])) s
      | Some p \<Rightarrow>
          (case p_cmd_tx p of
             Some c \<Rightarrow>
               call_goto k cl (DL_send c (p_name p)) (on_ctx (put_row (k_pm cl) (p\<lparr>p_status := Stopping\<rparr>)) s)
           | None \<Rightarrow> call_goto k cl (DL_remove (p_name p)) s))"

definition dl_wait :: "nat \<Rightarrow> call \<Rightarrow> nat \<Rightarrow> nat \<Rightarrow> string \<Rightarrow> sys \<Rightarrow> sys option" where
  "dl_wait k cl c a nm s =
     (case ack_of s a of
        Some AkPending \<Rightarrow> None
      | Some AkDropped \<Rightarrow> Some (call_goto k cl (DL_remove nm) s)
      | _ \<Rightarrow> Some (call_goto k cl (C_done (Inr [])) s))"

definition dl_remove :: "nat \<Rightarrow> call \<Rightarrow> string \<Rightarrow> sys \<Rightarrow> sys" where
  "dl_remove k cl nm s = call_goto k cl (DL_unwatch nm) (on_ctx (remove_row (k_pm cl)) s)"

definition dl_unwatch :: "nat \<Rightarrow> call \<Rightarrow> string \<Rightarrow> sys \<Rightarrow> sys" where
  "dl_unwatch k cl nm s =
     call_goto k cl (C_done (Inr [])) (on_ctx (remove_watch (y_now s) (k_pm cl) nm) s)"

section \<open>\<open>launch\<close> and \<open>supervisor::spawn\<close>\<close>

definition launch_return :: "nat \<Rightarrow> call \<Rightarrow> launch_cont \<Rightarrow> unit res \<Rightarrow> sys \<Rightarrow> sys" where
  "launch_return k cl kont r s =
     (case r of
        Inl e \<Rightarrow> call_goto k cl (C_done (Inl e)) s
      | Inr _ \<Rightarrow>
          (case kont of
             KReturn \<Rightarrow> call_goto k cl (C_done (Inr [])) s
           | KStart app fixed i ids pm \<Rightarrow> call_goto k cl (SA_publish app fixed i ids pm) s))"

definition ln_shut :: "nat \<Rightarrow> call \<Rightarrow> launch_cont \<Rightarrow> sys \<Rightarrow> sys" where
  "ln_shut k cl kont s =
     (if c_shutting_down (y_ctx s) then launch_return k cl kont (Inl E_shutting_down) s
      else call_goto k cl (LN_check kont) s)"

definition ln_check :: "nat \<Rightarrow> call \<Rightarrow> launch_cont \<Rightarrow> sys \<Rightarrow> sys" where
  "ln_check k cl kont s =
     (case row s (k_pm cl) of
        None \<Rightarrow> launch_return k cl kont (Inl (E_no_process_id (k_pm cl))) s
      | Some p \<Rightarrow>
          if p_cmd_tx p \<noteq> None then launch_return k cl kont (Inr ()) s
          else call_goto k cl (LN_spawn kont) s)"

text \<open>The check and the registration of the channel are one critical section.\<close>

definition spawn_sup :: "u32 \<Rightarrow> nat \<Rightarrow> sys \<Rightarrow> sys" where
  "spawn_sup pm a s =
     (case row s pm of
        None \<Rightarrow> set_ack a (AkErr (E_vanished pm)) s
      | Some p \<Rightarrow>
          if p_cmd_tx p \<noteq> None then set_ack a AkOk s
          else
            let t = y_next s
            in set_sup t \<lparr>u_pm = pm, u_pc = U_top, u_queue = [], u_first = Some a, u_child = None\<rparr>
                 (on_ctx (put_row pm (p\<lparr>p_cmd_tx := Some t, p_status := Launching\<rparr>)) s)\<lparr>y_next := Suc t\<rparr>)"

definition ln_spawn :: "nat \<Rightarrow> call \<Rightarrow> launch_cont \<Rightarrow> sys \<Rightarrow> sys" where
  "ln_spawn k cl kont s =
     (let (a, s1) = new_ack s in call_goto k cl (LN_wait a kont) (spawn_sup (k_pm cl) a s1))"

definition ln_wait :: "nat \<Rightarrow> call \<Rightarrow> nat \<Rightarrow> launch_cont \<Rightarrow> sys \<Rightarrow> sys option" where
  "ln_wait k cl a kont s =
     (case ack_of s a of
        Some AkOk \<Rightarrow> Some (call_goto k cl (LN_watch kont) s)
      | Some (AkErr e) \<Rightarrow> Some (launch_return k cl kont (Inl e) s)
      | Some AkDropped \<Rightarrow> Some (launch_return k cl kont (Inl (E_supervisor_died (k_pm cl))) s)
      | _ \<Rightarrow> None)"

section \<open>\<open>watcher::register\<close>\<close>

definition watch_dir :: "app_config \<Rightarrow> string" where
  "watch_dir config =
     (case ac_cwd config of
        Some d \<Rightarrow> d
      | None \<Rightarrow> (case path_parent (ac_script config) of Some p \<Rightarrow> p | None \<Rightarrow> ''.''))"

text \<open>The row is read under the table lock; the watcher is stored later, under its own lock.\<close>

definition ln_watch :: "host \<Rightarrow> nat \<Rightarrow> call \<Rightarrow> launch_cont \<Rightarrow> sys \<Rightarrow> sys" where
  "ln_watch h k cl kont s =
     (case row s (k_pm cl) of
        None \<Rightarrow> launch_return k cl kont (Inr ()) s
      | Some p \<Rightarrow>
          if \<not> ac_watch (p_config p) \<or> p_cmd_tx p = None then launch_return k cl kont (Inr ()) s
          else if h_watch_ok h (watch_dir (p_config p)) then call_goto k cl (LN_arm kont) s
          else launch_return k cl kont (Inr ()) s)"

definition ln_arm :: "nat \<Rightarrow> call \<Rightarrow> launch_cont \<Rightarrow> sys \<Rightarrow> sys" where
  "ln_arm k cl kont s =
     launch_return k cl kont (Inr ()) (on_ctx (\<lambda>c. c\<lparr>c_watchers := hm_put (k_pm cl) () (c_watchers c)\<rparr>) s)"

section \<open>\<open>start_app\<close>\<close>

definition name_clash :: "ptable \<Rightarrow> string \<Rightarrow> (u32 \<times> u32) option \<Rightarrow> bool" where
  "name_clash t nm fixed =
     list_ex (\<lambda>(i, p). p_name p = nm \<and> (case fixed of None \<Rightarrow> True | Some (id', _) \<Rightarrow> p_pm_id p \<noteq> id'))
       (hm_rows (procs t))"

definition sa_begin :: "host \<Rightarrow> nat \<Rightarrow> call \<Rightarrow> app_config \<Rightarrow> (u32 \<times> u32) option \<Rightarrow> sys \<Rightarrow> sys" where
  "sa_begin h k cl app fixed s =
     (if c_shutting_down (y_ctx s) then call_goto k cl (C_done (Inl E_shutting_down)) s
      else case validate (h_cron_ok h) app of
        Inl e \<Rightarrow> call_goto k cl (C_done (Inl e)) s
      | Inr _ \<Rightarrow> call_goto k cl (SA_clash app fixed) s)"

definition sa_clash :: "nat \<Rightarrow> call \<Rightarrow> app_config \<Rightarrow> (u32 \<times> u32) option \<Rightarrow> sys \<Rightarrow> sys" where
  "sa_clash k cl app fixed s =
     (if name_clash (c_table (y_ctx s)) (effective_name app) fixed \<and> fixed = None
      then call_goto k cl (C_done (Inl (E_already_exists (effective_name app)))) s
      else call_goto k cl (SA_row app fixed 0 []) s)"

definition insert_row :: "env_vars \<Rightarrow> i64 \<Rightarrow> u32 \<Rightarrow> u32 \<Rightarrow> app_config \<Rightarrow> ptable \<Rightarrow> ptable" where
  "insert_row ev now pm inst app t = t\<lparr>procs := hm_put pm (proc_new ev now pm inst app) (procs t)\<rparr>"

definition sa_row ::
    "host \<Rightarrow> nat \<Rightarrow> call \<Rightarrow> app_config \<Rightarrow> (u32 \<times> u32) option \<Rightarrow> nat \<Rightarrow> u32 list \<Rightarrow> sys \<Rightarrow> sys" where
  "sa_row h k cl app fixed i ids s =
     (let instances = (if fixed \<noteq> None then 1 else unat (ac_instances app));
          t = c_table (y_ctx s);
          store = (\<lambda>pm t'. on_ctx (\<lambda>c. c\<lparr>c_table := t'\<rparr>) s)
      in if instances \<le> i then call_goto k cl (C_done (Inr ids)) s
         else case fixed of
           Some (pm, inst) \<Rightarrow>
             (if hm_get (procs t) pm \<noteq> None then call_goto k cl (C_done (Inl (E_occupied pm))) s
              else call_goto k (cl\<lparr>k_pm := pm\<rparr>) (SA_register app fixed i (ids @ [pm]) pm)
                     (store pm (insert_row (h_env h) (y_now s) pm inst app (bump_next_id pm t))))
         | None \<Rightarrow>
             (case alloc_id t of (pm, t') \<Rightarrow>
                call_goto k (cl\<lparr>k_pm := pm\<rparr>) (SA_register app fixed i (ids @ [pm]) pm)
                  (store pm (insert_row (h_env h) (y_now s) pm (of_nat i) app t'))))"

text \<open>\<open>cron::register\<close> and \<open>health::register\<close>: the new task's handle replaces an old one, which is aborted.\<close>

definition cron_register :: "host \<Rightarrow> u32 \<Rightarrow> nat \<Rightarrow> ctx \<Rightarrow> ctx" where
  "cron_register h pm task c =
     (case row_of c pm of
        None \<Rightarrow> c
      | Some p \<Rightarrow>
          (case ac_cron_restart (p_config p) of
             None \<Rightarrow> c
           | Some e \<Rightarrow>
               if e = [] \<or> \<not> h_cron_ok h e then c
               else (put_row pm (p\<lparr>p_cron_task := Some task\<rparr>) c)
                      \<lparr>c_aborted := c_aborted c @ (case p_cron_task p of Some o' \<Rightarrow> [o'] | None \<Rightarrow> [])\<rparr>))"

definition health_register :: "u32 \<Rightarrow> nat \<Rightarrow> ctx \<Rightarrow> ctx" where
  "health_register pm task c =
     (case row_of c pm of
        None \<Rightarrow> c
      | Some p \<Rightarrow>
          (case ac_health_check (p_config p) of
             None \<Rightarrow> c
           | Some hc \<Rightarrow>
               (put_row pm (p\<lparr>p_health_task := Some task\<rparr>) c)
                 \<lparr>c_aborted := c_aborted c @ (case p_health_task p of Some o' \<Rightarrow> [o'] | None \<Rightarrow> [])\<rparr>))"

definition sa_register ::
    "host \<Rightarrow> nat \<Rightarrow> call \<Rightarrow> app_config \<Rightarrow> (u32 \<times> u32) option \<Rightarrow> nat \<Rightarrow> u32 list \<Rightarrow> u32 \<Rightarrow> sys \<Rightarrow> sys" where
  "sa_register h k cl app fixed i ids pm s =
     (let n = y_next s;
          s1 = (on_ctx (health_register pm (Suc n) \<circ> cron_register h pm n) s)\<lparr>y_next := n + 2\<rparr>
      in if ac_autostart app then call_goto k cl (LN_shut (KStart app fixed i ids pm)) s1
         else call_goto k cl (SA_publish app fixed i ids pm) s1)"

definition sa_publish ::
    "nat \<Rightarrow> call \<Rightarrow> app_config \<Rightarrow> (u32 \<times> u32) option \<Rightarrow> nat \<Rightarrow> u32 list \<Rightarrow> u32 \<Rightarrow> sys \<Rightarrow> sys" where
  "sa_publish k cl app fixed i ids pm s =
     call_goto k cl (SA_row app fixed (Suc i) ids)
       (on_ctx (publish_process_event (y_now s) pm (effective_name app) ''start'') s)"

section \<open>One step of an operation\<close>

definition call_step :: "host \<Rightarrow> nat \<Rightarrow> sys \<Rightarrow> sys option" where
  "call_step h k s =
     (case call_of s k of
        None \<Rightarrow> None
      | Some cl \<Rightarrow>
          (case k_pc cl of
             ST_watch \<Rightarrow> Some (st_watch k cl s)
           | ST_lock \<Rightarrow> Some (st_lock k cl s)
           | ST_send c \<Rightarrow> send_step k cl c CmdStop (ST_wait c) (ST_norm c) s
           | ST_wait c a \<Rightarrow> st_wait k cl c a s
           | ST_norm c \<Rightarrow> Some (st_norm k cl c s)
           | RS_lock \<Rightarrow> Some (rs_lock k cl s)
           | RS_mark c \<Rightarrow> Some (rs_mark k cl c s)
           | RS_send c \<Rightarrow> send_step k cl c CmdRestart (RS_wait c) (LN_shut KReturn) s
           | RS_wait c a \<Rightarrow> rs_wait k cl c a s
           | RS_reset \<Rightarrow> Some (rs_reset k cl s)
           | DL_lock \<Rightarrow> Some (dl_lock k cl s)
           | DL_send c nm \<Rightarrow> send_step k cl c CmdDelete (\<lambda>a. DL_wait c a nm) (DL_remove nm) s
           | DL_wait c a nm \<Rightarrow> dl_wait k cl c a nm s
           | DL_remove nm \<Rightarrow> Some (dl_remove k cl nm s)
           | DL_unwatch nm \<Rightarrow> Some (dl_unwatch k cl nm s)
           | LN_shut kont \<Rightarrow> Some (ln_shut k cl kont s)
           | LN_check kont \<Rightarrow> Some (ln_check k cl kont s)
           | LN_spawn kont \<Rightarrow> Some (ln_spawn k cl kont s)
           | LN_wait a kont \<Rightarrow> ln_wait k cl a kont s
           | LN_watch kont \<Rightarrow> Some (ln_watch h k cl kont s)
           | LN_arm kont \<Rightarrow> Some (ln_arm k cl kont s)
           | SA_begin app fixed \<Rightarrow> Some (sa_begin h k cl app fixed s)
           | SA_clash app fixed \<Rightarrow> Some (sa_clash k cl app fixed s)
           | SA_row app fixed i ids \<Rightarrow> Some (sa_row h k cl app fixed i ids s)
           | SA_register app fixed i ids pm \<Rightarrow> Some (sa_register h k cl app fixed i ids pm s)
           | SA_publish app fixed i ids pm \<Rightarrow> Some (sa_publish k cl app fixed i ids pm s)
           | C_done r \<Rightarrow> None))"

section \<open>Requests\<close>

datatype request =
    RqStart app_config "(u32 \<times> u32) option"
  | RqStop u32
  | RqRestart u32
  | RqDelete u32

fun first_pc :: "request \<Rightarrow> u32 \<times> call_pc" where
  "first_pc (RqStart app fixed) = (0, SA_begin app fixed)"
| "first_pc (RqStop pm) = (pm, ST_watch)"
| "first_pc (RqRestart pm) = (pm, RS_lock)"
| "first_pc (RqDelete pm) = (pm, DL_lock)"

definition new_call :: "request \<Rightarrow> sys \<Rightarrow> sys" where
  "new_call rq s =
     (case first_pc rq of (pm, pc) \<Rightarrow>
        (set_call (y_next s) \<lparr>k_pm = pm, k_pc = pc\<rparr> s)\<lparr>y_next := Suc (y_next s)\<rparr>)"

end
