(* ===== verification/Batch.thy ===== *)
theory Batch
  imports Dump Ops
begin

text \<open>
  The rest of \<open>src/daemon/ops.rs\<close> (operations over many processes: \<open>for_each_parallel\<close>, \<open>resolve\<close>,
  the snapshots, \<open>scale\<close>).  The single operations they wait
  for run as tasks of \<open>Daemon\<close>; here each is an argument that says how it ended and what it did
  to the context.
\<close>

section \<open>Many at once\<close>

datatype op = OpStop | OpRestart | OpDelete

fun op_request :: "op \<Rightarrow> u32 \<Rightarrow> request" where
  "op_request OpStop i = RqStop i"
| "op_request OpRestart i = RqRestart i"
| "op_request OpDelete i = RqDelete i"

text \<open>One task per id; then all are joined in the order of the ids.\<close>

definition spawn_each :: "op \<Rightarrow> u32 list \<Rightarrow> request list" where
  "spawn_each o' ids = map (op_request o') ids"

datatype joined = Finished "unit res" | Panicked string

fun join_result :: "joined \<Rightarrow> unit res" where
  "join_result (Finished r) = r"
| "join_result (Panicked e) = Inl (E_task_panicked e)"

fun join_all :: "err option \<Rightarrow> joined list \<Rightarrow> unit res" where
  "join_all first_err [] = (case first_err of Some e \<Rightarrow> Inl e | None \<Rightarrow> Inr ())"
| "join_all first_err (j # js) =
     (case join_result j of
        Inl e \<Rightarrow> join_all (if first_err = None then Some e else first_err) js
      | Inr _ \<Rightarrow> join_all first_err js)"

section \<open>Targets and snapshots\<close>

definition resolve :: "ctx \<Rightarrow> target \<Rightarrow> u32 list res" where
  "resolve c tg =
     (let ids = table_resolve (c_table c) tg
      in if ids = [] then
           (case tg of
              All \<Rightarrow> Inr []
            | Ids v \<Rightarrow> Inl (E_no_process_ids v)
            | Names v \<Rightarrow> Inl (E_no_process_named v))
         else Inr ids)"

definition snapshots :: "ctx \<Rightarrow> u32 list \<Rightarrow> bool \<Rightarrow> snapshot list" where
  "snapshots c ids with_env = sort_key s_pm_id (map (snapshot_of with_env) (List.map_filter (row_of c) ids))"

definition all_snapshots :: "ctx \<Rightarrow> snapshot list" where
  "all_snapshots c = sort_key s_pm_id (map (snapshot_of False) (map snd (hm_rows (procs (c_table c)))))"

section \<open>\<open>scale\<close>\<close>

type_synonym deleter = "u32 \<Rightarrow> ctx \<Rightarrow> unit res \<times> ctx"

fun scale_up :: "starter \<Rightarrow> app_config \<Rightarrow> u32 \<Rightarrow> nat \<Rightarrow> ctx \<Rightarrow> u32 list res \<times> ctx" where
  "scale_up start cfg inst 0 c = (Inr [], c)"
| "scale_up start cfg inst (Suc n) c =
     (let (pm, t) = alloc_id (c_table c)
      in case start cfg (pm, inst) (c\<lparr>c_table := t\<rparr>) of
           (Inl e, c') \<Rightarrow> (Inl e, c')
         | (Inr ids, c') \<Rightarrow>
             (case scale_up start cfg (inst + 1) n c' of
                (Inl e, c'') \<Rightarrow> (Inl e, c'')
              | (Inr ids', c'') \<Rightarrow> (Inr (ids @ ids'), c'')))"

fun scale_down :: "deleter \<Rightarrow> u32 list \<Rightarrow> ctx \<Rightarrow> unit res \<times> ctx" where
  "scale_down del [] c = (Inr (), c)"
| "scale_down del (i # is) c =
     (case del i c of (Inl e, c') \<Rightarrow> (Inl e, c') | (Inr _, c') \<Rightarrow> scale_down del is c')"

definition rows_named :: "ctx \<Rightarrow> string \<Rightarrow> proc list" where
  "rows_named c nm =
     sort_key p_instance (filter (\<lambda>p. p_name p = nm) (map snd (hm_rows (procs (c_table c)))))"

definition next_instance :: "proc list \<Rightarrow> u32" where
  "next_instance ps = (case ps of [] \<Rightarrow> 0 | p # ps' \<Rightarrow> foldl max (p_instance p + 1) (map (\<lambda>q. p_instance q + 1) ps'))"

definition scale :: "starter \<Rightarrow> deleter \<Rightarrow> string \<Rightarrow> u32 \<Rightarrow> ctx \<Rightarrow> u32 list res \<times> ctx" where
  "scale start del nm want c =
     (if want = 0 then (Inl (E_scale_zero nm), c)
      else
        let rows = rows_named c nm
        in if rows = [] then (Inl (E_scale_not_found nm), c)
           else
             let current = map p_pm_id rows; have' = (of_nat (length current) :: u32)
             in if have' < want then
                  (case scale_up start ((p_config (hd rows))\<lparr>ac_instances := 1\<rparr>) (next_instance rows)
                          (unat (want - have')) c of
                     (Inl e, c') \<Rightarrow> (Inl e, c')
                   | (Inr ids, c') \<Rightarrow> (Inr (current @ ids), c'))
                else if want < have' then
                  (case scale_down del (drop (unat want) current) c of
                     (Inl e, c') \<Rightarrow> (Inl e, c')
                   | (Inr _, c') \<Rightarrow> (Inr (take (unat want) current), c'))
                else (Inr current, c))"

section \<open>Facts\<close>

lemma join_all_first:
  "join_all fe js = (case fe of Some e \<Rightarrow> Inl e
     | None \<Rightarrow> (case filter (\<lambda>r. \<not> is_ok r) (map join_result js) of [] \<Rightarrow> Inr () | r # _ \<Rightarrow> r))"
proof (induction js arbitrary: fe)
  case (Cons j js)
  show ?case by (cases "join_result j") (auto simp: Cons split: option.split)
qed (simp split: option.split)

lemma snapshots_sorted: "sorted (map s_pm_id (snapshots c ids we))"
  by (simp add: snapshots_def)

text \<open>One round of scaling up.\<close>

definition start_new :: "starter \<Rightarrow> app_config \<Rightarrow> u32 \<Rightarrow> ctx \<Rightarrow> u32 list res \<times> ctx" where
  "start_new start cfg inst c = (let (pm, t) = alloc_id (c_table c) in start cfg (pm, inst) (c\<lparr>c_table := t\<rparr>))"

definition numbers_from :: "u32 \<Rightarrow> nat \<Rightarrow> u32 list" where
  "numbers_from inst n = map (\<lambda>k. inst + of_nat k) [0..<n]"

lemma unat_of_nat_add_u32:
  fixes w :: u32
  assumes "unat w + k < 2 ^ 32"
  shows "unat (w + of_nat k) = unat w + k"
  using assms by (simp add: unat_word_ariths unsigned_of_nat take_bit_nat_eq_self)

lemma numbers_from_Suc: "numbers_from inst (Suc n) = inst # numbers_from (inst + 1) n"
proof -
  have "map (\<lambda>k. inst + of_nat k) [Suc 0..<Suc n] = map (\<lambda>k. inst + 1 + of_nat k) [0..<n]"
    unfolding map_Suc_upt [symmetric] by simp
  then show ?thesis by (simp add: numbers_from_def upt_conv_Cons del: upt_Suc)
qed

lemma numbers_from_above:
  assumes "unat inst + n \<le> 2 ^ 32" "j \<in> set (numbers_from inst n)"
  shows "inst \<le> j"
proof -
  obtain k where k: "k < n" "j = inst + of_nat k" using assms(2) by (auto simp: numbers_from_def)
  then have "unat j = unat inst + k" using assms(1) by (subst k(2), subst unat_of_nat_add_u32) auto
  then show ?thesis by (simp add: word_le_nat_alt)
qed

lemma distinct_numbers_from:
  assumes "unat inst + n \<le> 2 ^ 32"
  shows "distinct (numbers_from inst n)"
proof -
  have "inj_on (\<lambda>k. inst + of_nat k) {0..<n}"
  proof (rule inj_onI)
    fix x y assume "x \<in> {0..<n}" "y \<in> {0..<n}" "inst + of_nat x = inst + (of_nat y :: u32)"
    then have "unat (inst + of_nat x) = unat (inst + of_nat y)" "unat inst + x < 2 ^ 32" "unat inst + y < 2 ^ 32" using assms by auto
    then show "x = y" by (simp add: unat_of_nat_add_u32)
  qed
  then show ?thesis by (simp add: numbers_from_def distinct_map)
qed

lemma scale_up_all:
  assumes "\<And>x c. is_ok (fst (start cfg x c))"
  shows "\<exists>ids. scale_up start cfg inst n c = (Inr ids, fold (\<lambda>j c. snd (start_new start cfg j c)) (numbers_from inst n) c)"
proof (induction n arbitrary: inst c)
  case 0
  show ?case by (simp add: numbers_from_def)
next
  case (Suc n)
  obtain pm t where al: "alloc_id (c_table c) = (pm, t)" by (cases "alloc_id (c_table c)")
  obtain ids c1 where st: "start cfg (pm, inst) (c\<lparr>c_table := t\<rparr>) = (Inr ids, c1)"
    using assms [of "(pm, inst)" "c\<lparr>c_table := t\<rparr>"] by (cases "start cfg (pm, inst) (c\<lparr>c_table := t\<rparr>)") (auto simp: is_ok_iff)
  have "snd (start_new start cfg inst c) = c1" by (simp add: start_new_def al st)
  moreover obtain js where "scale_up start cfg (inst + 1) n c1
      = (Inr js, fold (\<lambda>j c. snd (start_new start cfg j c)) (numbers_from (inst + 1) n) c1)" using Suc by blast
  ultimately show ?case by (simp add: al st numbers_from_Suc)
qed

lemma scale_down_all:
  assumes "\<And>i c. fst (del i c) = Inr ()"
  shows "scale_down del is c = (Inr (), fold (\<lambda>i c. snd (del i c)) is c)"
proof (induction "is" arbitrary: c)
  case (Cons i "is")
  show ?case using assms [of i c] Cons by (cases "del i c") simp
qed simp

lemma foldl_max_ge: "x \<le> foldl max (x :: u32) ys \<and> (\<forall>y \<in> set ys. y \<le> foldl max x ys)"
proof (induction ys arbitrary: x)
  case (Cons y ys)
  from Cons [of "max x y"] show ?case by (auto intro: order_trans)
qed simp

lemma foldl_max_in: "foldl max (x :: u32) ys \<in> set (x # ys)"
proof (induction ys arbitrary: x)
  case (Cons y ys)
  from Cons [of "max x y"] show ?case by (auto simp: max_def split: if_splits)
qed simp

lemma next_instance_is: "ps \<noteq> [] \<Longrightarrow> \<exists>p \<in> set ps. next_instance ps = p_instance p + 1"
proof (cases ps)
  case (Cons q qs)
  then show ?thesis using foldl_max_in [of "p_instance q + 1" "map (\<lambda>q. p_instance q + 1) qs"] by (auto simp: next_instance_def)
qed simp

lemma next_instance_above:
  assumes "p \<in> set ps" "\<And>p. p \<in> set ps \<Longrightarrow> p_instance p \<noteq> - 1"
  shows "p_instance p < next_instance ps"
proof -
  obtain q qs where ps: "ps = q # qs" using assms(1) by (cases ps) auto
  have "p_instance p + 1 \<le> next_instance ps"
    using assms(1) foldl_max_ge [of "p_instance q + 1" "map (\<lambda>q. p_instance q + 1) qs"]
    by (auto simp: ps next_instance_def)
  with u32_less_Suc [OF assms(2) [OF assms(1)]] show ?thesis by (rule less_le_trans)
qed

section \<open>Properties\<close>


definition scaled_ctx :: ctx where
  "scaled_ctx = ctx_default\<lparr>c_table := \<lparr>procs = [(5, proc_new (\<lambda>_. None) 0 5 1 (app_new ''a.js'')),
     (2, proc_new (\<lambda>_. None) 0 2 0 (app_new ''a.js''))], next_id = 6\<rparr>\<rparr>"


end
