(* ===== verification/Floats.thy ===== *)
theory Floats
  imports Ipc
begin

text \<open>
  The floating point the source uses: quotients of unsigned integers rounded to \<open>f32\<close> (the cpu
  percentage of \<open>src/daemon/worker.rs\<close>) or to \<open>f64\<close> (the sizes of \<open>src/cli/table.rs\<close>), and printing
  with one decimal.  A non-negative float is kept as its 32 bits or as a fraction; rounding is to
  nearest, ties to even, as IEEE 754 and Rust's formatter do it.
\<close>

section \<open>Rounding\<close>

fun bit_length :: "nat \<Rightarrow> nat" where
  "bit_length n = (if n = 0 then 0 else Suc (bit_length (n div 2)))"

declare bit_length.simps [simp del]

definition round_div :: "nat \<Rightarrow> nat \<Rightarrow> nat" where
  "round_div n d =
     (let q = n div d; r = n mod d in if d < 2 * r \<or> (2 * r = d \<and> odd q) then q + 1 else q)"

definition scaled :: "nat \<Rightarrow> nat \<Rightarrow> int \<Rightarrow> nat \<times> nat" where
  "scaled n d e = (if 0 \<le> e then (n, d * 2 ^ nat e) else (n * 2 ^ nat (- e), d))"

text \<open>\<open>n / d\<close> as \<open>m * 2^e\<close> with a significand of \<open>p\<close> bits.\<close>

definition significand :: "nat \<Rightarrow> nat \<Rightarrow> nat \<Rightarrow> nat \<times> int" where
  "significand p n d =
     (let e0 = int (bit_length n) - int (bit_length d) - int p;
          (a, b) = scaled n d e0;
          e = (if 2 ^ p \<le> a div b then e0 + 1 else e0);
          (a', b') = scaled n d e;
          m = round_div a' b'
      in if m = 2 ^ p then (2 ^ (p - 1), e + 1) else (m, e))"

section \<open>\<open>f32\<close>\<close>

definition f32_of_frac :: "nat \<Rightarrow> nat \<Rightarrow> f32" where
  "f32_of_frac n d =
     (if n = 0 then 0
      else (case significand 24 n d of (m, e) \<Rightarrow> of_nat (nat (e + 150) * 2 ^ 23 + (m - 2 ^ 23))))"

text \<open>The value of a finite non-negative \<open>f32\<close> as a fraction.\<close>

definition f32_frac :: "f32 \<Rightarrow> nat \<times> nat" where
  "f32_frac w =
     (let e = unat w div 2 ^ 23; m = unat w mod 2 ^ 23
      in if e = 0 then (m, 2 ^ 149)
         else if 150 \<le> e then ((m + 2 ^ 23) * 2 ^ (e - 150), 1)
         else (m + 2 ^ 23, 2 ^ (150 - e)))"

definition f32_is_zero :: "f32 \<Rightarrow> bool" where
  "f32_is_zero w = (w = 0 \<or> w = 0x80000000)"

definition f32_of_u64 :: "u64 \<Rightarrow> f32" where
  "f32_of_u64 w = f32_of_frac (unat w) 1"

definition f32_mul :: "f32 \<Rightarrow> f32 \<Rightarrow> f32" where
  "f32_mul a b = (case f32_frac a of (n, d) \<Rightarrow> case f32_frac b of (n', d') \<Rightarrow> f32_of_frac (n * n') (d * d'))"

definition f32_div :: "f32 \<Rightarrow> f32 \<Rightarrow> f32" where
  "f32_div a b = (case f32_frac a of (n, d) \<Rightarrow> case f32_frac b of (n', d') \<Rightarrow> f32_of_frac (n * d') (d * n'))"

section \<open>\<open>f64\<close> and printing\<close>

text \<open>\<open>b as f64\<close>, as the integer it stands for.\<close>

definition f64_of_u64 :: "u64 \<Rightarrow> nat" where
  "f64_of_u64 w =
     (if bit_length (unat w) \<le> 53 then unat w
      else (case significand 53 (unat w) 1 of (m, e) \<Rightarrow> m * 2 ^ nat e))"

text \<open>\<open>{:.1}\<close> of a fraction.\<close>

definition show_fixed1 :: "nat \<Rightarrow> nat \<Rightarrow> string" where
  "show_fixed1 n d =
     (let t = round_div (10 * n) d in show_nat (t div 10) @ ''.'' @ show_nat (t mod 10))"

lemmas float_defs =
  bit_length.simps round_div_def scaled_def significand_def f32_of_frac_def f32_frac_def f32_of_u64_def
  f32_mul_def f32_div_def f64_of_u64_def show_fixed1_def show_nat.simps digit_char_def

lemma float_samples:
  "f32_of_u64 100 = 0x42C80000" "f32_div (f32_of_u64 1) (f32_of_u64 3) = 0x3EAAAAAB"
  "round_div (10 * 1) 4 = 2" "round_div (10 * 3) 4 = 8"
  by (simp_all add: float_defs Let_def)

end
