(* ===== verification/Worker.thy ===== *)
theory Worker
  imports Rotate Ops Floats
begin

text \<open>
  \<open>src/daemon/worker.rs\<close>: the periodic worker.  \<open>sample\<close> measures cpu and memory and reports the
  processes over their limit; a tick restarts those and rotates the logs.  What \<open>sysinfo\<close> reports
  for a process id after the refresh is the argument \<open>info\<close>.
\<close>

section \<open>Sampling\<close>

record proc_info =
  pi_cpu :: f32
  pi_accumulated :: u64
  pi_run_time :: u64
  pi_memory :: u64

type_synonym probe = "u32 list \<Rightarrow> u32 \<Rightarrow> proc_info option"

definition backoff_reset_after_ms :: i64 where
  "backoff_reset_after_ms = 30000"

definition worker_interval :: "env_vars \<Rightarrow> u64" where
  "worker_interval ev =
     (let ms = (case Option.bind (ev ''PMR_WORKER_INTERVAL'') parse_u64 of Some n \<Rightarrow> n | None \<Rightarrow> 30000)
      in max ms 50)"

text \<open>The first sample of a process falls back to the average over its lifetime.\<close>

definition sampled_cpu :: "proc_info \<Rightarrow> proc \<Rightarrow> f32" where
  "sampled_cpu i p =
     (if f32_is_zero (pi_cpu i) \<and> m_memory (p_monit p) = 0
      then f32_div (f32_mul (f32_of_u64 (pi_accumulated i)) (f32_of_u64 100))
             (f32_of_u64 (max (pi_run_time i) 1 * 1000))
      else pi_cpu i)"

definition over_limit :: "proc_info \<Rightarrow> proc \<Rightarrow> bool" where
  "over_limit i p = (case ac_max_memory_restart (p_config p) of Some l \<Rightarrow> l < pi_memory i | None \<Rightarrow> False)"

definition backoff_settled :: "i64 \<Rightarrow> proc \<Rightarrow> bool" where
  "backoff_settled now p =
     (p_status p = Online \<and> 0 < p_prev_delay p \<and>
      (case p_uptime_ms p of Some u \<Rightarrow> i64_less backoff_reset_after_ms (now - u) | None \<Rightarrow> False))"

definition sample_row :: "i64 \<Rightarrow> (u32 \<Rightarrow> proc_info option) \<Rightarrow> proc \<Rightarrow> proc" where
  "sample_row now info p =
     (if p_pid p = 0 then p\<lparr>p_monit := monit_default\<rparr>
      else
        let p' = (case info (p_pid p) of
                    Some i \<Rightarrow> p\<lparr>p_monit := \<lparr>m_cpu = sampled_cpu i p, m_memory = pi_memory i\<rparr>\<rparr>
                  | None \<Rightarrow> p)
        in if backoff_settled now p' then p'\<lparr>p_prev_delay := 0\<rparr> else p')"

definition row_is_over :: "(u32 \<Rightarrow> proc_info option) \<Rightarrow> proc \<Rightarrow> bool" where
  "row_is_over info p =
     (p_pid p \<noteq> 0 \<and> (case info (p_pid p) of Some i \<Rightarrow> over_limit i p | None \<Rightarrow> False))"

text \<open>The rate gate: \<open>gap\<close> is sysinfo's minimum interval plus 50; \<open>raced\<close> says that another sampler
  has moved the time stamp between the load and the exchange.\<close>

definition sample_gate :: "bool \<Rightarrow> i64 \<Rightarrow> i64 \<Rightarrow> bool \<Rightarrow> ctx \<Rightarrow> bool" where
  "sample_gate force now gap raced c =
     (force \<or>
      (\<not> (\<not> i64_less (now - c_last_sample_ms c) 0 \<and> i64_less (now - c_last_sample_ms c) gap) \<and> \<not> raced))"

definition live_pids :: "ctx \<Rightarrow> u32 list" where
  "live_pids c = map p_pid (filter (\<lambda>p. p_pid p \<noteq> 0) (map snd (hm_rows (procs (c_table c)))))"

definition refresh_pids :: "ctx \<Rightarrow> u32 list" where
  "refresh_pids c = live_pids c @ filter (\<lambda>i. i \<notin> set (live_pids c)) (c_prev_sample_pids c)"

definition sample :: "bool \<Rightarrow> i64 \<Rightarrow> i64 \<Rightarrow> bool \<Rightarrow> probe \<Rightarrow> ctx \<Rightarrow> u32 list \<times> ctx" where
  "sample force now gap raced probe c =
     (if \<not> sample_gate force now gap raced c then ([], c)
      else
        let pids = refresh_pids c;
            c1 = c\<lparr>c_last_sample_ms := now, c_prev_sample_pids := live_pids c\<rparr>
        in if pids = [] then ([], c1)
           else
             let info = probe pids; t = c_table c1
             in (map p_pm_id (filter (row_is_over info) (map snd (hm_rows (procs t)))),
                 c1\<lparr>c_table := t\<lparr>procs := map (\<lambda>(k, p). (k, sample_row now info p)) (procs t)\<rparr>\<rparr>))"

section \<open>A tick\<close>

definition worker_tick ::
    "env_vars \<Rightarrow> bool \<Rightarrow> (string \<Rightarrow> string \<Rightarrow> bool) \<Rightarrow> (string \<Rightarrow> bool) \<Rightarrow> i64 \<Rightarrow> i64 \<Rightarrow> probe \<Rightarrow> ctx \<Rightarrow>
     request list \<times> ctx" where
  "worker_tick ev tty can_rename can_open now gap probe c =
     (case sample True now gap False probe c of
        (over, c1) \<Rightarrow>
          (map RqRestart over, rotate_logs ev tty can_rename can_open c1))"

section \<open>What sampling changes\<close>

lemma hm_get_map_values: "hm_get (map (\<lambda>(k, v). (k, f v)) m) i = map_option f (hm_get m i)"
  by (induction m) (auto simp: hm_get_def)

lemma sample_row_fields [simp]:
  "p_pm_id (sample_row now info p) = p_pm_id p" "p_pid (sample_row now info p) = p_pid p"
  "p_status (sample_row now info p) = p_status p" "p_cmd_tx (sample_row now info p) = p_cmd_tx p"
  "p_config (sample_row now info p) = p_config p" "p_restarts (sample_row now info p) = p_restarts p"
  "p_unstable (sample_row now info p) = p_unstable p" "p_created_at (sample_row now info p) = p_created_at p"
  by (auto simp: sample_row_def Let_def split: option.split)

lemma refresh_pids_Nil: "refresh_pids c = [] \<Longrightarrow> live_pids c = []"
  by (simp add: refresh_pids_def)

text \<open>What a measurement makes of a row, field by field.\<close>

definition measured :: "(u32 \<Rightarrow> proc_info option) \<Rightarrow> proc \<Rightarrow> monit" where
  "measured info p =
     (if p_pid p = 0 then monit_default
      else case info (p_pid p) of Some j \<Rightarrow> \<lparr>m_cpu = sampled_cpu j p, m_memory = pi_memory j\<rparr> | None \<Rightarrow> p_monit p)"

definition long_online :: "i64 \<Rightarrow> proc \<Rightarrow> bool" where
  "long_online now p \<longleftrightarrow>
     p_pid p \<noteq> 0 \<and> p_status p = Online \<and> (\<exists>u. p_uptime_ms p = Some u \<and> 30000 < sint (now - u))"

lemma backoff_settled_iff:
  "backoff_settled now p \<longleftrightarrow> p_status p = Online \<and> p_prev_delay p \<noteq> 0 \<and> (\<exists>u. p_uptime_ms p = Some u \<and> 30000 < sint (now - u))"
  by (auto simp: backoff_settled_def i64_less_def backoff_reset_after_ms_def word_gt_0 split: option.split)

lemma sample_row_fieldwise:
  "sample_row now info = (\<lambda>p. p\<lparr>p_monit := measured info p, p_prev_delay := (if long_online now p then 0 else p_prev_delay p)\<rparr>)"
proof
  fix p
  show "sample_row now info p = p\<lparr>p_monit := measured info p, p_prev_delay := (if long_online now p then 0 else p_prev_delay p)\<rparr>"
  proof (cases "p_pid p = 0")
    case True
    then show ?thesis by (simp add: sample_row_def measured_def long_online_def)
  next
    case False
    define q where "q = p\<lparr>p_monit := measured info p\<rparr>"
    have q: "(case info (p_pid p) of Some i \<Rightarrow> p\<lparr>p_monit := \<lparr>m_cpu = sampled_cpu i p, m_memory = pi_memory i\<rparr>\<rparr> | None \<Rightarrow> p) = q"
      using False by (simp add: q_def measured_def split: option.split)
    have "backoff_settled now q \<longleftrightarrow> long_online now p \<and> p_prev_delay p \<noteq> 0"
      using False by (auto simp: backoff_settled_iff long_online_def q_def)
    then show ?thesis using False by (auto simp: sample_row_def q Let_def) (auto simp: q_def)
  qed
qed

lemma row_is_over_iff:
  "row_is_over info p \<longleftrightarrow> p_pid p \<noteq> 0 \<and> (\<exists>inf l. info (p_pid p) = Some inf
    \<and> ac_max_memory_restart (p_config p) = Some l \<and> l < pi_memory inf)"
  by (cases "info (p_pid p)"; cases "ac_max_memory_restart (p_config p)") (auto simp: row_is_over_def over_limit_def)

text \<open>C34: A sample that is not skipped (it is forced, or the last one is at least \<open>gap\<close> ms ago or in the future and no
  other sampler won the race) reports exactly the processes that run and use more memory than their
  \<open>max_memory_restart\<close>.  In every row it sets the measurements, resets the backoff delay of a process that has
  been online for more than 30 seconds, and changes nothing else; without any process to measure the
  rows stay as they are.  A sample that is skipped reports and changes nothing.\<close>
theorem sample_reports_memory_hogs:
  assumes "wf_table (c_table c)" "sample force now gap raced probe c = (over, c')"
  shows "if force \<or> \<not> raced \<and> (sint (now - c_last_sample_ms c) < 0 \<or> sint gap \<le> sint (now - c_last_sample_ms c))
    then (i \<in> set over \<longleftrightarrow>
        (\<exists>p inf l. row_of c i = Some p \<and> p_pid p \<noteq> 0 \<and> probe (refresh_pids c) (p_pid p) = Some inf
          \<and> ac_max_memory_restart (p_config p) = Some l \<and> l < pi_memory inf))
      \<and> row_of c' i = (if refresh_pids c = [] then row_of c i
          else map_option (\<lambda>p. p\<lparr>p_monit := measured (probe (refresh_pids c)) p,
            p_prev_delay := (if long_online now p then 0 else p_prev_delay p)\<rparr>) (row_of c i))
    else over = [] \<and> c' = c"
proof -
  have good: "hm_good (procs (c_table c))" and key: "\<And>k p. row_of c k = Some p \<Longrightarrow> p_pm_id p = k"
    using assms(1) by (auto simp: wf_table_def)
  have gate: "sample_gate force now gap raced c \<longleftrightarrow>
      force \<or> \<not> raced \<and> (sint (now - c_last_sample_ms c) < 0 \<or> sint gap \<le> sint (now - c_last_sample_ms c))"
    by (auto simp: sample_gate_def i64_less_def)
  show ?thesis
  proof (cases "sample_gate force now gap raced c")
    case False
    with assms(2) show ?thesis unfolding gate [symmetric] by (simp add: sample_def)
  next
    case passed: True
    show ?thesis
    proof (cases "refresh_pids c = []")
      case True
      have idle: "p_pid p = 0" if "row_of c i = Some p" for p
      proof -
        have "p \<in> set (map snd (hm_rows (procs (c_table c))))" using hm.values_iff [OF good] that by blast
        with refresh_pids_Nil [OF True] show ?thesis by (force simp: live_pids_def filter_empty_conv)
      qed
      have "over = []" "row_of c' i = row_of c i"
        using True passed assms(2) by (auto simp: sample_def Let_def)
      with idle passed True show ?thesis unfolding gate [symmetric] by auto
    next
      case False
      let ?info = "probe (refresh_pids c)"
      from False passed assms(2) have over: "over = map p_pm_id (filter (row_is_over ?info) (map snd (hm_rows (procs (c_table c)))))"
        and row': "row_of c' i = map_option (sample_row now ?info) (row_of c i)"
        by (auto simp: sample_def Let_def hm_get_map_values)
      have "i \<in> set over \<longleftrightarrow> (\<exists>p. p \<in> set (map snd (hm_rows (procs (c_table c)))) \<and> row_is_over ?info p \<and> p_pm_id p = i)"
        unfolding over by auto
      also have "\<dots> \<longleftrightarrow> (\<exists>p. row_of c i = Some p \<and> row_is_over ?info p)"
        using hm.values_iff [OF good] key by metis
      also have "\<dots> \<longleftrightarrow> (\<exists>p inf l. row_of c i = Some p \<and> p_pid p \<noteq> 0 \<and> ?info (p_pid p) = Some inf
          \<and> ac_max_memory_restart (p_config p) = Some l \<and> l < pi_memory inf)"
        by (auto simp: row_is_over_iff)
      finally have hogs: "i \<in> set over \<longleftrightarrow> (\<exists>p inf l. row_of c i = Some p \<and> p_pid p \<noteq> 0 \<and> ?info (p_pid p) = Some inf
          \<and> ac_max_memory_restart (p_config p) = Some l \<and> l < pi_memory inf)" .
      from passed hogs row' False show ?thesis
        unfolding gate [symmetric] by (simp only: sample_row_fieldwise if_True if_False simp_thms)
    qed
  qed
qed

definition sample_probe :: probe where
  "sample_probe pids i = (if i = 7 then Some \<lparr>pi_cpu = 0, pi_accumulated = 1, pi_run_time = 1, pi_memory = 300\<rparr> else None)"

definition hog_ctx :: ctx where
  "hog_ctx = \<lparr> c_table = \<lparr>procs = [(4, (proc_new (\<lambda>_. None) 0 4 0
        (app_with_max_memory_restart (app_new ''a.js'') 200))\<lparr>p_pid := 7\<rparr>)], next_id = 5\<rparr>,
     c_bus = [], c_log_generation = 0, c_shutting_down = False, c_shutdown_sent = False, c_watchers = [],
     c_last_sample_ms = 0, c_prev_sample_pids = [], c_files = [], c_aborted = [] \<rparr>"

lemma sample_reports_memory_hogs_witness: "4 \<in> set (fst (sample True 9 250 False sample_probe hog_ctx))"
proof -
  have wf: "wf_table (c_table hog_ctx)" by (auto simp: wf_table_def hog_ctx_def hm_good_def hm_get_def)
  obtain over c' where s: "sample True 9 250 False sample_probe hog_ctx = (over, c')"
    by (cases "sample True 9 250 False sample_probe hog_ctx")
  from sample_reports_memory_hogs [OF wf s, of 4] show ?thesis
    unfolding s by (simp add: hog_ctx_def hm_get_def sample_probe_def app_with_max_memory_restart_def)
qed

end
