(* ===== verification/Logs.thy ===== *)
theory Logs
  imports State
begin

text \<open>
  \<open>src/daemon/logs.rs\<close>: reading a child's output in chunks, splitting it into lines, writing them
  to the log file and publishing them on the bus.  A reader is what is left of its buffer and the
  chunks \<open>fill_buf\<close> will still deliver; an \<open>Inl\<close> chunk is a read error, the end of the list is the
  end of the file.  \<open>from_utf8_lossy\<close> works on bytes.
\<close>

section \<open>Lossy UTF-8\<close>

definition byte :: "char \<Rightarrow> nat" where
  "byte c = of_char c"

definition in_range :: "nat \<Rightarrow> nat \<Rightarrow> string \<Rightarrow> nat \<Rightarrow> bool" where
  "in_range lo hi s i = (i < length s \<and> lo \<le> byte (s ! i) \<and> byte (s ! i) \<le> hi)"

text \<open>The second byte a leading byte allows, and how many bytes it starts.\<close>

definition second_range :: "nat \<Rightarrow> nat \<times> nat" where
  "second_range b =
     (if b = 224 then (160, 191) else if b = 237 then (128, 159)
      else if b = 240 then (144, 191) else if b = 244 then (128, 143) else (128, 191))"

definition char_width :: "nat \<Rightarrow> nat" where
  "char_width b =
     (if b < 128 then 1 else if 194 \<le> b \<and> b \<le> 223 then 2 else if 224 \<le> b \<and> b \<le> 239 then 3
      else if 240 \<le> b \<and> b \<le> 244 then 4 else 0)"

text \<open>The next character of a non-empty text, or the invalid sequence it starts with.\<close>

definition utf8_next :: "string \<Rightarrow> bool \<times> nat" where
  "utf8_next s =
     (let b = byte (hd s); w = char_width b; (lo, hi) = second_range b
      in if w = 0 then (False, 1)
         else if w = 1 then (True, 1)
         else if \<not> in_range lo hi s 1 then (False, 1)
         else if w = 2 then (True, 2)
         else if \<not> in_range 128 191 s 2 then (False, 2)
         else if w = 3 then (True, 3)
         else if \<not> in_range 128 191 s 3 then (False, 3)
         else (True, 4))"

definition replacement :: string where
  "replacement = [char_of (239 :: nat), char_of (191 :: nat), char_of (189 :: nat)]"

lemma utf8_next_pos: "0 < snd (utf8_next s)"
  by (auto simp: utf8_next_def Let_def split: prod.split)

lemma utf8_next_pos': "(ok, n) = utf8_next s \<Longrightarrow> 0 < n"
  using utf8_next_pos [of s] by (metis snd_conv)

function from_utf8_lossy :: "string \<Rightarrow> string" where
  "from_utf8_lossy s =
     (if s = [] then []
      else (case utf8_next s of (ok, n) \<Rightarrow>
        (if ok then take n s else replacement) @ from_utf8_lossy (drop n s)))"
  by pat_completeness auto
termination
  by (relation "measure length") (auto dest: utf8_next_pos')

declare from_utf8_lossy.simps [simp del]

section \<open>Lines\<close>

definition newline :: char where
  "newline = CHR 0x0A"

definition max_line :: nat where
  "max_line = 1024 * 1024"

definition max_bus_line :: nat where
  "max_bus_line = 8 * 1024"

definition read_buf :: nat where
  "read_buf = 64 * 1024"

record reader =
  rd_buf :: string
  rd_chunks :: "(unit, string) result list"

text \<open>\<open>position\<close> of the first newline: the text before it, and after it.\<close>

fun cut_line :: "string \<Rightarrow> (string \<times> string) option" where
  "cut_line [] = None"
| "cut_line (c # s) =
     (if c = newline then Some ([], s)
      else (case cut_line s of Some (a, b) \<Rightarrow> Some (c # a, b) | None \<Rightarrow> None))"

text \<open>\<open>fill_buf\<close>: the unread bytes, or the next chunk; the empty text at the end of the file.\<close>

type_synonym chunk = "(unit, string) result"

definition fill_buf :: "string \<Rightarrow> chunk list \<Rightarrow> chunk \<times> chunk list" where
  "fill_buf buf cs =
     (if buf \<noteq> [] then (Inr buf, cs)
      else (case cs of [] \<Rightarrow> (Inr [], []) | r # cs' \<Rightarrow> (r, cs')))"

text \<open>The loop of \<open>read_capped_line\<close> on raw bytes: the line, the reader and the accumulator after it.
  \<open>cap\<close> is \<open>MAX_LINE\<close>.\<close>

function read_raw :: "nat \<Rightarrow> string \<Rightarrow> chunk list \<Rightarrow> string \<Rightarrow> string option \<times> reader \<times> string" where
  "read_raw cap buf cs acc =
     (case fill_buf buf cs of
        (Inl _, cs') \<Rightarrow> (None, \<lparr>rd_buf = [], rd_chunks = cs'\<rparr>, acc)
      | (Inr b, cs') \<Rightarrow>
          if b = [] then (if acc = [] then None else Some acc, \<lparr>rd_buf = [], rd_chunks = cs'\<rparr>, [])
          else (case cut_line b of
                  Some (l, rest) \<Rightarrow> (Some (acc @ l), \<lparr>rd_buf = rest, rd_chunks = cs'\<rparr>, [])
                | None \<Rightarrow>
                    if cap \<le> length (acc @ b) then (Some (acc @ b), \<lparr>rd_buf = [], rd_chunks = cs'\<rparr>, [])
                    else read_raw cap [] cs' (acc @ b)))"
  by pat_completeness auto
termination
  by (relation "measure (\<lambda>(cap, buf, cs, acc). length cs + (if buf = [] then 0 else 1))")
    (auto simp: fill_buf_def split: if_splits list.splits)

declare read_raw.simps [simp del]

definition read_capped_line :: "reader \<Rightarrow> string \<Rightarrow> string option \<times> reader \<times> string" where
  "read_capped_line rd acc =
     (case read_raw max_line (rd_buf rd) (rd_chunks rd) acc of
        (l, rd', acc') \<Rightarrow> (map_option from_utf8_lossy l, rd', acc'))"

text \<open>Reading to the end: what \<open>pump_stream\<close>'s loop gets, before the lossy decoding.\<close>

fun chunk_bytes :: "chunk \<Rightarrow> string" where
  "chunk_bytes (Inr b) = b"
| "chunk_bytes (Inl e) = []"

definition left_bytes :: "reader \<Rightarrow> string" where
  "left_bytes rd = rd_buf rd @ concat (map chunk_bytes (rd_chunks rd))"

definition reader_size :: "reader \<Rightarrow> nat" where
  "reader_size rd = length (left_bytes rd) + length (rd_chunks rd)"

lemma cut_line_Some: "cut_line s = Some (l, r) \<Longrightarrow> s = l @ newline # r \<and> newline \<notin> set l"
  by (induction s arbitrary: l) (auto split: if_splits option.splits)

lemma cut_line_None: "cut_line s = None \<longleftrightarrow> newline \<notin> set s"
  by (induction s) (auto split: option.split)

lemma fill_buf_bytes:
  assumes "fill_buf buf cs = (Inr b, cs')"
  shows "buf @ concat (map chunk_bytes cs) = b @ concat (map chunk_bytes cs')"
    "length cs' \<le> length cs" "b = [] \<Longrightarrow> buf = []"
  using assms by (auto simp: fill_buf_def split: if_splits list.splits)

text \<open>One line: what it is made of, and that something was consumed.\<close>

lemma read_raw_line:
  assumes "read_raw cap buf cs acc = (Some l, rd', acc')"
  shows "acc' = [] \<and> newline \<notin> set (drop (length acc) l) \<and> take (length acc) l = acc
    \<and> length acc \<le> length l
    \<and> reader_size rd' + (if acc = [] then 1 else 0) \<le> reader_size \<lparr>rd_buf = buf, rd_chunks = cs\<rparr>"
  using assms
proof (induction cap buf cs acc rule: read_raw.induct)
  case (1 cap buf cs acc)
  obtain b cs' where f: "fill_buf buf cs = (Inr b, cs')"
    using 1(2) by (subst (asm) read_raw.simps) (auto split: prod.splits sum.splits)
  note bytes = fill_buf_bytes [OF f]
  show ?case
  proof (cases "b = []")
    case True
    with 1(2) f bytes show ?thesis
      by (subst (asm) read_raw.simps) (auto simp: reader_size_def left_bytes_def split: if_splits)
  next
    case False
    show ?thesis
    proof (cases "cut_line b")
      case (Some p)
      with 1(2) f False bytes cut_line_Some [of b "fst p" "snd p"] show ?thesis
        by (subst (asm) read_raw.simps) (auto simp: reader_size_def left_bytes_def split: prod.splits)
    next
      case None
      show ?thesis
      proof (cases "cap \<le> length (acc @ b)")
        case True
        obtain x xs where "b = x # xs" using False by (cases b) auto
        with True 1(2) f False bytes None cut_line_None [of b] show ?thesis
          by (subst (asm) read_raw.simps) (auto simp: reader_size_def left_bytes_def)
      next
        case long: False
        have rec: "read_raw cap [] cs' (acc @ b) = (Some l, rd', acc')"
          using 1(2) f False None long by (subst (asm) read_raw.simps) auto
        have len: "length (acc @ b) \<le> length l" "take (length (acc @ b)) l = acc @ b"
          "newline \<notin> set (drop (length (acc @ b)) l)" "acc' = []"
          "reader_size rd' \<le> reader_size \<lparr>rd_buf = [], rd_chunks = cs'\<rparr>"
          using 1(1) [OF f [symmetric] refl False None long rec] by (auto split: if_splits)
        have "take (length acc) l = take (length acc) (take (length (acc @ b)) l)" by simp
        also have "\<dots> = acc" unfolding len(2) by simp
        finally have "take (length acc) l = acc" .
        moreover have "drop (length acc) l = b @ drop (length (acc @ b)) l"
          using len(2) by (metis append_take_drop_id append.assoc append_eq_conv_conj calculation same_append_eq)
        ultimately show ?thesis
          using len bytes False None cut_line_None [of b]
          by (cases b) (auto simp: reader_size_def left_bytes_def)
      qed
    qed
  qed
qed


function read_all :: "nat \<Rightarrow> reader \<Rightarrow> string list" where
  "read_all cap rd =
     (case read_raw cap (rd_buf rd) (rd_chunks rd) [] of
        (None, _, _) \<Rightarrow> []
      | (Some l, rd', _) \<Rightarrow> l # read_all cap rd')"
  by pat_completeness auto
termination
proof (relation "measure (\<lambda>(cap, rd). reader_size rd)", goal_cases)
  case (2 cap rd x y a rd' acc')
  then show ?case using read_raw_line [of cap "rd_buf rd" "rd_chunks rd" "[]" a rd' acc'] by (cases rd) auto
qed simp

declare read_all.simps [simp del]

section \<open>Chunks do not matter\<close>

text \<open>An output that comes without read errors.\<close>

definition clean :: "chunk list \<Rightarrow> bool" where
  "clean cs = list_all (\<lambda>c. \<exists>b. c = Inr b \<and> b \<noteq> []) cs"

lemma fill_buf_clean:
  "clean cs \<Longrightarrow> \<exists>b cs'. fill_buf buf cs = (Inr b, cs') \<and> clean cs' \<and> (b = [] \<longrightarrow> cs = [] \<and> cs' = [])"
  by (cases cs) (auto simp: fill_buf_def clean_def)

lemma cut_line_append:
  "newline \<notin> set a \<Longrightarrow> cut_line (a @ s) = map_option (\<lambda>(l, r). (a @ l, r)) (cut_line s)"
  by (induction a) (auto simp: option.map_id split: option.split)

lemma cut_line_append_left:
  "cut_line a = Some (l, r) \<Longrightarrow> cut_line (a @ s) = Some (l, r @ s)"
  by (induction a arbitrary: l) (auto split: if_splits option.splits)

text \<open>What one call delivers, whatever the chunks: the next line of the whole remaining text.\<close>

definition next_line :: "string \<Rightarrow> string option \<times> string" where
  "next_line s =
     (case cut_line s of
        Some (l, r) \<Rightarrow> (Some l, r)
      | None \<Rightarrow> (if s = [] then None else Some s, []))"

definition line_fits :: "nat \<Rightarrow> string \<Rightarrow> bool" where
  "line_fits cap s = (length (case cut_line s of Some (l, r) \<Rightarrow> l | None \<Rightarrow> s) < cap)"

lemma read_raw_next_line:
  assumes "clean cs" "newline \<notin> set acc" "line_fits cap (acc @ buf @ concat (map chunk_bytes cs))"
  shows "\<exists>rd'. read_raw cap buf cs acc = (fst (next_line (acc @ buf @ concat (map chunk_bytes cs))), rd', [])
    \<and> left_bytes rd' = snd (next_line (acc @ buf @ concat (map chunk_bytes cs))) \<and> clean (rd_chunks rd')"
  using assms
proof (induction cap buf cs acc rule: read_raw.induct)
  case (1 cap buf cs acc)
  obtain b cs' where f: "fill_buf buf cs = (Inr b, cs')" "clean cs'" and eof: "b = [] \<Longrightarrow> cs = [] \<and> cs' = []"
    using fill_buf_clean [OF 1(2), of buf] by blast
  let ?rest = "concat (map chunk_bytes cs')"
  have all: "acc @ buf @ concat (map chunk_bytes cs) = acc @ b @ ?rest"
    using fill_buf_bytes(1) [OF f(1)] by simp
  note acc = cut_line_append [OF 1(3)]
  show ?case
  proof (cases "b = []")
    case True
    with eof f 1(3) show ?thesis
      unfolding all
      by (subst read_raw.simps) (auto simp: next_line_def left_bytes_def clean_def cut_line_None [THEN iffD2])
  next
    case False
    show ?thesis
    proof (cases "cut_line b")
      case (Some p)
      obtain l r where p: "p = (l, r)" by (cases p)
      have "cut_line (acc @ b @ ?rest) = Some (acc @ l, r @ ?rest)"
        using Some p acc cut_line_append_left [of b l r ?rest] by simp
      with Some p f False show ?thesis
        unfolding all by (subst read_raw.simps) (simp add: next_line_def left_bytes_def)
    next
      case None
      have nb: "newline \<notin> set (acc @ b)" using None 1(3) cut_line_None [of b] by simp
      have short: "\<not> cap \<le> length (acc @ b)"
        using 1(4) cut_line_append [OF nb, of ?rest] unfolding all line_fits_def
        by (auto split: option.splits)
      have "read_raw cap buf cs acc = read_raw cap [] cs' (acc @ b)"
        using f False None short by (subst read_raw.simps) simp
      with 1(1) [OF f(1) [symmetric] refl False None short f(2) nb] 1(4) show ?thesis
        unfolding all by simp
    qed
  qed
qed

text \<open>The lines of a text: what newlines separate, without an empty last one.\<close>

definition text_lines :: "string \<Rightarrow> string list" where
  "text_lines s = (let ls = split_on newline s in if last ls = [] then butlast ls else ls)"

lemma text_lines_next:
  "text_lines s = (case next_line s of (None, r) \<Rightarrow> [] | (Some l, r) \<Rightarrow> l # text_lines r)"
proof (cases "cut_line s")
  case None
  then show ?thesis using cut_line_None [of s] by (auto simp: next_line_def text_lines_def split_on_notin)
next
  case (Some p)
  obtain l r where p: "p = (l, r)" by (cases p)
  with Some cut_line_Some [of s l r] have s: "s = l @ newline # r" "newline \<notin> set l" by auto
  then have "split_on newline s = l # split_on newline r" by (simp add: split_on_append split_on_notin)
  with Some p show ?thesis by (simp add: next_line_def text_lines_def Let_def)
qed

lemma next_line_shorter: "next_line s = (Some l, r) \<Longrightarrow> length r < length s"
  using cut_line_Some [of s] by (auto simp: next_line_def split: option.splits if_splits)

lemma line_fits_lines:
  "list_all (\<lambda>l. length l < cap) (text_lines s) \<Longrightarrow> s \<noteq> [] \<Longrightarrow> line_fits cap s"
  by (subst (asm) text_lines_next) (auto simp: next_line_def line_fits_def split: option.splits)

section \<open>Nothing is lost\<close>

lemma read_raw_bytes:
  assumes "clean cs" "read_raw cap buf cs acc = (r, rd', acc')"
  shows "clean (rd_chunks rd') \<and>
    (case r of
       Some l \<Rightarrow> filter (\<lambda>c. c \<noteq> newline) (acc @ buf @ concat (map chunk_bytes cs))
         = filter (\<lambda>c. c \<noteq> newline) l @ filter (\<lambda>c. c \<noteq> newline) (left_bytes rd')
     | None \<Rightarrow> acc @ buf @ concat (map chunk_bytes cs) = [])"
  using assms
proof (induction cap buf cs acc rule: read_raw.induct)
  case (1 cap buf cs acc)
  obtain b cs' where f: "fill_buf buf cs = (Inr b, cs')" "clean cs'" and eof: "b = [] \<Longrightarrow> cs = [] \<and> cs' = []"
    using fill_buf_clean [OF 1(2), of buf] by blast
  have all: "buf @ concat (map chunk_bytes cs) = b @ concat (map chunk_bytes cs')"
    using fill_buf_bytes(1) [OF f(1)] .
  show ?case
  proof (cases "b = []")
    case True
    with eof f 1(3) show ?thesis
      unfolding all by (subst (asm) read_raw.simps) (auto simp: left_bytes_def clean_def split: if_splits)
  next
    case False
    show ?thesis
    proof (cases "cut_line b")
      case (Some p)
      with 1(3) f False cut_line_Some [of b "fst p" "snd p"] show ?thesis
        unfolding all by (subst (asm) read_raw.simps) (auto simp: left_bytes_def split: prod.splits)
    next
      case None
      show ?thesis
      proof (cases "cap \<le> length (acc @ b)")
        case True
        with 1(3) f False None show ?thesis
          unfolding all by (subst (asm) read_raw.simps) (auto simp: left_bytes_def)
      next
        case long: False
        have "read_raw cap [] cs' (acc @ b) = (r, rd', acc')"
          using 1(3) f False None long by (subst (asm) read_raw.simps) auto
        from 1(1) [OF f(1) [symmetric] refl False None long f(2) this] show ?thesis
          unfolding all by (cases r) simp_all
      qed
    qed
  qed
qed

lemma read_raw_bound:
  assumes "list_all (\<lambda>c. length (chunk_bytes c) \<le> m) cs" "length buf \<le> m" "length acc < cap \<or> acc = []"
    and "read_raw cap buf cs acc = (Some l, rd', acc')"
  shows "length l \<le> cap + m \<and> list_all (\<lambda>c. length (chunk_bytes c) \<le> m) (rd_chunks rd') \<and> length (rd_buf rd') \<le> m"
  using assms
proof (induction cap buf cs acc rule: read_raw.induct)
  case (1 cap buf cs acc)
  obtain b cs' where f: "fill_buf buf cs = (Inr b, cs')"
    using 1(5) by (subst (asm) read_raw.simps) (auto split: prod.splits sum.splits)
  have small: "length b \<le> m" "list_all (\<lambda>c. length (chunk_bytes c) \<le> m) cs'"
    using f 1(2,3) by (auto simp: fill_buf_def split: if_splits list.splits)
  show ?case
  proof (cases "b = []")
    case True
    with 1(4,5) f small show ?thesis by (subst (asm) read_raw.simps) (auto split: if_splits)
  next
    case False
    show ?thesis
    proof (cases "cut_line b")
      case (Some p)
      with 1(4,5) f False small cut_line_Some [of b "fst p" "snd p"] show ?thesis
        by (subst (asm) read_raw.simps) (auto split: prod.splits)
    next
      case None
      show ?thesis
      proof (cases "cap \<le> length (acc @ b)")
        case True
        with 1(4,5) f False None small show ?thesis by (subst (asm) read_raw.simps) auto
      next
        case long: False
        have "read_raw cap [] cs' (acc @ b) = (Some l, rd', acc')"
          using 1(5) f False None long by (subst (asm) read_raw.simps) auto
        from 1(1) [OF f [symmetric] refl False None long small(2) _ _ this] long show ?thesis by simp
      qed
    qed
  qed
qed

lemma lines_of_chunks:
  assumes "clean (rd_chunks rd)" "list_all (\<lambda>l. length l < cap) (text_lines (left_bytes rd))"
  shows "read_all cap rd = text_lines (left_bytes rd)"
  using assms
proof (induction cap rd rule: read_all.induct)
  case (1 cap rd)
  obtain r rd' acc' where rr: "read_raw cap (rd_buf rd) (rd_chunks rd) [] = (r, rd', acc')"
    by (cases "read_raw cap (rd_buf rd) (rd_chunks rd) []")
  show ?case
  proof (cases "left_bytes rd = []")
    case True
    then have "rd_buf rd = []" "rd_chunks rd = []"
      using 1(2) by (cases "rd_chunks rd"; auto simp: left_bytes_def clean_def)+
    with True show ?thesis
      by (subst read_all.simps, subst read_raw.simps) (simp add: fill_buf_def text_lines_def)
  next
    case False
    have fits: "line_fits cap ([] @ left_bytes rd)" using line_fits_lines [OF 1(3) False] by simp
    note nl = read_raw_next_line [OF 1(2) _ _, of "[]" cap "rd_buf rd"]
    have step: "r = fst (next_line (left_bytes rd))" "left_bytes rd' = snd (next_line (left_bytes rd))"
      "clean (rd_chunks rd')"
      using nl fits rr by (auto simp: left_bytes_def)
    obtain l where l: "r = Some l" using step(1) False by (auto simp: next_line_def split: option.splits)
    have lines: "text_lines (left_bytes rd) = l # text_lines (left_bytes rd')"
      using step l by (subst text_lines_next) (auto split: prod.splits)
    have "read_all cap rd' = text_lines (left_bytes rd')"
      using 1(1) [OF rr [symmetric, unfolded l] _ refl] step(3) 1(3) lines by simp
    with rr l lines show ?thesis by (subst read_all.simps) simp
  qed
qed

section \<open>Properties\<close>

text \<open>C25: However the child's output is cut into chunks, the lines the pump reads from it are the lines
  of the output, provided each is shorter than the cap and reading never fails.\<close>
theorem lines_are_chunk_independent:
  assumes "clean (rd_chunks rd)" "list_all (\<lambda>l. length l < cap) (text_lines (left_bytes rd))"
  shows "read_all cap rd = text_lines (left_bytes rd)"
  using assms by (rule lines_of_chunks)

definition sample_reader :: reader where
  "sample_reader = \<lparr>rd_buf = ''a'', rd_chunks = [Inr ''b'', Inr ([newline] @ ''c''), Inr ''d'']\<rparr>"

lemma lines_are_chunk_independent_witness:
  "text_lines (left_bytes sample_reader) = [''ab'', ''cd''] \<and> read_all max_line sample_reader = [''ab'', ''cd'']"
proof -
  have lines: "text_lines (left_bytes sample_reader) = [''ab'', ''cd'']" by code_simp
  have "clean (rd_chunks sample_reader)" by (simp add: clean_def sample_reader_def)
  from lines_are_chunk_independent [OF this, of max_line] lines show ?thesis by (simp add: max_line_def)
qed

end
