(* ===== verification/Utf8.thy ===== *)
theory Utf8
  imports Logs
begin

text \<open>
  Well-formed UTF-8, and the copy of a log line that goes to the event bus
  (\<open>src/daemon/logs.rs\<close>, the truncation in \<open>pump_stream\<close>).
\<close>

section \<open>Well-formed text\<close>

function utf8_valid :: "string \<Rightarrow> bool" where
  "utf8_valid s =
     (if s = [] then True
      else (case utf8_next s of (ok, n) \<Rightarrow> if ok then utf8_valid (drop n s) else False))"
  by pat_completeness auto
termination
  by (relation "measure length") (auto dest: utf8_next_pos')

declare utf8_valid.simps [simp del]

lemma is_char_boundary_iff:
  "is_char_boundary s i = (i = 0 \<or> i = length s \<or> (i < length s \<and> \<not> in_range 128 191 s i))"
proof -
  have "is_cont c = (128 \<le> byte c \<and> byte c \<le> 191)" for c
    by (auto simp: is_cont_def byte_def)
  then show ?thesis by (auto simp: is_char_boundary_def in_range_def)
qed

text \<open>The downward search of \<open>pump_stream\<close> for a boundary.\<close>

fun boundary_below :: "string \<Rightarrow> nat \<Rightarrow> nat" where
  "boundary_below s 0 = 0"
| "boundary_below s (Suc n) = (if is_char_boundary s (Suc n) then Suc n else boundary_below s n)"

definition ellipsis :: string where
  "ellipsis = [char_of (226 :: nat), char_of (128 :: nat), char_of (166 :: nat)]"

definition bus_line :: "string \<Rightarrow> string" where
  "bus_line l =
     (if max_bus_line < length l then take (boundary_below l max_bus_line) l @ ellipsis else l)"

lemma in_range_append: "i < length s \<Longrightarrow> in_range lo hi (s @ t) i = in_range lo hi s i"
  by (simp add: in_range_def nth_append)

lemma in_range_take: "in_range lo hi (take n s) i = (i < n \<and> in_range lo hi s i)"
  by (auto simp: in_range_def)

lemma second_range_continues: "second_range b = (lo, hi) \<Longrightarrow> 128 \<le> lo \<and> hi \<le> 191"
  by (auto simp: second_range_def split: if_splits)

lemma char_width_le: "char_width b \<le> 4"
  by (simp add: char_width_def)

text \<open>What \<open>utf8_next\<close> accepts: the width of the first byte, all there, and the others continue it.\<close>

lemma utf8_next_iff:
  assumes "second_range (byte (hd s)) = (lo, hi)"
  shows "utf8_next s = (True, n) \<longleftrightarrow> n = char_width (byte (hd s)) \<and> 0 < n \<and> (1 < n \<longrightarrow> in_range lo hi s 1)
    \<and> (2 < n \<longrightarrow> in_range 128 191 s 2) \<and> (3 < n \<longrightarrow> in_range 128 191 s 3)"
proof -
  have "char_width (byte (hd s)) \<in> {0, 1, 2, 3, 4}" by (simp add: char_width_def)
  with assms show ?thesis by (auto simp: utf8_next_def split: if_splits)
qed

lemma in_range_mono: "in_range a b s i \<Longrightarrow> c \<le> a \<Longrightarrow> b \<le> d \<Longrightarrow> in_range c d s i"
  by (auto simp: in_range_def)

lemma utf8_next_ok:
  assumes "utf8_next s = (True, n)" "s \<noteq> []"
  shows "n = char_width (byte (hd s))" "0 < n" "n \<le> length s" "\<And>i. 0 < i \<Longrightarrow> i < n \<Longrightarrow> in_range 128 191 s i"
proof -
  obtain lo hi where r: "second_range (byte (hd s)) = (lo, hi)" by (cases "second_range (byte (hd s))")
  note w = assms(1) [unfolded utf8_next_iff [OF r]]
  from w show "n = char_width (byte (hd s))" "0 < n" by auto
  show all: "in_range 128 191 s i" if "0 < i" "i < n" for i
  proof -
    have "i = 1 \<or> i = 2 \<or> i = 3" using w that char_width_le [of "byte (hd s)"] by auto
    with w that in_range_mono [of lo hi s 1 128 191] second_range_continues [OF r] show ?thesis by auto
  qed
  show "n \<le> length s"
  proof (cases "1 < n")
    case True
    with all [of "n - 1"] show ?thesis by (auto simp: in_range_def)
  next
    case False
    with assms(2) show ?thesis by (cases s) auto
  qed
qed

text \<open>It looks no further than the character.\<close>

lemma utf8_next_take:
  assumes "utf8_next s = (True, n)" "s \<noteq> []" "n \<le> m"
  shows "utf8_next (take m s @ t) = (True, n)"
proof -
  note ok = utf8_next_ok [OF assms(1,2)]
  obtain lo hi where r: "second_range (byte (hd s)) = (lo, hi)" by (cases "second_range (byte (hd s))")
  have hd: "hd (take m s @ t) = hd s" using assms(2,3) ok(2) by (cases s; cases m) auto
  have same: "in_range a b (take m s @ t) i = in_range a b s i" if "i < n" for i a b
    using that ok(3) assms(3) by (simp add: in_range_append in_range_take)
  have r': "second_range (byte (hd (take m s @ t))) = (lo, hi)" unfolding hd by (rule r)
  show ?thesis
    using assms(1) unfolding utf8_next_iff [OF r] utf8_next_iff [OF r'] hd by (simp add: same)
qed

lemma utf8_valid_step:
  "utf8_next s = (True, n) \<Longrightarrow> s \<noteq> [] \<Longrightarrow> utf8_valid s = utf8_valid (drop n s)"
  by (subst utf8_valid.simps) simp

lemma utf8_valid_Nil [simp]: "utf8_valid []"
  by (simp add: utf8_valid.simps)

lemma utf8_valid_cases:
  assumes "utf8_valid s" "s \<noteq> []"
  obtains n where "utf8_next s = (True, n)" "0 < n" "n \<le> length s" "utf8_valid (drop n s)"
proof -
  obtain ok n where n: "utf8_next s = (ok, n)" by (cases "utf8_next s")
  with assms utf8_valid.simps [of s] have "utf8_next s = (True, n)" "utf8_valid (drop n s)"
    by (auto split: if_splits)
  with utf8_next_ok [OF this(1) assms(2)] that show ?thesis by blast
qed

lemma utf8_valid_append: "utf8_valid s \<Longrightarrow> utf8_valid t \<Longrightarrow> utf8_valid (s @ t)"
proof (induction "length s" arbitrary: s rule: less_induct)
  case less
  show ?case
  proof (cases "s = []")
    case False
    with less.prems(1) obtain n where n: "utf8_next s = (True, n)" "0 < n" "n \<le> length s" "utf8_valid (drop n s)"
      by (rule utf8_valid_cases)
    have "utf8_next (s @ t) = (True, n)"
      using utf8_next_take [OF n(1) False, of "length s" t] n(3) by simp
    moreover have "utf8_valid (drop n s @ t)" using less.hyps [of "drop n s"] n(2-4) less.prems(2) False by simp
    ultimately show ?thesis using utf8_valid_step [of "s @ t" n] False n(3) by simp
  qed (use less in simp)
qed

lemma utf8_valid_replacement [simp]: "utf8_valid replacement"
  by code_simp

lemma utf8_valid_ellipsis [simp]: "utf8_valid ellipsis"
  by code_simp

lemma utf8_valid_char: "utf8_next s = (True, n) \<Longrightarrow> s \<noteq> [] \<Longrightarrow> utf8_valid (take n s)"
  using utf8_next_take [of s n n "[]"] utf8_valid_step [of "take n s" n] utf8_next_ok(2) [of s n] by simp

lemma utf8_valid_lossy: "utf8_valid (from_utf8_lossy s)"
proof (induction s rule: from_utf8_lossy.induct)
  case (1 s)
  obtain ok n where n: "utf8_next s = (ok, n)" by (cases "utf8_next s")
  with 1 [OF _ n [symmetric]] show ?case
    by (subst from_utf8_lossy.simps) (auto intro!: utf8_valid_append utf8_valid_char)
qed

lemma lossy_valid: "utf8_valid s \<Longrightarrow> from_utf8_lossy s = s"
proof (induction s rule: from_utf8_lossy.induct)
  case (1 s)
  show ?case
  proof (cases "s = []")
    case False
    with 1(2) obtain n where n: "utf8_next s = (True, n)" "utf8_valid (drop n s)"
      by (rule utf8_valid_cases)
    with 1(1) [OF False n(1) [symmetric]] False show ?thesis
      by (subst from_utf8_lossy.simps) simp
  qed (simp add: from_utf8_lossy.simps)
qed

text \<open>Cutting a well-formed text at a boundary.\<close>

lemma utf8_valid_cut:
  "utf8_valid s \<Longrightarrow> is_char_boundary s i \<Longrightarrow> i \<le> length s \<Longrightarrow> utf8_valid (take i s)"
proof (induction "length s" arbitrary: s i rule: less_induct)
  case less
  show ?case
  proof (cases "s = [] \<or> i = 0")
    case False
    then have ne: "s \<noteq> []" "0 < i" by auto
    from less.prems(1) ne(1) obtain n where n: "utf8_next s = (True, n)" "0 < n" "n \<le> length s" "utf8_valid (drop n s)"
      by (rule utf8_valid_cases)
    have "n \<le> i"
    proof (rule ccontr)
      assume "\<not> n \<le> i"
      with utf8_next_ok(4) [OF n(1) ne(1), of i] ne(2) n(3) less.prems(2) show False
        by (auto simp: is_char_boundary_iff)
    qed
    moreover have "is_char_boundary (drop n s) (i - n)"
      using less.prems(2,3) n(3) \<open>n \<le> i\<close> by (auto simp: is_char_boundary_iff in_range_def)
    ultimately have "utf8_valid (take (i - n) (drop n s))"
      using less.hyps [of "drop n s" "i - n"] n(2-4) ne(1) less.prems(3) by simp
    then have "utf8_valid (drop n (take i s))" by (simp add: drop_take)
    moreover have "utf8_next (take i s) = (True, n)"
      using utf8_next_take [OF n(1) ne(1) \<open>n \<le> i\<close>, of "[]"] by simp
    ultimately show ?thesis using utf8_valid_step [of "take i s" n] ne by simp
  qed auto
qed

lemma boundary_below_le: "boundary_below s n \<le> n"
  by (induction n) auto

lemma boundary_below_ok: "is_char_boundary s (boundary_below s n)"
  by (induction n) (auto simp: is_char_boundary_iff)

lemma boundary_near:
  "utf8_valid s \<Longrightarrow> i \<le> length s \<Longrightarrow> \<exists>j. is_char_boundary s j \<and> j \<le> i \<and> i \<le> j + 3"
proof (induction "length s" arbitrary: s i rule: less_induct)
  case less
  show ?case
  proof (cases "s = []")
    case False
    with less.prems(1) obtain n where n: "utf8_next s = (True, n)" "0 < n" "n \<le> length s" "utf8_valid (drop n s)"
      by (rule utf8_valid_cases)
    have le: "n \<le> 4" using utf8_next_ok(1) [OF n(1) False] char_width_le by simp
    show ?thesis
    proof (cases "i < n")
      case True
      with le show ?thesis by (intro exI [of _ 0]) (simp add: is_char_boundary_iff)
    next
      case less_n: False
      have "i - n \<le> length (drop n s)" using less.prems(2) by simp
      with less.hyps [of "drop n s" "i - n"] n(2-4) False obtain j where
        j: "is_char_boundary (drop n s) j" "j \<le> i - n" "i - n \<le> j + 3" by auto
      show ?thesis
      proof (cases "j = 0 \<and> n < length s")
        case True
        obtain m where "utf8_next (drop n s) = (True, m)" "0 < m"
          by (rule utf8_valid_cases [OF n(4)]) (use True in auto)
        with True utf8_next_ok(1) [of "drop n s" m] have "0 < char_width (byte (s ! n))"
          by (simp add: hd_drop_conv_nth)
        then have "is_char_boundary s n" using True by (auto simp: is_char_boundary_iff in_range_def char_width_def split: if_splits)
        with j True less_n show ?thesis by (intro exI [of _ n]) auto
      next
        case False
        then have "is_char_boundary s (n + j)" using j n(3) by (auto simp: is_char_boundary_iff in_range_def)
        with j less_n show ?thesis by (intro exI [of _ "n + j"]) auto
      qed
    qed
  qed (use less in \<open>simp add: is_char_boundary_iff\<close>)
qed

lemma boundary_below_max: "is_char_boundary s j \<Longrightarrow> j \<le> n \<Longrightarrow> j \<le> boundary_below s n"
  by (induction n) (auto simp: le_Suc_eq)

lemma bus_line_utf8:
  fixes raw :: string
  defines "l \<equiv> from_utf8_lossy raw"
  shows "utf8_valid (bus_line l) \<and> length (bus_line l) \<le> 8195
    \<and> (if length l \<le> 8192 then bus_line l = l
       else \<exists>p. 8189 \<le> p \<and> p \<le> 8192 \<and> bus_line l = take p l @ ellipsis)"
proof (cases "length l \<le> 8192")
  case True
  then show ?thesis by (simp add: bus_line_def max_bus_line_def l_def utf8_valid_lossy)
next
  case False
  have valid: "utf8_valid l" by (simp add: l_def utf8_valid_lossy)
  define p where "p = boundary_below l max_bus_line"
  have p: "is_char_boundary l p" "p \<le> 8192" "8192 \<le> p + 3"
    using boundary_below_ok boundary_below_le [of l max_bus_line] boundary_near [OF valid, of 8192] False
      boundary_below_max [of l _ max_bus_line]
    by (force simp: p_def max_bus_line_def)+
  have "utf8_valid (take p l)" using utf8_valid_cut [OF valid p(1)] p(2) False by simp
  moreover have "bus_line l = take p l @ ellipsis" using False by (simp add: bus_line_def p_def max_bus_line_def)
  moreover have "length ellipsis = 3" by (simp add: ellipsis_def)
  ultimately show ?thesis using p False by (auto intro!: utf8_valid_append)
qed

text \<open>C31: A published line is well-formed UTF-8 of at most 8195 bytes.  A longer line is cut at a character
  boundary at most three bytes before byte 8192 and marked with an ellipsis; any other is published whole.\<close>
theorem published_line_is_utf8:
  "utf8_valid (bus_line (from_utf8_lossy raw)) \<and> length (bus_line (from_utf8_lossy raw)) \<le> 8195
    \<and> (if length (from_utf8_lossy raw) \<le> 8192 then bus_line (from_utf8_lossy raw) = from_utf8_lossy raw
       else \<exists>p. 8189 \<le> p \<and> p \<le> 8192 \<and> bus_line (from_utf8_lossy raw) = take p (from_utf8_lossy raw) @ ellipsis)"
  by (rule bus_line_utf8)

end
