(* ===== verification/Pump.thy ===== *)
theory Pump
  imports Utf8
begin

text \<open>
  \<open>src/daemon/logs.rs\<close>, the second half: what \<open>pump_stream\<close> does with each line.  A log file is
  an open file, known by its inode, with the \<open>BufWriter\<close>'s bytes that have not been written yet.
  What the operating system does is an argument: the file \<open>open\<close> returns, and for each
  write whether it fails, and after how many bytes.
\<close>

section \<open>The log file\<close>

definition write_buf :: nat where
  "write_buf = 64 * 1024"

record log_file =
  lf_inode :: nat
  lf_pending :: string

text \<open>A pump: its reader and what is unread of a line, the open file, the generation it was opened in,
  and whether writing fails.  Then the files by inode, the answers the next writes get (\<open>Some k\<close> is
  a failure after \<open>k\<close> bytes; no answer is success), the published events and the daemon's own log.\<close>

record pump =
  pu_reader :: reader
  pu_acc :: string
  pu_file :: "log_file option"
  pu_generation :: u64
  pu_failing :: bool
  pu_disk :: "nat \<Rightarrow> string"
  pu_faults :: "nat option list"
  pu_events :: "event list"
  pu_dlog :: "string list"

record pump_env =
  pe_pm_id :: u32
  pe_name :: string
  pe_stream :: string
  pe_path :: string
  pe_date_format :: "string option"
  pe_no_files :: bool

text \<open>What is read from outside while one line is handled: the shared generation, the answer
  of \<open>open\<close> should it be called, the formatted date and the time.\<close>

record tick =
  tk_generation :: u64
  tk_open :: "(string, nat) result"
  tk_date :: "string \<Rightarrow> string"
  tk_now :: i64

definition is_null :: "string \<Rightarrow> bool" where
  "is_null p = (p = ''/dev/null'' \<or> p = ''NULL'' \<or> p = [])"

definition open_append :: "string \<Rightarrow> (string, nat) result \<Rightarrow> log_file option \<times> string list" where
  "open_append path ans =
     (if is_null path then (None, [])
      else (case ans of
              Inr i \<Rightarrow> (Some \<lparr>lf_inode = i, lf_pending = []\<rparr>, [])
            | Inl e \<Rightarrow> (None, [''cannot open log file '' @ path @ '': '' @ e])))"

text \<open>The \<open>BufWriter\<close>: one write of the operating system, the flush, and a buffered write.\<close>

definition os_write :: "nat \<Rightarrow> string \<Rightarrow> pump \<Rightarrow> nat option \<times> pump" where
  "os_write i b pu =
     (case pu_faults pu of
        [] \<Rightarrow> (None, pu\<lparr>pu_disk := (pu_disk pu)(i := pu_disk pu i @ b)\<rparr>)
      | f # fs \<Rightarrow>
          (f, pu\<lparr>pu_disk := (pu_disk pu)(i := pu_disk pu i @ (case f of None \<Rightarrow> b | Some k \<Rightarrow> take k b)),
                 pu_faults := fs\<rparr>))"

definition set_pending :: "log_file \<Rightarrow> string \<Rightarrow> pump \<Rightarrow> pump" where
  "set_pending f b pu = pu\<lparr>pu_file := Some (f\<lparr>lf_pending := b\<rparr>)\<rparr>"

definition flush_buf :: "log_file \<Rightarrow> pump \<Rightarrow> bool \<times> pump" where
  "flush_buf f pu =
     (if lf_pending f = [] then (True, set_pending f [] pu)
      else (case os_write (lf_inode f) (lf_pending f) pu of
              (None, pu') \<Rightarrow> (True, set_pending f [] pu')
            | (Some k, pu') \<Rightarrow> (False, set_pending f (drop k (lf_pending f)) pu')))"

definition buf_write :: "log_file \<Rightarrow> string \<Rightarrow> pump \<Rightarrow> bool \<times> pump" where
  "buf_write f b pu =
     (let spare = write_buf - length (lf_pending f)
      in if length b < spare then (True, set_pending f (lf_pending f @ b) pu)
         else (case (if spare < length b then flush_buf f pu else (True, set_pending f (lf_pending f) pu)) of
                 (False, pu') \<Rightarrow> (False, pu')
               | (True, pu') \<Rightarrow>
                   let p = (if spare < length b then [] else lf_pending f)
                   in if write_buf \<le> length b
                      then (case os_write (lf_inode f) b pu' of (r, pu'') \<Rightarrow> (r = None, pu''))
                      else (True, set_pending f (p @ b) pu')))"

text \<open>\<open>writeln!\<close> writes the pieces of its format one after the other and stops at the first error.\<close>

fun write_pieces :: "string list \<Rightarrow> pump \<Rightarrow> bool \<times> pump" where
  "write_pieces [] pu = (True, pu)"
| "write_pieces (b # bs) pu =
     (case pu_file pu of
        None \<Rightarrow> (True, pu)
      | Some f \<Rightarrow> (case buf_write f b pu of
                     (True, pu') \<Rightarrow> write_pieces bs pu'
                   | (False, pu') \<Rightarrow> (False, pu')))"

definition record_pieces :: "pump_env \<Rightarrow> tick \<Rightarrow> string \<Rightarrow> string list" where
  "record_pieces e t l =
     (case pe_date_format e of
        Some fmt \<Rightarrow> [tk_date t fmt, '': '', l, [newline]]
      | None \<Rightarrow> [l, [newline]])"

section \<open>One line, and the loop\<close>

text \<open>Dropping a \<open>BufWriter\<close> flushes it and ignores errors.\<close>

definition drop_file :: "pump \<Rightarrow> pump" where
  "drop_file pu =
     (case pu_file pu of
        Some f \<Rightarrow> (snd (flush_buf f pu))\<lparr>pu_file := None\<rparr>
      | None \<Rightarrow> pu)"

definition open_log :: "pump_env \<Rightarrow> tick \<Rightarrow> log_file option \<times> string list" where
  "open_log e t = (if pe_no_files e then (None, []) else open_append (pe_path e) (tk_open t))"

definition pump_reopen :: "pump_env \<Rightarrow> tick \<Rightarrow> pump \<Rightarrow> pump" where
  "pump_reopen e t pu =
     (if tk_generation t \<noteq> pu_generation pu
      then (case open_log e t of (f, logged) \<Rightarrow>
        (drop_file pu)\<lparr>pu_file := f, pu_generation := tk_generation t, pu_dlog := pu_dlog pu @ logged\<rparr>)
      else pu)"

definition dlog_prefix :: "pump_env \<Rightarrow> string" where
  "dlog_prefix e = ''['' @ pe_name e @ '':'' @ show_word (pe_pm_id e) @ ''] ''"

definition pump_warn :: "pump_env \<Rightarrow> bool \<Rightarrow> pump \<Rightarrow> pump" where
  "pump_warn e ok pu =
     (if \<not> ok \<and> \<not> pu_failing pu
      then pu\<lparr>pu_failing := True,
              pu_dlog := pu_dlog pu @ [dlog_prefix e @ ''cannot write to '' @ pe_path e]\<rparr>
      else if ok \<and> pu_failing pu
      then pu\<lparr>pu_failing := False,
              pu_dlog := pu_dlog pu @ [dlog_prefix e @ ''log writes to '' @ pe_path e @ '' recovered'']\<rparr>
      else pu)"

definition pump_write :: "pump_env \<Rightarrow> tick \<Rightarrow> string \<Rightarrow> pump \<Rightarrow> pump" where
  "pump_write e t l pu =
     (if pu_file pu = None then pu
      else (case write_pieces (record_pieces e t l) pu of
              (False, pu') \<Rightarrow> pump_warn e False pu'
            | (True, pu') \<Rightarrow>
                (case pu_file pu' of
                   None \<Rightarrow> pu'
                 | Some f \<Rightarrow>
                     if rd_buf (pu_reader pu') = []
                     then (case flush_buf f pu' of (ok, pu'') \<Rightarrow> pump_warn e ok pu'')
                     else pump_warn e True pu')))"

definition pump_line :: "pump_env \<Rightarrow> tick \<Rightarrow> string \<Rightarrow> pump \<Rightarrow> pump" where
  "pump_line e t l pu =
     (let pu' = pump_write e t l (pump_reopen e t pu)
      in pu'\<lparr>pu_events := pu_events pu' @
           [EvLog (pe_pm_id e) (pe_name e) (pe_stream e) (bus_line l) (tk_now t)]\<rparr>)"

text \<open>The last flush, and the drop of the writer after it.\<close>

definition pump_end :: "pump \<Rightarrow> pump" where
  "pump_end pu = (case pu_file pu of Some f \<Rightarrow> drop_file (snd (flush_buf f pu)) | None \<Rightarrow> pu)"

definition pump_start :: "pump_env \<Rightarrow> tick \<Rightarrow> reader \<Rightarrow> (nat \<Rightarrow> string) \<Rightarrow> nat option list \<Rightarrow> pump" where
  "pump_start e t rd disk faults =
     (case open_log e t of (f, logged) \<Rightarrow>
       \<lparr>pu_reader = rd, pu_acc = [], pu_file = f, pu_generation = tk_generation t, pu_failing = False,
        pu_disk = disk, pu_faults = faults, pu_events = [], pu_dlog = logged\<rparr>)"

text \<open>None of it touches what has been read.\<close>

definition same_reader :: "pump \<Rightarrow> pump \<Rightarrow> bool" where
  "same_reader a b = (pu_reader a = pu_reader b \<and> pu_acc a = pu_acc b \<and> pu_events a = pu_events b)"

lemma same_reader_trans: "same_reader a b \<Longrightarrow> same_reader b c \<Longrightarrow> same_reader a c"
  by (simp add: same_reader_def)

lemma os_write_frame:
  "os_write i b pu = (r, pu') \<Longrightarrow> same_reader pu' pu \<and> pu_file pu' = pu_file pu \<and> pu_generation pu' = pu_generation pu"
  by (auto simp: os_write_def same_reader_def split: list.splits)

lemma flush_buf_frame:
  "flush_buf f pu = (r, pu') \<Longrightarrow>
     same_reader pu' pu \<and> map_option lf_inode (pu_file pu') = Some (lf_inode f) \<and> pu_generation pu' = pu_generation pu"
  by (auto simp: flush_buf_def set_pending_def same_reader_def split: if_splits prod.splits option.splits dest: os_write_frame)

lemma buf_write_frame:
  assumes "buf_write f b pu = (r, pu')" "pu_file pu = Some f"
  shows "same_reader pu' pu \<and> map_option lf_inode (pu_file pu') = Some (lf_inode f) \<and> pu_generation pu' = pu_generation pu"
  using assms
  by (auto simp: buf_write_def Let_def set_pending_def same_reader_def
      split: if_splits prod.splits bool.splits dest!: os_write_frame flush_buf_frame)

lemma write_pieces_frame:
  "write_pieces bs pu = (r, pu') \<Longrightarrow>
     same_reader pu' pu \<and> map_option lf_inode (pu_file pu') = map_option lf_inode (pu_file pu) \<and> pu_generation pu' = pu_generation pu"
proof (induction bs arbitrary: pu)
  case (Cons b bs)
  show ?case
  proof (cases "pu_file pu")
    case (Some f)
    obtain r1 pu1 where w: "buf_write f b pu = (r1, pu1)" by (cases "buf_write f b pu")
    note fr = buf_write_frame [OF w Some]
    show ?thesis
      using Cons w Some fr by (cases r1) (auto simp: same_reader_def)
  qed (use Cons in \<open>simp add: same_reader_def\<close>)
qed (simp add: same_reader_def)

lemma drop_file_frame: "same_reader (drop_file pu) pu \<and> pu_file (drop_file pu) = None"
  using flush_buf_frame by (auto simp: drop_file_def same_reader_def split: option.split) (metis prod.collapse)+

lemma pump_reopen_frame: "same_reader (pump_reopen e t pu) pu"
  using drop_file_frame [of pu] by (auto simp: pump_reopen_def same_reader_def split: prod.split)

lemma pump_warn_frame:
  "same_reader (pump_warn e ok pu) pu" "pu_file (pump_warn e ok pu) = pu_file pu"
  "pu_disk (pump_warn e ok pu) = pu_disk pu" "pu_faults (pump_warn e ok pu) = pu_faults pu"
  "pu_generation (pump_warn e ok pu) = pu_generation pu"
  by (simp_all add: pump_warn_def same_reader_def)

lemma pump_write_frame:
  "same_reader (pump_write e t l pu) pu
   \<and> map_option lf_inode (pu_file (pump_write e t l pu)) = map_option lf_inode (pu_file pu)
   \<and> pu_generation (pump_write e t l pu) = pu_generation pu"
proof (cases "pu_file pu = None")
  case False
  obtain r pu1 where w: "write_pieces (record_pieces e t l) pu = (r, pu1)" by (cases "write_pieces (record_pieces e t l) pu")
  note fr = write_pieces_frame [OF w]
  then obtain f where f: "pu_file pu1 = Some f" "map_option lf_inode (pu_file pu) = Some (lf_inode f)" using False by auto
  obtain ok pu2 where fl: "flush_buf f pu1 = (ok, pu2)" by (cases "flush_buf f pu1")
  show ?thesis
    using False w fr f fl flush_buf_frame [OF fl] pump_warn_frame [of e]
    by (cases r) (auto simp: pump_write_def same_reader_def)
qed (simp add: pump_write_def same_reader_def)

lemma pump_line_frame [simp]:
  "pu_reader (pump_line e t l pu) = pu_reader pu" "pu_acc (pump_line e t l pu) = pu_acc pu"
  "pu_events (pump_line e t l pu) =
     pu_events pu @ [EvLog (pe_pm_id e) (pe_name e) (pe_stream e) (bus_line l) (tk_now t)]"
  using pump_write_frame [of e t l "pump_reopen e t pu"] pump_reopen_frame [of e t pu]
  by (auto simp: pump_line_def Let_def same_reader_def)

text \<open>The loop, the \<open>k\<close>-th line being handled at \<open>ticks k\<close>.\<close>

lemma read_capped_line_smaller:
  assumes "read_capped_line rd acc = (Some l, rd', acc')"
  shows "2 * reader_size rd' + (if acc' = [] then 0 else 1) < 2 * reader_size rd + (if acc = [] then 0 else (1 :: nat))"
  using assms read_raw_line [of max_line "rd_buf rd" "rd_chunks rd" acc _ rd' acc']
  by (cases rd) (auto simp: read_capped_line_def split: prod.splits)

function pump_loop :: "pump_env \<Rightarrow> (nat \<Rightarrow> tick) \<Rightarrow> nat \<Rightarrow> pump \<Rightarrow> pump" where
  "pump_loop e ticks k pu =
     (case read_capped_line (pu_reader pu) (pu_acc pu) of
        (Some l, rd', acc') \<Rightarrow>
          pump_loop e ticks (Suc k) (pump_line e (ticks k) l (pu\<lparr>pu_reader := rd', pu_acc := acc'\<rparr>))
      | (None, rd', acc') \<Rightarrow> pump_end (pu\<lparr>pu_reader := rd', pu_acc := acc'\<rparr>))"
  by pat_completeness auto
termination
  by (relation "measure (\<lambda>(e, ticks, k, pu). 2 * reader_size (pu_reader pu) + (if pu_acc pu = [] then 0 else 1))")
    (auto dest!: read_capped_line_smaller [OF sym])

declare pump_loop.simps [simp del]

definition pump_stream :: "pump_env \<Rightarrow> tick \<Rightarrow> (nat \<Rightarrow> tick) \<Rightarrow> reader \<Rightarrow> (nat \<Rightarrow> string) \<Rightarrow> nat option list \<Rightarrow> pump" where
  "pump_stream e t ticks rd disk faults = pump_loop e ticks 0 (pump_start e t rd disk faults)"

text \<open>The two pumps of a child: the date format and the switch come from its row, if it still exists.\<close>

definition pump_envs :: "ctx \<Rightarrow> u32 \<Rightarrow> string \<Rightarrow> string \<Rightarrow> string \<Rightarrow> pump_env list" where
  "pump_envs c pm_id nm out_file error_file =
     (let (fmt, no_files) = (case row_of c pm_id of
            Some p \<Rightarrow> (ac_log_date_format (p_config p), ac_disable_log_files (p_config p))
          | None \<Rightarrow> (None, False));
          env = (\<lambda>stream path. \<lparr>pe_pm_id = pm_id, pe_name = nm, pe_stream = stream, pe_path = path,
                  pe_date_format = fmt, pe_no_files = no_files\<rparr>)
      in [env ''out'' out_file, env ''err'' error_file])"

section \<open>Without write errors nothing is lost\<close>

text \<open>What file \<open>i\<close> holds or is about to: its contents, and what the writer has pending for it.\<close>

definition filed :: "nat \<Rightarrow> pump \<Rightarrow> string" where
  "filed i pu =
     pu_disk pu i @ (case pu_file pu of Some f \<Rightarrow> if lf_inode f = i then lf_pending f else [] | None \<Rightarrow> [])"

lemma filed_reader [simp]:
  "filed i (pu\<lparr>pu_reader := rd, pu_acc := acc\<rparr>) = filed i pu"
  "filed i (pu\<lparr>pu_events := ev\<rparr>) = filed i pu"
  by (simp_all add: filed_def)

lemma os_write_quiet:
  "pu_faults pu = [] \<Longrightarrow> os_write i b pu = (None, pu\<lparr>pu_disk := (pu_disk pu)(i := pu_disk pu i @ b)\<rparr>)"
  by (simp add: os_write_def)

lemma flush_buf_quiet:
  assumes "pu_faults pu = []" "pu_file pu = Some f"
  shows "\<exists>pu'. flush_buf f pu = (True, pu') \<and> pu_faults pu' = [] \<and> (\<forall>i. filed i pu' = filed i pu)
    \<and> pu_file pu' = Some (f\<lparr>lf_pending := []\<rparr>)"
  using assms by (auto simp: flush_buf_def os_write_quiet set_pending_def filed_def)

lemma buf_write_quiet:
  assumes "pu_faults pu = []" "pu_file pu = Some f"
  shows "\<exists>pu' q. buf_write f b pu = (True, pu') \<and> pu_faults pu' = []
    \<and> (\<forall>i. filed i pu' = filed i pu @ (if i = lf_inode f then b else []))
    \<and> pu_file pu' = Some (f\<lparr>lf_pending := q\<rparr>)"
proof -
  define spare where "spare = write_buf - length (lf_pending f)"
  obtain pu1 where f1: "flush_buf f pu = (True, pu1)" "pu_faults pu1 = []" "\<forall>i. filed i pu1 = filed i pu"
    "pu_file pu1 = Some (f\<lparr>lf_pending := []\<rparr>)"
    using flush_buf_quiet [OF assms] by blast
  consider "length b < spare" | "spare < length b" | "length b = spare" by linarith
  then show ?thesis
  proof cases
    case 1
    with assms show ?thesis
      by (auto simp: buf_write_def Let_def spare_def [symmetric] set_pending_def filed_def)
  next
    case 2
    with f1(1,2,4) f1(3) [rule_format, symmetric] show ?thesis
      by (auto simp: buf_write_def Let_def spare_def [symmetric] set_pending_def os_write_quiet filed_def)
  next
    case 3
    then have none: "lf_pending f = []" if "write_buf \<le> length b"
      using that by (cases "lf_pending f") (auto simp: spare_def write_buf_def)
    have eq: "\<not> spare < length b" "\<not> length b < spare" using 3 by auto
    show ?thesis
    proof (cases "write_buf \<le> length b")
      case True
      with none have "f = f\<lparr>lf_pending := []\<rparr>" by (cases f) simp
      with eq True assms none [OF True] show ?thesis
        unfolding buf_write_def Let_def spare_def [symmetric]
        by (auto simp: set_pending_def os_write_quiet filed_def)
    next
      case False
      with eq assms show ?thesis
        by (auto simp: buf_write_def Let_def spare_def [symmetric] set_pending_def filed_def)
    qed
  qed
qed

lemma write_pieces_quiet:
  assumes "pu_faults pu = []" "pu_file pu = Some f"
  shows "\<exists>pu' q. write_pieces bs pu = (True, pu') \<and> pu_faults pu' = []
    \<and> (\<forall>i. filed i pu' = filed i pu @ (if i = lf_inode f then concat bs else []))
    \<and> pu_file pu' = Some (f\<lparr>lf_pending := q\<rparr>)"
  using assms
proof (induction bs arbitrary: pu f)
  case Nil
  then show ?case by (cases f) auto
next
  case (Cons b bs)
  from buf_write_quiet [OF Cons.prems, of b] obtain pu1 q where w:
    "buf_write f b pu = (True, pu1)" "pu_faults pu1 = []"
    "\<forall>i. filed i pu1 = filed i pu @ (if i = lf_inode f then b else [])" "pu_file pu1 = Some (f\<lparr>lf_pending := q\<rparr>)"
    by blast
  from Cons.IH [OF w(2,4)] w(1,3) Cons.prems(2) show ?case by auto
qed

lemma drop_file_quiet:
  "pu_faults pu = [] \<Longrightarrow> pu_faults (drop_file pu) = [] \<and> filed i (drop_file pu) = filed i pu
    \<and> pu_disk (drop_file pu) i = filed i pu"
proof (cases "pu_file pu")
  case (Some f)
  assume "pu_faults pu = []"
  from flush_buf_quiet [OF this Some] obtain pu' where f: "flush_buf f pu = (True, pu')" "pu_faults pu' = []"
    "filed i pu' = filed i pu" "pu_file pu' = Some (f\<lparr>lf_pending := []\<rparr>)"
    by blast
  then have "pu_disk pu' i = filed i pu" by (simp add: filed_def split: if_splits)
  with f Some show ?thesis by (simp add: drop_file_def filed_def)
qed (simp add: drop_file_def filed_def)

text \<open>The file a line goes to.\<close>

definition open_inode :: "pump_env \<Rightarrow> tick \<Rightarrow> nat option" where
  "open_inode e t = map_option lf_inode (fst (open_log e t))"

definition holds_inode :: "pump_env \<Rightarrow> tick \<Rightarrow> u64 \<Rightarrow> nat option \<Rightarrow> nat option" where
  "holds_inode e t g h = (if tk_generation t \<noteq> g then open_inode e t else h)"

lemma open_log_fresh: "open_log e t = (Some f, d) \<Longrightarrow> lf_pending f = []"
  by (auto simp: open_log_def open_append_def split: if_splits sum.splits)

lemma pump_reopen_quiet:
  assumes "pu_faults pu = []"
  shows "pu_faults (pump_reopen e t pu) = []" "filed i (pump_reopen e t pu) = filed i pu"
    "map_option lf_inode (pu_file (pump_reopen e t pu)) = holds_inode e t (pu_generation pu) (map_option lf_inode (pu_file pu))"
    "pu_generation (pump_reopen e t pu) = tk_generation t"
  using drop_file_quiet [OF assms, of i] assms
  by (auto simp: pump_reopen_def holds_inode_def open_inode_def filed_def dest!: open_log_fresh split: prod.split option.split)

lemma pump_write_quiet:
  assumes "pu_faults pu = []"
  shows "pu_faults (pump_write e t l pu) = []
    \<and> filed i (pump_write e t l pu) =
        filed i pu @ (if map_option lf_inode (pu_file pu) = Some i then concat (record_pieces e t l) else [])"
proof (cases "pu_file pu")
  case (Some f)
  from write_pieces_quiet [OF assms Some, of "record_pieces e t l"] obtain pu1 q where w:
    "write_pieces (record_pieces e t l) pu = (True, pu1)" "pu_faults pu1 = []"
    "\<forall>i. filed i pu1 = filed i pu @ (if i = lf_inode f then concat (record_pieces e t l) else [])"
    "pu_file pu1 = Some (f\<lparr>lf_pending := q\<rparr>)"
    by blast
  have warn: "filed i (pump_warn e ok x) = filed i x" for ok x by (simp add: filed_def pump_warn_frame)
  obtain pu2 where "flush_buf (f\<lparr>lf_pending := q\<rparr>) pu1 = (True, pu2)" "pu_faults pu2 = []" "\<forall>i. filed i pu2 = filed i pu1"
    using flush_buf_quiet [OF w(2,4)] by blast
  with w Some show ?thesis by (simp add: pump_write_def pump_warn_frame warn)
qed (use assms in \<open>simp add: pump_write_def\<close>)

lemma pump_line_quiet:
  assumes "pu_faults pu = []"
  shows "pu_faults (pump_line e t l pu) = []"
    "pu_generation (pump_line e t l pu) = tk_generation t"
    "map_option lf_inode (pu_file (pump_line e t l pu)) = holds_inode e t (pu_generation pu) (map_option lf_inode (pu_file pu))"
    "filed i (pump_line e t l pu) = filed i pu @
       (if holds_inode e t (pu_generation pu) (map_option lf_inode (pu_file pu)) = Some i
        then concat (record_pieces e t l) else [])"
proof -
  note r = pump_reopen_quiet [OF assms, where e = e and t = t]
  note w = pump_write_quiet [OF r(1), of e t l] pump_write_frame [of e t l "pump_reopen e t pu"]
  show "pu_faults (pump_line e t l pu) = []" "pu_generation (pump_line e t l pu) = tk_generation t"
    "map_option lf_inode (pu_file (pump_line e t l pu)) = holds_inode e t (pu_generation pu) (map_option lf_inode (pu_file pu))"
    using w r(3,4) by (simp_all add: pump_line_def Let_def)
  show "filed i (pump_line e t l pu) = filed i pu @
       (if holds_inode e t (pu_generation pu) (map_option lf_inode (pu_file pu)) = Some i
        then concat (record_pieces e t l) else [])"
    using w(1) r(2,3) by (simp add: pump_line_def Let_def)
qed

text \<open>The records the lines leave in file \<open>i\<close>.\<close>

fun records_in :: "nat \<Rightarrow> pump_env \<Rightarrow> (nat \<Rightarrow> tick) \<Rightarrow> nat \<Rightarrow> u64 \<Rightarrow> nat option \<Rightarrow> string list \<Rightarrow> string" where
  "records_in i e ticks k g h [] = []"
| "records_in i e ticks k g h (l # ls) =
     (let h' = holds_inode e (ticks k) g h
      in (if h' = Some i then concat (record_pieces e (ticks k) l) else []) @
         records_in i e ticks (Suc k) (tk_generation (ticks k)) h' ls)"

definition ev_of_line :: "pump_env \<Rightarrow> (nat \<Rightarrow> tick) \<Rightarrow> nat \<times> string \<Rightarrow> event" where
  "ev_of_line e ticks kl =
     EvLog (pe_pm_id e) (pe_name e) (pe_stream e) (bus_line (snd kl)) (tk_now (ticks (fst kl)))"

lemma pump_end_events: "pu_events (pump_end pu) = pu_events pu"
  using drop_file_frame flush_buf_frame
  by (auto simp: pump_end_def same_reader_def split: option.split) (metis prod.collapse)

lemma pump_end_disk:
  assumes "pu_faults pu = []"
  shows "pu_disk (pump_end pu) i = filed i pu"
proof (cases "pu_file pu")
  case (Some f)
  from flush_buf_quiet [OF assms Some] obtain pu' where
    "flush_buf f pu = (True, pu')" "pu_faults pu' = []" "filed i pu' = filed i pu"
    by blast
  with Some drop_file_quiet [of pu' i] show ?thesis by (simp add: pump_end_def)
qed (simp add: pump_end_def filed_def)

text \<open>One round of the loop, in terms of the lines of the reader.\<close>

lemma pump_loop_round:
  assumes "pu_acc pu = []"
  obtains (ended) rd' acc' where "read_all max_line (pu_reader pu) = []"
      "pump_loop e ticks k pu = pump_end (pu\<lparr>pu_reader := rd', pu_acc := acc'\<rparr>)"
  | (more) l rd' where "read_all max_line (pu_reader pu) = l # read_all max_line rd'"
      "read_capped_line (pu_reader pu) (pu_acc pu) = (Some (from_utf8_lossy l), rd', [])"
      "pump_loop e ticks k pu =
         pump_loop e ticks (Suc k) (pump_line e (ticks k) (from_utf8_lossy l) (pu\<lparr>pu_reader := rd', pu_acc := []\<rparr>))"
proof -
  obtain r rd' acc' where raw: "read_raw max_line (rd_buf (pu_reader pu)) (rd_chunks (pu_reader pu)) [] = (r, rd', acc')"
    by (cases "read_raw max_line (rd_buf (pu_reader pu)) (rd_chunks (pu_reader pu)) []")
  have cap: "read_capped_line (pu_reader pu) (pu_acc pu) = (map_option from_utf8_lossy r, rd', acc')"
    using raw assms by (simp add: read_capped_line_def)
  have all: "read_all max_line (pu_reader pu) = (case r of None \<Rightarrow> [] | Some l \<Rightarrow> l # read_all max_line rd')"
    using raw by (subst read_all.simps) (simp split: option.split)
  show ?thesis
  proof (cases r)
    case None
    with cap all show ?thesis by (intro ended) (simp, subst pump_loop.simps, simp)
  next
    case (Some l)
    have "acc' = []" using read_raw_line [OF raw [unfolded Some]] by simp
    with Some cap all show ?thesis by (intro more) (simp, simp, subst pump_loop.simps, simp)
  qed
qed

lemma pump_loop_events:
  assumes "pu_acc pu = []"
  shows "pu_events (pump_loop e ticks k pu) = pu_events pu @
    map (ev_of_line e ticks) (enumerate k (map from_utf8_lossy (read_all max_line (pu_reader pu))))"
  using assms
proof (induction e ticks k pu rule: pump_loop.induct)
  case (1 e ticks k pu)
  from 1(2) show ?case
  proof (cases rule: pump_loop_round [where e = e and ticks = ticks and k = k])
    case (more l rd')
    from 1(1) [OF more(2) [symmetric] refl refl] more(1,3) show ?thesis by (simp add: ev_of_line_def)
  qed (simp add: pump_end_events)
qed

lemma pump_loop_disk:
  assumes "pu_acc pu = []" "pu_faults pu = []"
  shows "pu_disk (pump_loop e ticks k pu) i = filed i pu @
    records_in i e ticks k (pu_generation pu) (map_option lf_inode (pu_file pu))
      (map from_utf8_lossy (read_all max_line (pu_reader pu)))"
  using assms
proof (induction e ticks k pu rule: pump_loop.induct)
  case (1 e ticks k pu)
  from 1(2) show ?case
  proof (cases rule: pump_loop_round [where e = e and ticks = ticks and k = k])
    case (ended rd' acc')
    with 1(3) show ?thesis by (simp add: pump_end_disk)
  next
    case (more l rd')
    have q: "pu_faults (pu\<lparr>pu_reader := rd', pu_acc := []\<rparr>) = []" using 1(3) by simp
    from 1(1) [OF more(2) [symmetric] refl refl] more(1,3)
      pump_line_quiet [OF q, where e = e and t = "ticks k" and l = "from_utf8_lossy l"]
    show ?thesis by (simp add: Let_def)
  qed
qed

lemma pump_start_facts:
  "pu_acc (pump_start e t rd disk f) = []" "pu_faults (pump_start e t rd disk f) = f"
  "pu_reader (pump_start e t rd disk f) = rd" "pu_events (pump_start e t rd disk f) = []"
  "pu_generation (pump_start e t rd disk f) = tk_generation t"
  "map_option lf_inode (pu_file (pump_start e t rd disk f)) = open_inode e t"
  "filed i (pump_start e t rd disk f) = disk i"
  by (auto simp: pump_start_def open_inode_def filed_def dest!: open_log_fresh split: prod.split option.split)

lemma pump_publishes:
  "pu_events (pump_stream e t ticks rd disk faults) =
     map (ev_of_line e ticks) (enumerate 0 (map from_utf8_lossy (read_all max_line rd)))"
  using pump_loop_events [OF pump_start_facts(1)] by (simp add: pump_stream_def pump_start_facts)

section \<open>Properties\<close>

text \<open>C19: Every line of the child's output is published once and in order; and without write errors each
  file ends up with exactly the records of the lines that were read while it was the open one,
  in order, after what it held before: rotation and reopening lose and repeat nothing.\<close>
theorem pump_files_every_line:
  "pu_events (pump_stream e t ticks rd disk faults) =
      map (ev_of_line e ticks) (enumerate 0 (map from_utf8_lossy (read_all max_line rd)))
    \<and> pu_disk (pump_stream e t ticks rd disk []) i =
      disk i @ records_in i e ticks 0 (tk_generation t) (open_inode e t) (map from_utf8_lossy (read_all max_line rd))"
  using pump_publishes [of e t ticks rd disk faults] pump_loop_disk [OF pump_start_facts(1,2)]
  by (simp add: pump_stream_def pump_start_facts)

definition sample_env :: pump_env where
  "sample_env = \<lparr>pe_pm_id = 3, pe_name = ''web'', pe_stream = ''out'', pe_path = ''/l/web-out.log'',
    pe_date_format = None, pe_no_files = False\<rparr>"

text \<open>The log is rotated after the first line: the second one goes to the new file.\<close>

definition sample_ticks :: "nat \<Rightarrow> tick" where
  "sample_ticks k = \<lparr>tk_generation = (if k = 0 then 0 else 1), tk_open = Inr (if k = 0 then 7 else 8),
    tk_date = (\<lambda>f. f), tk_now = of_nat k\<rparr>"

lemma sample_rotation:
  "records_in 7 sample_env sample_ticks 0 0 (open_inode sample_env (sample_ticks 0)) [''ab'', ''cd''] = ''ab'' @ [newline]"
  "records_in 8 sample_env sample_ticks 0 0 (open_inode sample_env (sample_ticks 0)) [''ab'', ''cd''] = ''cd'' @ [newline]"
  by code_simp+

end
