(* ===== verification/Rpc.thy ===== *)
theory Rpc
  imports Batch Worker Pump
begin

text \<open>
  \<open>src/daemon/rpc.rs\<close>: one connection.  \<open>handle\<close> reads requests line by line, \<open>dispatch\<close> runs one,
  \<open>forward_events\<close> streams bus events to a subscriber.  The JSON codec is an argument (\<open>decode\<close>
  of a request line); a reply is its value.  The operations dispatch waits for are arguments, as
  in \<open>Batch\<close>.
\<close>

section \<open>Replies\<close>

datatype rpc_value =
    V_ping string u32
  | V_version string
  | V_snapshots "snapshot list"
  | V_sent u32
  | V_ok
  | V_saved string nat
  | V_subscribed

record response =
  rs_id :: u64
  rs_result :: "rpc_value option"
  rs_error :: "err option"

definition reply :: "u64 \<Rightarrow> rpc_value res \<Rightarrow> response" where
  "reply i r =
     (case r of
        Inr v \<Rightarrow> \<lparr>rs_id = i, rs_result = Some v, rs_error = None\<rparr>
      | Inl e \<Rightarrow> \<lparr>rs_id = i, rs_result = None, rs_error = Some e\<rparr>)"

section \<open>What \<open>dispatch\<close> relies on\<close>

text \<open>The operations and what they did, the codec of the dump, the clock and the probe of \<open>sample\<close>.\<close>

record rpc_env =
  re_start :: "app_config \<Rightarrow> (u32 \<times> u32) option \<Rightarrow> ctx \<Rightarrow> u32 list res \<times> ctx"
  re_each :: "op \<Rightarrow> u32 list \<Rightarrow> ctx \<Rightarrow> joined list \<times> ctx"
  re_delete :: deleter
  re_codec :: codec
  re_vars :: env_vars
  re_fails :: "disk_op \<Rightarrow> nat option"
  re_now :: i64
  re_gap :: i64
  re_raced :: bool
  re_probe :: probe
  re_version :: string
  re_daemon_pid :: u32
  re_opens :: "string \<Rightarrow> bool"

fun start_all ::
    "(app_config \<Rightarrow> (u32 \<times> u32) option \<Rightarrow> ctx \<Rightarrow> u32 list res \<times> ctx) \<Rightarrow> app_config list \<Rightarrow> u32 list \<Rightarrow> ctx \<Rightarrow>
     u32 list res \<times> ctx" where
  "start_all start [] ids c = (Inr ids, c)"
| "start_all start (a # as) ids c =
     (case start a None c of
        (Inl e, c') \<Rightarrow> (Inl e, c')
      | (Inr new, c') \<Rightarrow> start_all start as (ids @ new) c')"

text \<open>\<open>resolve\<close>, then one operation on each, then what the table shows.\<close>

definition run_each :: "rpc_env \<Rightarrow> op \<Rightarrow> u32 list \<Rightarrow> ctx \<Rightarrow> unit res \<times> ctx" where
  "run_each e o' ids c = (case re_each e o' ids c of (js, c') \<Rightarrow> (join_all None js, c'))"

definition on_target :: "ctx \<Rightarrow> target \<Rightarrow> (u32 list \<Rightarrow> rpc_value res \<times> ctx) \<Rightarrow> rpc_value res \<times> ctx" where
  "on_target c tg k = (case resolve c tg of Inl e \<Rightarrow> (Inl e, c) | Inr ids \<Rightarrow> k ids)"

definition shown :: "u32 list \<Rightarrow> bool \<Rightarrow> unit res \<times> ctx \<Rightarrow> rpc_value res \<times> ctx" where
  "shown ids with_env rc =
     (case rc of
        (Inl e, c) \<Rightarrow> (Inl e, c)
      | (Inr _, c) \<Rightarrow> (Inr (V_snapshots (snapshots c ids with_env)), c))"

definition reset_rows :: "i64 \<Rightarrow> u32 list \<Rightarrow> ctx \<Rightarrow> ctx" where
  "reset_rows now ids c = fold (\<lambda>i c. with_row i (reset_counters now) c) ids c"

definition fresh_sample :: "rpc_env \<Rightarrow> ctx \<Rightarrow> ctx" where
  "fresh_sample e c = snd (sample False (re_now e) (re_gap e) (re_raced e) (re_probe e) c)"

definition signal_targets :: "ctx \<Rightarrow> u32 list \<Rightarrow> u32 list" where
  "signal_targets c ids =
     List.map_filter (\<lambda>i. case row_of c i of Some p \<Rightarrow> if p_pid p \<noteq> 0 then Some (p_pid p) else None | None \<Rightarrow> None) ids"

text \<open>Opening for truncation does not create a file.\<close>

definition truncate_file :: "(string \<Rightarrow> bool) \<Rightarrow> string \<Rightarrow> ctx \<Rightarrow> ctx" where
  "truncate_file opens f c =
     (if hm_get (c_files c) f \<noteq> None \<and> opens f then c\<lparr>c_files := hm_put f [] (c_files c)\<rparr> else c)"

definition flush_files :: "ctx \<Rightarrow> u32 list \<Rightarrow> string list" where
  "flush_files c ids =
     concat (map (\<lambda>p. [p_out_file p, p_error_file p]) (List.map_filter (row_of c) ids))"

section \<open>\<open>dispatch\<close>\<close>

text \<open>The third component lists the signals sent, with the processes they went to.\<close>

definition dispatch :: "rpc_env \<Rightarrow> rpc_method \<Rightarrow> ctx \<Rightarrow> (rpc_value res \<times> ctx) \<times> (u32 \<times> string) list" where
  "dispatch e m c =
     (case m of
        M_ping \<Rightarrow> ((Inr (V_ping (re_version e) (re_daemon_pid e)), c), [])
      | M_version \<Rightarrow> ((Inr (V_version (re_version e)), c), [])
      | M_start apps \<Rightarrow>
          (case start_all (re_start e) apps [] c of
             (Inl er, c') \<Rightarrow> ((Inl er, c'), [])
           | (Inr ids, c') \<Rightarrow> ((Inr (V_snapshots (snapshots c' ids False)), c'), []))
      | M_stop tg \<Rightarrow> (on_target c tg (\<lambda>ids. shown ids False (run_each e OpStop ids c)), [])
      | M_restart tg \<Rightarrow> (on_target c tg (\<lambda>ids. shown ids False (run_each e OpRestart ids c)), [])
      | M_delete tg \<Rightarrow>
          (on_target c tg (\<lambda>ids.
             case run_each e OpDelete ids c of
               (Inl er, c') \<Rightarrow> (Inl er, c')
             | (Inr _, c') \<Rightarrow> (Inr (V_snapshots (snapshots c ids False)), c')), [])
      | M_reset tg \<Rightarrow> (on_target c tg (\<lambda>ids. shown ids False (Inr (), reset_rows (re_now e) ids c)), [])
      | M_list \<Rightarrow> (let c' = fresh_sample e c in ((Inr (V_snapshots (all_snapshots c')), c'), []))
      | M_describe tg \<Rightarrow> (on_target c tg (\<lambda>ids. shown ids True (Inr (), fresh_sample e c)), [])
      | M_scale nm n \<Rightarrow>
          (case scale (\<lambda>a f. re_start e a (Some f)) (re_delete e) nm n c of
             (Inl er, c') \<Rightarrow> ((Inl er, c'), [])
           | (Inr ids, c') \<Rightarrow> ((Inr (V_snapshots (snapshots c' ids False)), c'), []))
      | M_send_signal tg sg \<Rightarrow>
          (case parse_signal sg of
             None \<Rightarrow> ((Inl (E_unknown_signal sg), c), [])
           | Some g \<Rightarrow>
               (case resolve c tg of
                  Inl er \<Rightarrow> ((Inl er, c), [])
                | Inr ids \<Rightarrow>
                    ((Inr (V_sent (of_nat (length (signal_targets c ids)))), c),
                     map (\<lambda>p. (p, g)) (signal_targets c ids))))
      | M_flush tg \<Rightarrow>
          (on_target c (case tg of Some t \<Rightarrow> t | None \<Rightarrow> All)
             (\<lambda>ids. (Inr V_ok, fold (truncate_file (re_opens e)) (flush_files c ids) c)), [])
      | M_reload_logs \<Rightarrow> ((Inr V_ok, c\<lparr>c_log_generation := c_log_generation c + 1\<rparr>), [])
      | M_save \<Rightarrow>
          (case save (re_codec e) (re_vars e) (re_fails e) c of
             (Inl er, c') \<Rightarrow> ((Inl er, c'), [])
           | (Inr path, c') \<Rightarrow> ((Inr (V_saved path (length (hm_rows (procs (c_table c'))))), c'), []))
      | M_resurrect \<Rightarrow>
          (case resurrect (re_codec e) (re_vars e) (\<lambda>a f. re_start e a (Some f)) c of
             (Inl er, c') \<Rightarrow> ((Inl er, c'), [])
           | (Inr ids, c') \<Rightarrow> ((Inr (V_snapshots (snapshots c' ids False)), c'), []))
      | M_kill \<Rightarrow> ((Inr V_ok, c\<lparr>c_shutdown_sent := True\<rparr>), [])
      | M_subscribe _ _ \<Rightarrow> ((Inl E_unreachable, c), []))"

section \<open>\<open>handle\<close>\<close>

text \<open>What one line makes of the connection: nothing, a reply, or a subscription after the reply.\<close>

datatype turn =
    T_skip
  | T_reply response ctx
  | T_subscribe response "string list" "target option"

definition handle_line :: "rpc_env \<Rightarrow> (string \<Rightarrow> (string, u64 \<times> rpc_method) result) \<Rightarrow> string \<Rightarrow> ctx \<Rightarrow> turn" where
  "handle_line e decode line c =
     (if trim line = [] then T_skip
      else case decode line of
             Inl er \<Rightarrow> T_reply (reply 0 (Inl (E_invalid_request er))) c
           | Inr (i, m) \<Rightarrow>
               (case m of
                  M_subscribe topics tg \<Rightarrow> T_subscribe (reply i (Inr V_subscribed)) topics tg
                | _ \<Rightarrow> (case dispatch e m c of ((r, c'), _) \<Rightarrow> T_reply (reply i r) c')))"

text \<open>\<open>sends\<close> is how many replies the peer still takes; the first one it does not take ends the
  connection.  The replies sent, the context, and the subscription the connection turned into.\<close>

fun handle ::
    "rpc_env \<Rightarrow> (string \<Rightarrow> (string, u64 \<times> rpc_method) result) \<Rightarrow> nat \<Rightarrow> string list \<Rightarrow> ctx \<Rightarrow>
     response list \<times> ctx \<times> (string list \<times> target option) option" where
  "handle e decode sends [] c = ([], c, None)"
| "handle e decode sends (l # ls) c =
     (case handle_line e decode l c of
        T_skip \<Rightarrow> handle e decode sends ls c
      | T_subscribe r topics tg \<Rightarrow> (if sends = 0 then ([], c, None) else ([r], c, Some (topics, tg)))
      | T_reply r c' \<Rightarrow>
          (if sends = 0 then ([], c', None)
           else (case handle e decode (sends - 1) ls c' of (rs, c'', s) \<Rightarrow> (r # rs, c'', s))))"

section \<open>\<open>forward_events\<close>\<close>

datatype bus_msg = BEvent event | BLagged u64 | BClosed | BHangup | BStray

datatype frame = F_event string event | F_lagged u64

definition topic_wanted :: "string list \<Rightarrow> event \<Rightarrow> bool" where
  "topic_wanted topics ev = (topics = [] \<or> ev_topic ev \<in> set topics)"

definition target_wanted :: "target option \<Rightarrow> u32 list option \<Rightarrow> event \<Rightarrow> bool" where
  "target_wanted tg wanted ev =
     (case (wanted, ev_pm_id ev) of
        (Some ids, Some i) \<Rightarrow>
          i \<in> set ids \<or>
          (case tg of
             Some (Names names) \<Rightarrow> (case ev_proc_name ev of Some n \<Rightarrow> n \<in> set names | None \<Rightarrow> False)
           | _ \<Rightarrow> False)
      | _ \<Rightarrow> True)"

fun forward :: "string list \<Rightarrow> target option \<Rightarrow> u32 list option \<Rightarrow> nat \<Rightarrow> bus_msg list \<Rightarrow> frame list" where
  "forward topics tg wanted sends [] = []"
| "forward topics tg wanted sends (BHangup # ms) = []"
| "forward topics tg wanted sends (BClosed # ms) = []"
| "forward topics tg wanted sends (BStray # ms) = forward topics tg wanted sends ms"
| "forward topics tg wanted sends (BLagged n # ms) =
     (if sends = 0 then [] else F_lagged n # forward topics tg wanted (sends - 1) ms)"
| "forward topics tg wanted sends (BEvent ev # ms) =
     (if topic_wanted topics ev \<and> target_wanted tg wanted ev
      then (if sends = 0 then [] else F_event (ev_topic ev) ev # forward topics tg wanted (sends - 1) ms)
      else forward topics tg wanted sends ms)"

definition forward_events :: "string list \<Rightarrow> target option \<Rightarrow> ctx \<Rightarrow> nat \<Rightarrow> bus_msg list \<Rightarrow> frame list" where
  "forward_events topics tg c sends ms = forward topics tg (map_option (table_resolve (c_table c)) tg) sends ms"

section \<open>Facts\<close>

definition is_subscribe :: "(string \<Rightarrow> (string, u64 \<times> rpc_method) result) \<Rightarrow> string \<Rightarrow> bool" where
  "is_subscribe decode l = (case decode l of Inr (_, M_subscribe _ _) \<Rightarrow> True | _ \<Rightarrow> False)"

definition request_id :: "(string \<Rightarrow> (string, u64 \<times> rpc_method) result) \<Rightarrow> string \<Rightarrow> u64" where
  "request_id decode l = (case decode l of Inr (i, _) \<Rightarrow> i | Inl _ \<Rightarrow> 0)"

lemma reply_id [simp]: "rs_id (reply i r) = i"
  by (simp add: reply_def split: sum.split)

lemma handle_line_cases:
  "trim l = [] \<Longrightarrow> handle_line e decode l c = T_skip"
  "trim l \<noteq> [] \<Longrightarrow> \<not> is_subscribe decode l \<Longrightarrow>
     \<exists>r c'. handle_line e decode l c = T_reply r c' \<and> rs_id r = request_id decode l"
  by (auto simp: handle_line_def is_subscribe_def request_id_def split: sum.split rpc_method.split prod.split)

lemma forward_events_filter:
  "length ms \<le> sends \<Longrightarrow> forward topics tg wanted sends (map BEvent ms) =
     map (\<lambda>ev. F_event (ev_topic ev) ev) (filter (\<lambda>ev. topic_wanted topics ev \<and> target_wanted tg wanted ev) ms)"
proof (induction ms arbitrary: sends)
  case (Cons m ms)
  then show ?case by (cases sends) auto
qed simp

section \<open>Properties\<close>

text \<open>C38: A connection answers its requests in order and each of them once: until it subscribes, the
  replies carry the ids of the non-blank lines, 0 for a line that is no request.\<close>
theorem every_request_gets_one_reply:
  assumes "list_all (\<lambda>l. \<not> is_subscribe decode l) ls" "length ls \<le> sends"
  shows "map rs_id (fst (handle e decode sends ls c)) =
    map (request_id decode) (filter (\<lambda>l. trim l \<noteq> []) ls)"
  using assms
proof (induction ls arbitrary: c sends)
  case (Cons l ls)
  show ?case
  proof (cases "trim l = []")
    case True
    with Cons show ?thesis by (simp add: handle_line_cases(1))
  next
    case False
    with Cons.prems handle_line_cases(2) [OF False, of decode e c] obtain r c' where
      r: "handle_line e decode l c = T_reply r c'" "rs_id r = request_id decode l" by auto
    from Cons.prems(2) obtain n where n: "sends = Suc n" "length ls \<le> n" by (cases sends) auto
    from Cons.IH [of n c'] Cons.prems(1) n(2)
    have ih: "map rs_id (fst (handle e decode n ls c')) = map (request_id decode) (filter (\<lambda>l. trim l \<noteq> []) ls)"
      by simp
    obtain rs c'' s where h: "handle e decode n ls c' = (rs, c'', s)" by (cases "handle e decode n ls c'")
    show ?thesis using ih r False n h by simp
  qed
qed simp

definition sample_rpc :: rpc_env where
  "sample_rpc =
     \<lparr> re_start = (\<lambda>a f c. (Inr [], c)), re_each = (\<lambda>o' ids c. (map (\<lambda>_. Finished (Inr ())) ids, c)),
       re_delete = (\<lambda>i c. (Inr (), del_row i c)), re_codec = sample_codec, re_vars = (\<lambda>_. None),
       re_fails = (\<lambda>_. None), re_now = 0, re_gap = 250, re_raced = False, re_probe = sample_probe,
       re_version = ''0.1'', re_daemon_pid = 9, re_opens = (\<lambda>_. True) \<rparr>"

definition sample_decode :: "string \<Rightarrow> (string, u64 \<times> rpc_method) result" where
  "sample_decode l = (if l = ''ping'' then Inr (7, M_ping) else if l = ''sub'' then Inr (8, M_subscribe [] None) else Inl l)"

lemma every_request_gets_one_reply_witness:
  "map rs_id (fst (handle sample_rpc sample_decode 5 [''ping'', [], ''x'', ''ping''] ctx_default)) = [7, 0, 7]"
proof -
  have "find (starts_with []) ws_chars = None" "find (ends_with []) ws_chars = None"
    using ws_char_bytes by (auto simp: find_None_iff starts_with_def ends_with_def)
  then have blank: "trim [] = []" by (simp add: trim_def trim_start_id trim_end_id)
  have t: "trim ''ping'' = ''ping''" "trim ''x'' = ''x''" by (simp_all add: trim_plain plain_def)
  show ?thesis
    using every_request_gets_one_reply [of sample_decode "[''ping'', [], ''x'', ''ping'']" 5 sample_rpc ctx_default]
    by (simp add: is_subscribe_def request_id_def sample_decode_def t blank)
qed

end
