(* ===== verification/Chores.thy ===== *)
theory Chores
  imports Rpc
begin

text \<open>
  What the daemon does to the shared context besides supervising and operating: requests that
  \<open>dispatch\<close> answers on the spot, the worker's tick, the lines a log pump writes and publishes, the
  event of a failed health check.  None of it touches what the supervision of a process rests on.
\<close>

section \<open>Chores\<close>

text \<open>The requests that await no operation.\<close>

fun on_the_spot :: "rpc_method \<Rightarrow> bool" where
  "on_the_spot M_ping = True"
| "on_the_spot M_version = True"
| "on_the_spot (M_reset tg) = True"
| "on_the_spot M_list = True"
| "on_the_spot (M_describe tg) = True"
| "on_the_spot (M_send_signal tg sg) = True"
| "on_the_spot (M_flush tg) = True"
| "on_the_spot M_reload_logs = True"
| "on_the_spot M_save = True"
| "on_the_spot M_kill = True"
| "on_the_spot _ = False"

datatype chore =
    ChRequest rpc_env rpc_method
  | ChTick env_vars bool "string \<Rightarrow> string \<Rightarrow> bool" "string \<Rightarrow> bool" i64 probe
  | ChPublish event
  | ChAppend string string
  | ChReopen                                                       \<comment> \<open>\<open>SIGUSR2\<close>\<close>

text \<open>The context after a chore and the signals it sent; the restarts a tick asks for go to the
  operations as requests.\<close>

fun do_chore :: "chore \<Rightarrow> i64 \<Rightarrow> ctx \<Rightarrow> (ctx \<times> (u32 \<times> string) list) option" where
  "do_chore (ChRequest e m) now c =
     (if on_the_spot m then (case dispatch (e\<lparr>re_now := now\<rparr>) m c of ((r, c'), sigs) \<Rightarrow> Some (c', sigs)) else None)"
| "do_chore (ChTick ev tty can_rename can_open gap probe) now c =
     Some (snd (worker_tick ev tty can_rename can_open now gap probe c), [])"
| "do_chore (ChPublish e) now c = Some (publish e c, [])"
| "do_chore (ChAppend f s) now c =
     Some (c\<lparr>c_files := hm_put f ((case hm_get (c_files c) f of Some t \<Rightarrow> t | None \<Rightarrow> []) @ s) (c_files c)\<rparr>, [])"
| "do_chore ChReopen now c = Some (c\<lparr>c_log_generation := c_log_generation c + 1\<rparr>, [])"

definition run_chore :: "chore \<Rightarrow> sys \<Rightarrow> sys option" where
  "run_chore ch s =
     (case do_chore ch (y_now s) (y_ctx s) of
        None \<Rightarrow> None
      | Some (c', sigs) \<Rightarrow>
          Some (s\<lparr>y_ctx := c',
            y_signals := y_signals s @ map (\<lambda>(p, g). \<lparr>sg_pid = p, sg_signal = g, sg_tree = False\<rparr>) sigs\<rparr>))"

section \<open>What a chore leaves alone\<close>

definition row_kept :: "proc \<Rightarrow> proc \<Rightarrow> bool" where
  "row_kept p p' =
     (p_cmd_tx p' = p_cmd_tx p \<and> p_pid p' = p_pid p \<and> p_status p' = p_status p \<and> p_config p' = p_config p
      \<and> p_pm_id p' = p_pm_id p \<and> p_instance p' = p_instance p)"

definition table_kept :: "ctx \<Rightarrow> ctx \<Rightarrow> bool" where
  "table_kept c c' =
     ((\<forall>i. rel_option row_kept (row_of c i) (row_of c' i))
      \<and> next_id (c_table c') = next_id (c_table c) \<and> c_shutting_down c' = c_shutting_down c
      \<and> c_watchers c' = c_watchers c)"

lemma row_kept_refl [simp]: "row_kept p p"
  by (simp add: row_kept_def)

lemma row_kept_trans: "row_kept p q \<Longrightarrow> row_kept q r \<Longrightarrow> row_kept p r"
  by (simp add: row_kept_def)

lemma rel_row_kept_refl [simp]: "rel_option row_kept x x"
  by (cases x) simp_all

lemma rel_row_kept_map: "(\<And>p. row_kept p (f p)) \<Longrightarrow> rel_option row_kept x (map_option f x)"
  by (cases x) simp_all

lemma table_kept_refl [simp]: "table_kept c c"
  by (simp add: table_kept_def)

lemma table_kept_trans:
  assumes "table_kept c d" "table_kept d e"
  shows "table_kept c e"
proof -
  have "rel_option row_kept (row_of c i) (row_of e i)" for i
  proof -
    from assms have "rel_option row_kept (row_of c i) (row_of d i)" "rel_option row_kept (row_of d i) (row_of e i)"
      by (simp_all add: table_kept_def)
    then show ?thesis
      by (cases "row_of c i"; cases "row_of d i"; cases "row_of e i") (auto intro: row_kept_trans)
  qed
  with assms show ?thesis by (simp add: table_kept_def)
qed

lemma table_kept_same:
  "c_table c' = c_table c \<Longrightarrow> c_shutting_down c' = c_shutting_down c \<Longrightarrow> c_watchers c' = c_watchers c \<Longrightarrow> table_kept c c'"
  by (simp add: table_kept_def)

lemma table_kept_with_row: "(\<And>p. row_kept p (f p)) \<Longrightarrow> table_kept c (with_row i f c)"
  by (auto simp: table_kept_def table_facts with_row_def put_row_def rel_row_kept_map split: option.split)

lemma table_kept_fold: "(\<And>x c. table_kept c (f x c)) \<Longrightarrow> table_kept c (fold f xs c)"
  by (induction xs arbitrary: c) (auto intro: table_kept_trans)

lemma table_kept_sample: "table_kept c (snd (sample force now gap raced probe c))"
proof -
  have "row_kept p (sample_row now info p)" for info p
    by (simp add: sample_row_fieldwise row_kept_def)
  then show ?thesis
    by (auto simp: sample_def Let_def table_kept_def hm_get_map_values rel_row_kept_map)
qed

lemma table_kept_reset: "table_kept c (reset_rows now ids c)"
  unfolding reset_rows_def
  by (intro table_kept_fold table_kept_with_row) (simp add: row_kept_def reset_counters_def reset_state_def)

lemma table_kept_save: "table_kept c (snd (save cd ev fails c))"
  by (rule table_kept_same) (auto simp: save_def Let_def split: option.split prod.split)

lemma table_kept_truncate: "table_kept c (fold (truncate_file opens) fs c)"
  by (intro table_kept_fold table_kept_same) (simp_all add: truncate_file_def)

lemma rotate_fold_rest:
  "c_shutting_down (snd (fold (rotate_file cr) ts st)) = c_shutting_down (snd st)
    \<and> c_watchers (snd (fold (rotate_file cr) ts st)) = c_watchers (snd st)"
proof (induction ts arbitrary: st)
  case (Cons t ts)
  have "c_shutting_down (snd (rotate_file cr t st)) = c_shutting_down (snd st)
    \<and> c_watchers (snd (rotate_file cr t st)) = c_watchers (snd st)"
    by (auto simp: rotate_file_def Let_def split: option.split prod.split)
  with Cons show ?case by simp
qed simp

lemma table_kept_rotate: "table_kept c (rotate_logs ev tty cr co c)"
  using rotate_fold_table [of cr] rotate_fold_rest [of cr]
  by (intro table_kept_same)
    (auto simp: rotate_logs_def rotate_daemon_log_def rotate_app_logs_def Let_def split: option.split prod.split, (metis snd_conv)+)

lemma table_kept_worker_tick: "table_kept c (snd (worker_tick ev tty cr co now gap probe c))"
proof -
  obtain over c1 where s: "sample True now gap False probe c = (over, c1)"
    by (cases "sample True now gap False probe c")
  then have "table_kept c c1" using table_kept_sample [of c True now gap False probe] by simp
  then show ?thesis using table_kept_rotate [of c1 ev tty cr co] by (auto simp: worker_tick_def s intro: table_kept_trans)
qed

lemmas kept_facts =
  table_kept_refl table_kept_sample table_kept_reset table_kept_save table_kept_truncate table_kept_worker_tick

lemma table_kept_dispatch:
  assumes "on_the_spot m"
  shows "table_kept c (snd (fst (dispatch e m c)))"
proof (cases m)
  case M_save
  then show ?thesis using table_kept_save [of c "re_codec e" "re_vars e" "re_fails e"]
    by (auto simp: dispatch_def split: sum.split prod.split)
qed (use assms in \<open>auto simp: dispatch_def Let_def on_target_def shown_def fresh_sample_def table_kept_same
      intro: kept_facts split: sum.split option.split\<close>)

lemma table_kept_chore:
  assumes "do_chore ch now c = Some (c', sigs)"
  shows "table_kept c c'"
proof (cases ch)
  case (ChRequest e m)
  with assms table_kept_dispatch [of m c "e\<lparr>re_now := now\<rparr>"] show ?thesis
    by (auto split: if_splits prod.splits)
next
  case (ChTick ev tty can_rename can_open gap probe)
  with assms table_kept_worker_tick show ?thesis by auto
qed (use assms in \<open>auto intro!: table_kept_same simp: publish_def\<close>)

lemma table_kept_row:
  assumes "table_kept c c'"
  shows "row_of c i = Some p \<Longrightarrow> \<exists>p'. row_of c' i = Some p' \<and> row_kept p p'"
    and "row_of c' i = Some p' \<Longrightarrow> \<exists>p. row_of c i = Some p \<and> row_kept p p'"
proof -
  have "rel_option row_kept (row_of c i) (row_of c' i)" using assms by (simp add: table_kept_def)
  then show "row_of c i = Some p \<Longrightarrow> \<exists>p'. row_of c' i = Some p' \<and> row_kept p p'"
    and "row_of c' i = Some p' \<Longrightarrow> \<exists>p. row_of c i = Some p \<and> row_kept p p'"
    by (auto simp: option_rel_Some1 option_rel_Some2)
qed

lemma run_chore_frame:
  assumes "run_chore ch s = Some s'"
  shows "table_kept (y_ctx s) (y_ctx s')" "y_sups s' = y_sups s" "y_calls s' = y_calls s" "y_acks s' = y_acks s"
    "y_next s' = y_next s" "y_now s' = y_now s"
  using assms table_kept_chore by (auto simp: run_chore_def split: option.splits)

end
