(* ===== verification/Daemon.thy ===== *)
theory Daemon
  imports Chores
begin

text \<open>
  The daemon as a transition system: any supervisor, operation or child may move next, any chore may
  be done, the clock may change, requests may arrive and a shutdown may begin.  The invariants say how rows,
  supervisors and operations agree in every reachable state.
\<close>

section \<open>Steps and reachable states\<close>

datatype outside = OReq request | OShutdown

fun outside_step :: "outside \<Rightarrow> sys \<Rightarrow> sys" where
  "outside_step (OReq rq) s = new_call rq s"
| "outside_step OShutdown s = on_ctx (\<lambda>c. publish EvDaemonKill (c\<lparr>c_shutting_down := True\<rparr>)) s"

inductive dstep :: "host \<Rightarrow> (outside \<Rightarrow> bool) \<Rightarrow> sys \<Rightarrow> sys \<Rightarrow> bool" for h ok where
  sup_moves: "sup_step h t ch s = Some s' \<Longrightarrow> dstep h ok s s'"
| call_moves: "call_step h k s = Some s' \<Longrightarrow> dstep h ok s s'"
| child_exits: "sup_of s t = Some u \<Longrightarrow> u_child u = Some ch \<Longrightarrow> ch_exit ch = None \<Longrightarrow>
    dstep h ok s (set_sup t (u\<lparr>u_child := Some (ch\<lparr>ch_exit := Some code\<rparr>)\<rparr>) s)"
| chore_moves: "run_chore c s = Some s' \<Longrightarrow> dstep h ok s s'"
| clock_moves: "dstep h ok s (s\<lparr>y_now := n\<rparr>)"
| outside_moves: "ok o' \<Longrightarrow> dstep h ok s (outside_step o' s)"

text \<open>\<open>room\<close> restricts the runs that are considered, state by state.\<close>

inductive reach :: "host \<Rightarrow> (outside \<Rightarrow> bool) \<Rightarrow> (sys \<Rightarrow> bool) \<Rightarrow> sys \<Rightarrow> bool" for h ok room where
  reach_init: "reach h ok room sys_init"
| reach_step: "reach h ok room s \<Longrightarrow> dstep h ok s s' \<Longrightarrow> room s' \<Longrightarrow> reach h ok room s'"

inductive_cases dstep_elim: "dstep h ok s s'"

text \<open>The same steps as a function: a scheduler's list of moves gives a run, if each of them is possible.\<close>

datatype move =
    MSup nat choice
  | MCall nat
  | MExit nat "i32 option"
  | MChore chore
  | MClock i64
  | MOut outside

definition do_move :: "host \<Rightarrow> (outside \<Rightarrow> bool) \<Rightarrow> move \<Rightarrow> sys \<Rightarrow> sys option" where
  "do_move h ok mv s =
     (case mv of
        MSup t ch \<Rightarrow> sup_step h t ch s
      | MCall k \<Rightarrow> call_step h k s
      | MExit t code \<Rightarrow>
          (case sup_of s t of
             None \<Rightarrow> None
           | Some u \<Rightarrow>
               (case u_child u of
                  Some ch \<Rightarrow>
                    if ch_exit ch = None then Some (set_sup t (u\<lparr>u_child := Some (ch\<lparr>ch_exit := Some code\<rparr>)\<rparr>) s) else None
                | None \<Rightarrow> None))
      | MChore c \<Rightarrow> run_chore c s
      | MClock n \<Rightarrow> Some (s\<lparr>y_now := n\<rparr>)
      | MOut o' \<Rightarrow> if ok o' then Some (outside_step o' s) else None)"

fun run_moves :: "host \<Rightarrow> (outside \<Rightarrow> bool) \<Rightarrow> (sys \<Rightarrow> bool) \<Rightarrow> move list \<Rightarrow> sys \<Rightarrow> sys option" where
  "run_moves h ok room [] s = Some s"
| "run_moves h ok room (mv # mvs) s =
     (case do_move h ok mv s of
        None \<Rightarrow> None
      | Some s' \<Rightarrow> if room s' then run_moves h ok room mvs s' else None)"

lemma dstep_iff_do_move: "dstep h ok s s' \<longleftrightarrow> (\<exists>mv. do_move h ok mv s = Some s')"
proof
  assume "dstep h ok s s'"
  then show "\<exists>mv. do_move h ok mv s = Some s'"
  proof cases
    case (sup_moves t ch)
    then show ?thesis by (intro exI [of _ "MSup t ch"]) (simp add: do_move_def)
  next
    case (call_moves k)
    then show ?thesis by (intro exI [of _ "MCall k"]) (simp add: do_move_def)
  next
    case (child_exits t u ch code)
    then show ?thesis by (intro exI [of _ "MExit t code"]) (simp add: do_move_def)
  next
    case (chore_moves c)
    then show ?thesis by (intro exI [of _ "MChore c"]) (simp add: do_move_def)
  next
    case (clock_moves n)
    then show ?thesis by (intro exI [of _ "MClock n"]) (simp add: do_move_def)
  next
    case (outside_moves o')
    then show ?thesis by (intro exI [of _ "MOut o'"]) (simp add: do_move_def)
  qed
next
  assume "\<exists>mv. do_move h ok mv s = Some s'"
  then obtain mv where "do_move h ok mv s = Some s'" by blast
  then show "dstep h ok s s'"
    by (cases mv) (auto simp: do_move_def intro: dstep.intros split: option.splits if_splits)
qed

lemma run_moves_reach:
  "run_moves h ok room mvs s = Some s' \<Longrightarrow> reach h ok room s \<Longrightarrow> reach h ok room s'"
proof (induction mvs arbitrary: s)
  case (Cons mv mvs)
  then obtain s1 where s1: "do_move h ok mv s = Some s1" "room s1" "run_moves h ok room mvs s1 = Some s'"
    by (auto split: option.splits if_splits)
  then have "dstep h ok s s1" using dstep_iff_do_move by blast
  with Cons.prems(2) s1(2) have "reach h ok room s1" by (blast intro: reach_step)
  with Cons.IH s1(3) show ?case by blast
qed simp

lemmas run_reach = run_moves_reach [OF _ reach_init]

text \<open>What an invariant owes, and what it gives: it holds in every reachable state and along every
  schedule.  A second one may rest on it.\<close>

locale run_invariant =
  fixes ok :: "outside \<Rightarrow> bool" and room :: "sys \<Rightarrow> bool" and inv :: "sys \<Rightarrow> bool"
  assumes at_start: "inv sys_init"
    and kept: "reach h ok room s \<Longrightarrow> inv s \<Longrightarrow> dstep h ok s s' \<Longrightarrow> inv s'"
begin

lemma holds: "reach h ok room s \<Longrightarrow> inv s"
  by (induction rule: reach.induct) (auto intro: at_start kept)

lemma holds_on_schedule: "run_moves h ok room mvs sys_init = Some s \<Longrightarrow> inv s"
  using run_reach by (blast intro: holds)

end

locale layered_invariant = run_invariant ok room inv
  for ok :: "outside \<Rightarrow> bool" and room :: "sys \<Rightarrow> bool" and inv :: "sys \<Rightarrow> bool" +
  fixes above :: "sys \<Rightarrow> bool"
  assumes above_at_start: "above sys_init"
    and above_kept: "reach h ok room s \<Longrightarrow> inv s \<Longrightarrow> above s \<Longrightarrow> dstep h ok s s' \<Longrightarrow> above s'"
begin

lemma run_invariant_above: "run_invariant ok room above"
  by unfold_locales (auto intro: above_at_start above_kept holds)

end

sublocale layered_invariant \<subseteq> upper: run_invariant ok room above
  by (rule run_invariant_above)

lemma reach_room: "reach h ok room s \<Longrightarrow> room sys_init \<Longrightarrow> room s"
  by (induction rule: reach.induct) auto

text \<open>Runs without deletion whose id counter has not reached its last value.\<close>

fun no_delete :: "outside \<Rightarrow> bool" where
  "no_delete (OReq (RqDelete pm)) = False"
| "no_delete (OReq (RqStart app (Some (i, n)))) = (i \<noteq> - 1)"
| "no_delete (OReq rq) = True"
| "no_delete OShutdown = True"

definition id_room :: "sys \<Rightarrow> bool" where
  "id_room s = (next_id (c_table (y_ctx s)) \<noteq> - 1)"

section \<open>Reading a state after an update\<close>

named_theorems sys_facts \<open>what each update leaves in the rows, tasks and acknowledgements\<close>

lemma on_ctx_facts [sys_facts]:
  "y_ctx (on_ctx f s) = f (y_ctx s)" "y_sups (on_ctx f s) = y_sups s" "y_calls (on_ctx f s) = y_calls s"
  "y_acks (on_ctx f s) = y_acks s" "y_next (on_ctx f s) = y_next s" "y_now (on_ctx f s) = y_now s"
  by (simp_all add: on_ctx_def)

lemma set_sup_facts [sys_facts]:
  "y_ctx (set_sup t u s) = y_ctx s" "y_sups (set_sup t u s) = hm_put t u (y_sups s)"
  "y_calls (set_sup t u s) = y_calls s" "y_acks (set_sup t u s) = y_acks s"
  "y_next (set_sup t u s) = y_next s" "y_now (set_sup t u s) = y_now s"
  by (simp_all add: set_sup_def)

lemma goto_facts [sys_facts]:
  "y_ctx (goto t u pc s) = y_ctx s" "y_sups (goto t u pc s) = hm_put t (u\<lparr>u_pc := pc\<rparr>) (y_sups s)"
  "y_calls (goto t u pc s) = y_calls s" "y_acks (goto t u pc s) = y_acks s"
  "y_next (goto t u pc s) = y_next s" "y_now (goto t u pc s) = y_now s"
  by (simp_all add: goto_def set_sup_def)

lemma call_goto_facts [sys_facts]:
  "y_ctx (call_goto k c pc s) = y_ctx s" "y_sups (call_goto k c pc s) = y_sups s"
  "y_calls (call_goto k c pc s) = hm_put k (c\<lparr>k_pc := pc\<rparr>) (y_calls s)"
  "y_acks (call_goto k c pc s) = y_acks s" "y_next (call_goto k c pc s) = y_next s"
  "y_now (call_goto k c pc s) = y_now s"
  by (simp_all add: call_goto_def set_call_def)

lemma set_ack_facts [sys_facts]:
  "y_ctx (set_ack a v s) = y_ctx s" "y_sups (set_ack a v s) = y_sups s"
  "y_calls (set_ack a v s) = y_calls s" "y_next (set_ack a v s) = y_next s" "y_now (set_ack a v s) = y_now s"
  by (simp_all add: set_ack_def)

lemma set_ack_opt_facts [sys_facts]:
  "y_ctx (set_ack_opt a v s) = y_ctx s" "y_sups (set_ack_opt a v s) = y_sups s"
  "y_calls (set_ack_opt a v s) = y_calls s" "y_next (set_ack_opt a v s) = y_next s"
  "y_now (set_ack_opt a v s) = y_now s"
  by (simp_all add: set_ack_opt_def set_ack_facts split: option.split)

lemma fold_set_ack_facts [sys_facts]:
  "y_ctx (fold (\<lambda>a. set_ack a v) as s) = y_ctx s" "y_sups (fold (\<lambda>a. set_ack a v) as s) = y_sups s"
  "y_calls (fold (\<lambda>a. set_ack a v) as s) = y_calls s" "y_next (fold (\<lambda>a. set_ack a v) as s) = y_next s"
  "y_now (fold (\<lambda>a. set_ack a v) as s) = y_now s"
  by (induction as arbitrary: s) (simp_all add: set_ack_facts)

lemma finish_facts [sys_facts]:
  "y_ctx (finish t u s) = y_ctx s" "y_sups (finish t u s) = hm_del t (y_sups s)"
  "y_calls (finish t u s) = y_calls s" "y_next (finish t u s) = y_next s" "y_now (finish t u s) = y_now s"
  by (simp_all add: finish_def Let_def fold_set_ack_facts split: option.split)

lemma send_signal_facts [sys_facts]:
  "y_ctx (send_signal_tree p g b s) = y_ctx s" "y_sups (send_signal_tree p g b s) = y_sups s"
  "y_calls (send_signal_tree p g b s) = y_calls s" "y_acks (send_signal_tree p g b s) = y_acks s"
  "y_next (send_signal_tree p g b s) = y_next s" "y_now (send_signal_tree p g b s) = y_now s"
  by (simp_all add: send_signal_tree_def)

lemma ctx_effects [sys_facts]:
  "c_table (publish_process_event n i nm e c) = c_table c" "c_table (remove_file f c) = c_table c"
  "c_table (write_file f x c) = c_table c" "c_table (remove_watch n i nm c) = c_table c"
  "c_shutting_down (publish_process_event n i nm e c) = c_shutting_down c"
  "c_shutting_down (remove_file f c) = c_shutting_down c"
  "c_shutting_down (remove_watch n i nm c) = c_shutting_down c"
  "c_shutting_down (write_file f x c) = c_shutting_down c"
  "c_shutting_down (with_row i g c) = c_shutting_down c"
  "c_shutting_down (put_row i p c) = c_shutting_down c"
  "c_shutting_down (del_row i c) = c_shutting_down c"
  by (simp_all add: publish_process_event_def publish_def remove_file_def write_file_def remove_watch_def
      with_row_def put_row_def del_row_def split: option.split)

lemma next_id_effects [sys_facts]:
  "next_id (c_table (with_row i g c)) = next_id (c_table c)"
  "next_id (c_table (put_row i p c)) = next_id (c_table c)"
  by (simp_all add: with_row_def put_row_def split: option.split)

lemma procs_put_row [sys_facts]: "procs (c_table (put_row i p c)) = hm_put i p (procs (c_table c))"
  by (simp add: put_row_def)

lemma procs_with_row [sys_facts]:
  "hm_get (procs (c_table (with_row i g c))) j =
     (if j = i then map_option g (hm_get (procs (c_table c)) i) else hm_get (procs (c_table c)) j)"
  by (simp add: with_row_def put_row_def split: option.split)

lemma procs_set_dead [sys_facts]:
  "hm_get (procs (c_table (set_dead i st code c))) j =
     (if j = i then map_option (\<lambda>p. (p\<lparr>p_status := st, p_pid := 0, p_monit := monit_default,
        p_exit_code := (if code \<noteq> None then code else p_exit_code p)\<rparr>)) (hm_get (procs (c_table c)) i)
      else hm_get (procs (c_table c)) j)"
  "next_id (c_table (set_dead i st code c)) = next_id (c_table c)"
  "c_shutting_down (set_dead i st code c) = c_shutting_down c"
  by (simp_all add: set_dead_def sys_facts)

lemma procs_clear_cmd_tx [sys_facts]:
  "hm_get (procs (c_table (clear_cmd_tx i c))) j =
     (if j = i then map_option (\<lambda>p. p\<lparr>p_cmd_tx := None\<rparr>) (hm_get (procs (c_table c)) i)
      else hm_get (procs (c_table c)) j)"
  "next_id (c_table (clear_cmd_tx i c)) = next_id (c_table c)"
  "c_shutting_down (clear_cmd_tx i c) = c_shutting_down c"
  by (simp_all add: clear_cmd_tx_def sys_facts)

lemma new_ack_facts [sys_facts]:
  "fst (new_ack s) = y_next s" "y_ctx (snd (new_ack s)) = y_ctx s" "y_sups (snd (new_ack s)) = y_sups s"
  "y_calls (snd (new_ack s)) = y_calls s" "y_next (snd (new_ack s)) = Suc (y_next s)"
  "y_now (snd (new_ack s)) = y_now s"
  by (simp_all add: new_ack_def)

lemma cron_register_facts [sys_facts]:
  "map_option p_cmd_tx (hm_get (procs (c_table (cron_register h i n c))) j)
     = map_option p_cmd_tx (hm_get (procs (c_table c)) j)"
  "next_id (c_table (cron_register h i n c)) = next_id (c_table c)"
  "c_shutting_down (cron_register h i n c) = c_shutting_down c"
  by (auto simp: cron_register_def sys_facts put_row_def split: option.split)

lemma health_register_facts [sys_facts]:
  "map_option p_cmd_tx (hm_get (procs (c_table (health_register i n c))) j)
     = map_option p_cmd_tx (hm_get (procs (c_table c)) j)"
  "next_id (c_table (health_register i n c)) = next_id (c_table c)"
  "c_shutting_down (health_register i n c) = c_shutting_down c"
  by (auto simp: health_register_def sys_facts put_row_def split: option.split)

section \<open>Frames\<close>

text \<open>A supervisor changes its own row and its own state only.\<close>

definition sup_frame :: "nat \<Rightarrow> u32 \<Rightarrow> sys \<Rightarrow> sys \<Rightarrow> bool" where
  "sup_frame t i s s' =
     ((\<forall>j. j \<noteq> i \<longrightarrow> row s' j = row s j) \<and> (\<forall>t'. t' \<noteq> t \<longrightarrow> sup_of s' t' = sup_of s t')
      \<and> y_calls s' = y_calls s \<and> y_next s' = y_next s \<and> y_now s' = y_now s
      \<and> c_shutting_down (y_ctx s') = c_shutting_down (y_ctx s)
      \<and> next_id (c_table (y_ctx s')) = next_id (c_table (y_ctx s)))"

lemma remove_file_fold_table:
  "c_table (fold (\<lambda>f. remove_file f \<circ> remove_file (rotated_path f)) fs c) = c_table c"
  "c_shutting_down (fold (\<lambda>f. remove_file f \<circ> remove_file (rotated_path f)) fs c) = c_shutting_down c"
  by (induction fs arbitrary: c) (simp_all add: sys_facts)

lemma remove_row_facts [sys_facts]:
  "hm_get (procs (c_table (remove_row i c))) j = (if j = i then None else hm_get (procs (c_table c)) j)"
  "next_id (c_table (remove_row i c)) = next_id (c_table c)"
  "c_shutting_down (remove_row i c) = c_shutting_down c"
  by (auto simp: remove_row_def remove_file_fold_table del_row_def Let_def split: option.split)

lemmas sup_ops =
  su_top_def su_spawn_def su_spawn_failed_def su_spawn_ack_def su_online_def su_first_ack_def
  su_select_def su_kill_mark_def su_kill_signal_def su_kill_wait_def su_killed_def su_restart_ack_def
  su_unwatch_def su_clear_def su_ack_def su_exit_def su_decide_def su_stop_dead_def su_give_up_def
  su_restart_def su_delay_def su_delay_cmd_def

lemmas call_ops =
  st_watch_def st_lock_def st_wait_def st_norm_def rs_lock_def rs_mark_def rs_wait_def rs_reset_def
  ln_shut_def ln_check_def ln_wait_def ln_watch_def ln_arm_def launch_return_def sa_begin_def sa_clash_def
  sa_register_def sa_publish_def

lemma goE: "go ch s = Some s' \<Longrightarrow> (ch = ChGo \<Longrightarrow> s' = s \<Longrightarrow> thesis) \<Longrightarrow> thesis"
  by (auto simp: go_def split: if_splits)

lemma sup_step_frame:
  assumes "sup_step h t ch s = Some s'" "sup_of s t = Some u"
  shows "sup_frame t (u_pm u) s s'"
  using assms
  by (cases "u_pc u")
    (auto simp: sup_step_def sup_frame_def sup_ops sys_facts Let_def elim!: goE
      split: option.splits choice.splits sup_cmd.splits list.splits if_splits restart_decision.splits sum.splits)


section \<open>A sample run\<close>

text \<open>A host that can run everything, and the moves that start one application and then stop it.\<close>

definition sample_host :: host where
  "sample_host =
     \<lparr>h_env = (\<lambda>_. None), h_is_file = (\<lambda>_. False), h_cron_ok = (\<lambda>_. False), h_user = (\<lambda>_. Inl ()),
      h_group = (\<lambda>_. Inl ()), h_cwd = None, h_watch_ok = (\<lambda>_. False)\<rparr>"

definition start_moves :: "move list" where
  "start_moves =
     MOut (OReq (RqStart (app_new ''/srv/a.sh'') None)) # replicate 7 (MCall 0)
     @ [MSup 4 ChGo, MSup 4 (ChSpawnOk 71), MSup 4 ChGo, MSup 4 ChGo]"

definition stop_moves :: "move list" where
  "stop_moves = MOut (OReq (RqStop 0)) # replicate 3 (MCall 5) @ [MSup 4 ChCmd, MSup 4 ChGo, MSup 4 ChGo]"

definition end_moves :: "move list" where
  "end_moves = [MExit 4 (Some 0), MSup 4 ChExit, MSup 4 ChGo, MSup 4 ChGo, MSup 4 ChGo, MCall 5]"

definition sample_state :: "move list \<Rightarrow> sys" where
  "sample_state mvs = (case run_moves sample_host no_delete id_room mvs sys_init of Some s \<Rightarrow> s | None \<Rightarrow> sys_init)"

lemma sample_reach: "reach sample_host no_delete id_room (sample_state mvs)"
  using run_reach [of sample_host no_delete id_room mvs] reach_init
  by (simp add: sample_state_def split: option.split)

abbreviation sample_online :: sys where
  "sample_online \<equiv> sample_state start_moves"

abbreviation sample_killing :: sys where
  "sample_killing \<equiv> sample_state (start_moves @ stop_moves)"

abbreviation sample_stopped :: sys where
  "sample_stopped \<equiv> sample_state (start_moves @ stop_moves @ end_moves)"

definition sup_shows :: "sys \<Rightarrow> nat \<Rightarrow> (sup \<Rightarrow> bool) \<Rightarrow> bool" where
  "sup_shows s t P = (case sup_of s t of Some u \<Rightarrow> P u | None \<Rightarrow> False)"

definition row_shows :: "sys \<Rightarrow> u32 \<Rightarrow> (proc \<Rightarrow> bool) \<Rightarrow> bool" where
  "row_shows s i P = (case row s i of Some p \<Rightarrow> P p | None \<Rightarrow> False)"

lemma sup_showsE: "sup_shows s t P \<Longrightarrow> (\<And>u. sup_of s t = Some u \<Longrightarrow> P u \<Longrightarrow> thesis) \<Longrightarrow> thesis"
  by (auto simp: sup_shows_def split: option.splits)

lemma row_showsE: "row_shows s i P \<Longrightarrow> (\<And>p. row s i = Some p \<Longrightarrow> P p \<Longrightarrow> thesis) \<Longrightarrow> thesis"
  by (auto simp: row_shows_def split: option.splits)

end
