(* ===== verification/Acks.thy ===== *)
theory Acks
  imports Daemon "HOL-Library.Multiset"
begin

text \<open>
  Acknowledgements in every run, deletions and shutdown included: an unanswered one-shot channel
  is owned by exactly one supervisor, so no operation waits for an answer nobody can give.
\<close>

section \<open>Ownership\<close>

definition acks_at :: "sys \<Rightarrow> nat \<Rightarrow> nat list" where
  "acks_at s t = (case sup_of s t of Some u \<Rightarrow> sup_acks u | None \<Rightarrow> [])"

definition acks_owned :: "sys \<Rightarrow> bool" where
  "acks_owned s =
     ((\<forall>t. sup_of s t \<noteq> None \<longrightarrow> t < y_next s)
      \<and> (\<forall>a. ack_of s a \<noteq> None \<longrightarrow> a < y_next s)
      \<and> (\<forall>t. distinct (acks_at s t) \<and> (\<forall>a \<in> set (acks_at s t). ack_of s a = Some AkPending))
      \<and> (\<forall>t t'. t \<noteq> t' \<longrightarrow> set (acks_at s t) \<inter> set (acks_at s t') = {})
      \<and> (\<forall>a. ack_of s a = Some AkPending \<longrightarrow> (\<exists>t. a \<in> set (acks_at s t))))"

lemma acks_owned_init: "acks_owned sys_init"
  by (simp add: acks_owned_def acks_at_def sys_init_def)

lemma ack_set_ack:
  "ack_of (set_ack a v s) b = (if b = a \<and> ack_of s a = Some AkPending then Some v else ack_of s b)"
  by (auto simp: set_ack_def)

lemma ack_set_ack_opt:
  "ack_of (set_ack_opt o' v s) b = (if o' = Some b \<and> ack_of s b = Some AkPending then Some v else ack_of s b)"
  by (auto simp: set_ack_opt_def ack_set_ack split: option.split)

lemma ack_fold_set_ack:
  "v \<noteq> AkPending \<Longrightarrow> ack_of (fold (\<lambda>a. set_ack a v) as s) b =
     (if b \<in> set as \<and> ack_of s b = Some AkPending then Some v else ack_of s b)"
  by (induction as arbitrary: s) (auto simp: ack_set_ack)

lemma ack_finish:
  "ack_of (finish t u s) b =
     (if b \<in> set (sup_acks u) \<and> ack_of s b = Some AkPending then Some AkDropped else ack_of s b)"
  by (simp add: finish_def Let_def ack_fold_set_ack split: option.split)

lemma ack_new_ack: "ack_of (snd (new_ack s)) b = (if b = y_next s then Some AkPending else ack_of s b)"
  by (simp add: new_ack_def)

lemmas ack_facts = ack_set_ack ack_set_ack_opt ack_finish ack_new_ack

section \<open>A supervisor answers what it gives up\<close>

definition acks_kept :: "nat \<Rightarrow> sys \<Rightarrow> sys \<Rightarrow> bool" where
  "acks_kept t s s' =
     (distinct (acks_at s' t) \<and> set (acks_at s' t) \<subseteq> set (acks_at s t)
      \<and> (\<forall>a. a \<notin> set (acks_at s t) \<longrightarrow> ack_of s' a = ack_of s a)
      \<and> (\<forall>a \<in> set (acks_at s' t). ack_of s' a = Some AkPending)
      \<and> (\<forall>a \<in> set (acks_at s t). a \<notin> set (acks_at s' t) \<longrightarrow> ack_of s' a \<noteq> Some AkPending \<and> ack_of s' a \<noteq> None))"

lemma distinct_mset_eq: "mset xs = mset ys \<Longrightarrow> distinct xs = distinct ys \<and> set xs = set ys"
  using mset_eq_imp_distinct_iff mset_eq_setD by blast

lemma acks_kept_same:
  assumes "distinct (acks_at s t)" "\<And>a. a \<in> set (acks_at s t) \<Longrightarrow> ack_of s a = Some AkPending"
    and "y_acks s' = y_acks s" "mset (acks_at s' t) = mset (acks_at s t)"
  shows "acks_kept t s s'"
  using assms distinct_mset_eq [OF assms(4)] by (simp add: acks_kept_def)

lemma acks_kept_gone:
  assumes "sup_of s' t = None" "\<And>a. a \<notin> set (acks_at s t) \<Longrightarrow> ack_of s' a = ack_of s a"
    and "\<And>a. a \<in> set (acks_at s t) \<Longrightarrow> ack_of s' a \<noteq> Some AkPending \<and> ack_of s' a \<noteq> None"
  shows "acks_kept t s s'"
  using assms by (simp add: acks_kept_def acks_at_def)

lemma acks_kept_answer:
  assumes own: "distinct (acks_at s t)" "\<And>a. a \<in> set (acks_at s t) \<Longrightarrow> ack_of s a = Some AkPending"
    and ans: "\<And>b. ack_of s' b = ack_of (set_ack a v s) b" "v \<noteq> AkPending"
    and rest: "mset (acks_at s t) = add_mset a (mset (acks_at s' t))"
  shows "acks_kept t s s'"
proof -
  have "mset (acks_at s t) = mset (a # acks_at s' t)" using rest by simp
  then have "distinct (a # acks_at s' t)" "set (acks_at s t) = insert a (set (acks_at s' t))"
    using own(1) distinct_mset_eq [of "acks_at s t" "a # acks_at s' t"] by auto
  with own ans show ?thesis by (auto simp: acks_kept_def ack_set_ack)
qed

lemma acks_at_set_sup [simp]: "acks_at (set_sup t u s) t = sup_acks u"
  by (simp add: acks_at_def sys_facts)

lemma acks_at_goto [simp]: "acks_at (goto t u pc s) t = sup_acks (u\<lparr>u_pc := pc\<rparr>)"
  by (simp add: acks_at_def sys_facts)

lemma acks_at_set_ack [simp]:
  "acks_at (set_ack a v s) t = acks_at s t" "acks_at (set_ack_opt ao v s) t = acks_at s t"
  by (simp_all add: acks_at_def sys_facts)

lemma acks_at_cur: "sup_of s t = Some u \<Longrightarrow> acks_at s t = sup_acks u"
  by (simp add: acks_at_def)

lemma acks_finish:
  assumes "sup_of s t = Some u" "\<And>a. a \<in> set (acks_at s t) \<Longrightarrow> ack_of s a = Some AkPending" "y_acks s1 = y_acks s"
  shows "acks_kept t s (finish t u s1)"
  using assms by (intro acks_kept_gone) (auto simp: sys_facts ack_finish acks_at_cur)

lemma acks_finish_ack:
  assumes "sup_of s t = Some u" "\<And>a. a \<in> set (acks_at s t) \<Longrightarrow> ack_of s a = Some AkPending"
    "a \<in> set (acks_at s t)"
  shows "acks_kept t s (finish t u (set_ack a AkOk s))"
  using assms by (intro acks_kept_gone) (auto simp: sys_facts ack_finish ack_set_ack acks_at_cur)

lemma acks_first:
  assumes "sup_of s t = Some u"
    and own: "distinct (acks_at s t)" "\<And>a. a \<in> set (acks_at s t) \<Longrightarrow> ack_of s a = Some AkPending"
    and "pc_acks pc = pc_acks (u_pc u)" "v \<noteq> AkPending"
  shows "acks_kept t s (set_ack_opt (u_first u) v (set_sup t (u\<lparr>u_first := None, u_pc := pc\<rparr>) s))"
proof (cases "u_first u")
  case None
  with assms show ?thesis
    by (intro acks_kept_same own) (simp_all add: set_ack_opt_def sys_facts acks_at_cur sup_acks_def)
next
  case (Some a)
  with assms show ?thesis
    by (intro acks_kept_answer [where a = a and v = v] own)
      (auto simp: set_ack_opt_def sys_facts acks_at_cur sup_acks_def ack_set_ack)
qed

lemma sup_step_acks:
  assumes step: "sup_step h t ch s = Some s'" and u: "sup_of s t = Some u"
    and own: "distinct (acks_at s t)" "\<And>a. a \<in> set (acks_at s t) \<Longrightarrow> ack_of s a = Some AkPending"
  shows "acks_kept t s s'"
proof -
  note fin = acks_finish [OF u own(2)]
  show ?thesis
  proof (cases "u_pc u")
    case (U_spawn_ack e)
    with step u acks_first [OF u own, of "U_clear None" "AkErr e"] show ?thesis
      by (auto simp: sup_step_def su_spawn_ack_def elim!: goE)
  next
    case (U_first_ack l)
    with step u acks_first [OF u own, of "U_select l" AkOk] show ?thesis
      by (auto simp: sup_step_def su_first_ack_def elim!: goE)
  next
    case (U_restart_ack a)
    with step u have s': "s' = set_ack a AkOk (goto t u U_top s)"
      by (auto simp: sup_step_def su_restart_ack_def elim!: goE)
    with U_restart_ack u show ?thesis
      by (intro acks_kept_answer [OF own, where a = a and v = AkOk])
        (simp_all add: sys_facts acks_at_cur sup_acks_def ack_set_ack)
  next
    case (U_ack a)
    with step u have s': "s' = finish t u (set_ack a AkOk s)"
      by (auto simp: sup_step_def su_ack_def elim!: goE)
    from U_ack u have "a \<in> set (acks_at s t)" by (simp add: acks_at_cur sup_acks_def)
    with s' show ?thesis using acks_finish_ack [OF u own(2)] by simp
  qed (use step u in \<open>auto simp: sup_step_def sup_ops Let_def elim!: goE
      split: option.splits choice.splits sup_cmd.splits list.splits if_splits restart_decision.splits sum.splits
      intro!: fin, auto intro!: acks_kept_same [OF own] simp: sys_facts acks_at_cur sup_acks_def\<close>)
qed


section \<open>Ownership is invariant\<close>

lemma acks_owned_at:
  assumes "acks_owned s"
  shows "distinct (acks_at s t)" "\<And>a. a \<in> set (acks_at s t) \<Longrightarrow> ack_of s a = Some AkPending"
    "\<And>a. a \<in> set (acks_at s t) \<Longrightarrow> a < y_next s"
  using assms unfolding acks_owned_def by (blast, blast, metis option.distinct(1))

lemma acks_owned_unique:
  "acks_owned s \<Longrightarrow> a \<in> set (acks_at s t) \<Longrightarrow> a \<in> set (acks_at s t') \<Longrightarrow> t = t'"
  unfolding acks_owned_def by blast

lemma acks_owned_same:
  assumes own: "acks_owned s" and same: "\<And>t. acks_at s' t = acks_at s t" "y_acks s' = y_acks s" "y_next s \<le> y_next s'"
    "\<And>t. sup_of s' t \<noteq> None \<Longrightarrow> sup_of s t \<noteq> None"
  shows "acks_owned s'"
proof -
  have at: "acks_at s' = acks_at s" using same(1) by (intro ext)
  have "t < y_next s'" if "sup_of s' t \<noteq> None" for t
    using same(4) [OF that] own same(3) by (auto simp: acks_owned_def dest: order.strict_trans2)
  moreover have "a < y_next s'" if "ack_of s a \<noteq> None" for a
    using that own same(3) by (auto simp: acks_owned_def dest: order.strict_trans2)
  ultimately show ?thesis using own unfolding acks_owned_def at same(2) by blast
qed

lemma acks_owned_give:
  assumes own: "acks_owned s" and more: "y_next s < y_next s'"
    and acks: "\<And>b. ack_of s' b = (if b = y_next s then Some AkPending else ack_of s b)"
    and here: "mset (acks_at s' t0) = add_mset (y_next s) (mset (acks_at s t0))"
    and others: "\<And>t. t \<noteq> t0 \<Longrightarrow> acks_at s' t = acks_at s t"
    and sups: "\<And>t. sup_of s' t \<noteq> None \<Longrightarrow> t < y_next s'"
  shows "acks_owned s'"
proof -
  let ?n = "y_next s"
  have fresh: "?n \<notin> set (acks_at s t)" for t using acks_owned_at(3) [OF own] by blast
  have "mset (acks_at s' t0) = mset (?n # acks_at s t0)" using here by simp
  from distinct_mset_eq [OF this] fresh acks_owned_at(1) [OF own]
  have d0: "distinct (acks_at s' t0)" and s0: "set (acks_at s' t0) = insert ?n (set (acks_at s t0))" by auto
  have at: "set (acks_at s' t) = (if t = t0 then insert ?n (set (acks_at s t0)) else set (acks_at s t))" for t
    using s0 others by simp
  have dist: "distinct (acks_at s' t)" for t using d0 others acks_owned_at(1) [OF own] by (cases "t = t0") auto
  have disj: "set (acks_at s' t) \<inter> set (acks_at s' t') = {}" if "t \<noteq> t'" for t t'
    using that fresh own by (auto simp: at acks_owned_def)
  show ?thesis
    unfolding acks_owned_def
  proof (intro conjI allI impI ballI)
    show "t < y_next s'" if "sup_of s' t \<noteq> None" for t using that by (rule sups)
    show "a < y_next s'" if "ack_of s' a \<noteq> None" for a
      using that own more by (auto simp: acks acks_owned_def split: if_splits dest: order.strict_trans)
    show "distinct (acks_at s' t)" for t by (rule dist)
    show "ack_of s' a = Some AkPending" if "a \<in> set (acks_at s' t)" for t a
      using that acks_owned_at(2) [OF own] by (auto simp: at acks split: if_splits)
    show "set (acks_at s' t) \<inter> set (acks_at s' t') = {}" if "t \<noteq> t'" for t t' using that by (rule disj)
    show "\<exists>t. a \<in> set (acks_at s' t)" if "ack_of s' a = Some AkPending" for a
      using that own by (cases "a = ?n") (auto simp: at acks acks_owned_def)
  qed
qed

lemma acks_owned_answered:
  assumes own: "acks_owned s" and more: "y_next s < y_next s'"
    and acks: "\<And>b. ack_of s' b = (if b = y_next s then Some v else ack_of s b)" "v \<noteq> AkPending"
    and same: "\<And>t. acks_at s' t = acks_at s t" "\<And>t. sup_of s' t \<noteq> None \<Longrightarrow> sup_of s t \<noteq> None"
  shows "acks_owned s'"
proof -
  have fresh: "y_next s \<notin> set (acks_at s t)" for t using acks_owned_at(3) [OF own] by blast
  show ?thesis
    unfolding acks_owned_def
  proof (intro conjI allI impI ballI)
    show "t < y_next s'" if "sup_of s' t \<noteq> None" for t
      using same(2) [OF that] own more by (auto simp: acks_owned_def dest: order.strict_trans)
    show "a < y_next s'" if "ack_of s' a \<noteq> None" for a
      using that own more by (auto simp: acks acks_owned_def split: if_splits dest: order.strict_trans)
    show "distinct (acks_at s' t)" for t using acks_owned_at(1) [OF own] by (simp add: same)
    show "ack_of s' a = Some AkPending" if "a \<in> set (acks_at s' t)" for t a
      using that acks_owned_at(2) [OF own] fresh by (auto simp: same acks)
    show "set (acks_at s' t) \<inter> set (acks_at s' t') = {}" if "t \<noteq> t'" for t t'
      using that own by (auto simp: same acks_owned_def)
    show "\<exists>t. a \<in> set (acks_at s' t)" if "ack_of s' a = Some AkPending" for a
      using that own acks(2) by (cases "a = y_next s") (auto simp: same acks(1) acks_owned_def)
  qed
qed

lemma acks_owned_sup_step:
  assumes own: "acks_owned s" and step: "sup_step h t ch s = Some s'"
  shows "acks_owned s'"
proof -
  obtain u where u: "sup_of s t = Some u" using step by (auto simp: sup_step_def split: option.splits)
  have kept: "acks_kept t s s'" using sup_step_acks [OF step u] acks_owned_at [OF own] by blast
  have fr: "y_next s' = y_next s" "\<And>t'. t' \<noteq> t \<Longrightarrow> sup_of s' t' = sup_of s t'"
    using sup_step_frame [OF step u] by (auto simp: sup_frame_def)
  have at: "acks_at s' t' = acks_at s t'" if "t' \<noteq> t" for t' using fr(2) [OF that] by (simp add: acks_at_def)
  have sub: "set (acks_at s' t') \<subseteq> set (acks_at s t')" for t'
    using kept at by (cases "t' = t") (auto simp: acks_kept_def)
  have foreign: "a \<notin> set (acks_at s t)" if "a \<in> set (acks_at s t')" "t' \<noteq> t" for a t'
    using that acks_owned_unique [OF own] by blast
  show ?thesis
    unfolding acks_owned_def
  proof (intro conjI allI impI ballI)
    show "t' < y_next s'" if "sup_of s' t' \<noteq> None" for t'
      using that own u fr by (cases "t' = t") (auto simp: acks_owned_def)
    show "a < y_next s'" if "ack_of s' a \<noteq> None" for a
      using that own kept fr(1) acks_owned_at(3) [OF own]
      by (cases "a \<in> set (acks_at s t)") (auto simp: acks_owned_def acks_kept_def)
    show "distinct (acks_at s' t')" for t'
      using kept at acks_owned_at(1) [OF own] by (cases "t' = t") (auto simp: acks_kept_def)
    show "ack_of s' a = Some AkPending" if "a \<in> set (acks_at s' t')" for t' a
      using that kept at foreign acks_owned_at(2) [OF own] by (cases "t' = t") (auto simp: acks_kept_def)
    show "set (acks_at s' t1) \<inter> set (acks_at s' t2) = {}" if "t1 \<noteq> t2" for t1 t2
      using that own sub [of t1] sub [of t2] unfolding acks_owned_def by blast
    show "\<exists>t'. a \<in> set (acks_at s' t')" if pend: "ack_of s' a = Some AkPending" for a
    proof (cases "a \<in> set (acks_at s t)")
      case True
      with pend kept show ?thesis by (auto simp: acks_kept_def)
    next
      case False
      with pend kept have "ack_of s a = Some AkPending" by (auto simp: acks_kept_def)
      with own obtain t' where "a \<in> set (acks_at s t')" by (auto simp: acks_owned_def)
      with False have "t' \<noteq> t" by blast
      with \<open>a \<in> set (acks_at s t')\<close> at show ?thesis by metis
    qed
  qed
qed

lemma acks_at_cong: "y_sups s' = y_sups s \<Longrightarrow> acks_at s' t = acks_at s t"
  by (simp add: acks_at_def)

lemma cmd_ack_new: "cmd_ack (mk a) = a \<Longrightarrow> mset (sup_acks (u\<lparr>u_queue := u_queue u @ [mk a]\<rparr>)) = add_mset a (mset (sup_acks u))"
  by (simp add: sup_acks_def)

lemma acks_owned_send:
  assumes own: "acks_owned s" and step: "send_step k cl c mk sent gone s = Some s'" and mk: "\<And>a. cmd_ack (mk a) = a"
  shows "acks_owned s'"
proof (cases "sup_of s c")
  case None
  with step show ?thesis
    by (intro acks_owned_same [OF own]) (auto simp: send_step_def send_cmd_def acks_at_def sys_facts)
next
  case (Some u)
  with step have s': "s' = call_goto k cl (sent (y_next s)) (set_sup c (u\<lparr>u_queue := u_queue u @ [mk (y_next s)]\<rparr>) (snd (new_ack s)))"
    by (auto simp: send_step_def send_cmd_def new_ack_def split: if_splits)
  have "\<And>t. sup_of s t \<noteq> None \<Longrightarrow> t < y_next s" using own by (auto simp: acks_owned_def)
  with Some show ?thesis
    by (intro acks_owned_give [OF own, where ?t0.0 = c])
      (auto simp: s' sys_facts ack_new_ack acks_at_def cmd_ack_new mk less_SucI split: if_splits)
qed

text \<open>All other steps of an operation leave supervisors and acknowledgements alone.\<close>

definition calls_quiet :: "sys \<Rightarrow> sys \<Rightarrow> bool" where
  "calls_quiet s s' = (y_sups s' = y_sups s \<and> y_acks s' = y_acks s \<and> y_next s \<le> y_next s')"

fun pc_quiet :: "call_pc \<Rightarrow> bool" where
  "pc_quiet (ST_send c) = False"
| "pc_quiet (RS_send c) = False"
| "pc_quiet (DL_send c nm) = False"
| "pc_quiet (LN_spawn kont) = False"
| "pc_quiet _ = True"

lemma call_step_quiet:
  assumes "call_step h k s = Some s'" "call_of s k = Some cl" "pc_quiet (k_pc cl)"
  shows "calls_quiet s s'"
  using assms
  by (cases "k_pc cl")
    (auto simp: call_step_def calls_quiet_def call_ops dl_lock_def dl_wait_def dl_remove_def dl_unwatch_def sa_row_def sys_facts Let_def
      split: option.splits if_splits ack.splits launch_cont.splits sum.splits prod.splits)

lemma acks_owned_call_step:
  assumes own: "acks_owned s" and step: "call_step h k s = Some s'"
  shows "acks_owned s'"
proof -
  obtain cl where cl: "call_of s k = Some cl" using step by (auto simp: call_step_def split: option.splits)
  note send = acks_owned_send [OF own]
  have lt: "\<And>t. sup_of s t \<noteq> None \<Longrightarrow> t < y_next s" using own by (auto simp: acks_owned_def)
  have quiet: "acks_owned s'" if "calls_quiet s s'"
    using that by (intro acks_owned_same [OF own]) (auto simp: calls_quiet_def acks_at_def)
  show ?thesis
  proof (cases "k_pc cl")
    case (LN_spawn kont)
    then have s': "s' = call_goto k cl (LN_wait (y_next s) kont) (spawn_sup (k_pm cl) (y_next s) (snd (new_ack s)))"
      using step cl by (simp add: call_step_def ln_spawn_def new_ack_def)
    show ?thesis
    proof (cases "\<exists>p. row s (k_pm cl) = Some p \<and> p_cmd_tx p = None")
      case True
      have "sup_of s (Suc (y_next s)) = None" using lt [of "Suc (y_next s)"] by (cases "sup_of s (Suc (y_next s))") auto
      with True lt show ?thesis
        by (intro acks_owned_give [OF own, where ?t0.0 = "Suc (y_next s)"])
          (auto simp: s' spawn_sup_def sys_facts ack_new_ack acks_at_def sup_acks_def Let_def less_SucI
            split: if_splits option.splits)
    next
      case False
      define v where "v = (case row s (k_pm cl) of None \<Rightarrow> AkErr (E_vanished (k_pm cl)) | Some p \<Rightarrow> AkOk)"
      with False show ?thesis
        by (intro acks_owned_answered [OF own, where v = v])
          (auto simp: s' v_def spawn_sup_def sys_facts ack_new_ack ack_set_ack acks_at_def split: option.splits if_splits)
    qed
  next
    case (ST_send c)
    with step cl send show ?thesis by (auto simp: call_step_def)
  next
    case (RS_send c)
    with step cl send show ?thesis by (auto simp: call_step_def)
  next
    case (DL_send c nm)
    with step cl send show ?thesis by (auto simp: call_step_def)
  qed (use call_step_quiet [OF step cl] quiet in simp_all)
qed


lemma acks_owned_dstep:
  assumes own: "acks_owned s" and step: "dstep h ok s s'"
  shows "acks_owned s'"
  using step
proof cases
  case (sup_moves t ch)
  with own show ?thesis by (blast intro: acks_owned_sup_step)
next
  case (call_moves k)
  with own show ?thesis by (blast intro: acks_owned_call_step)
next
  case (child_exits t u ch code)
  have "acks_at s' t' = acks_at s t'" for t' using child_exits(1,2) by (simp add: acks_at_def sys_facts sup_acks_def)
  with child_exits show ?thesis by (intro acks_owned_same [OF own]) (auto simp: sys_facts split: if_splits)
next
  case (chore_moves c)
  then show ?thesis
    by (intro acks_owned_same [OF own]) (auto simp: acks_at_def run_chore_frame [OF chore_moves])
next
  case (clock_moves n)
  then show ?thesis by (intro acks_owned_same [OF own]) (auto simp: acks_at_def)
next
  case (outside_moves o')
  then show ?thesis
    by (intro acks_owned_same [OF own]; cases o')
      (auto simp: acks_at_def new_call_def set_call_def sys_facts split: prod.splits)
qed

interpretation acks_inv: run_invariant ok room acks_owned for ok room
  by unfold_locales (auto intro: acks_owned_init acks_owned_dstep)

section \<open>Properties\<close>

text \<open>C13: No operation waits for an answer nobody can give: in every run, deletions and shutdown
  included, each unanswered acknowledgement is owned by exactly one supervisor that is still there,
  and no supervisor owns an acknowledgement that has been answered.\<close>
theorem pending_acks_have_one_owner:
  assumes "reach h ok room s"
  shows "(ack_of s a = Some AkPending \<longleftrightarrow> (\<exists>t u. sup_of s t = Some u \<and> a \<in> set (sup_acks u)))
    \<and> (sup_of s t = Some u \<and> a \<in> set (sup_acks u) \<and> sup_of s t' = Some u' \<and> a \<in> set (sup_acks u') \<longrightarrow> t = t')"
proof -
  have own: "acks_owned s" using assms by (rule acks_inv.holds)
  have at: "a \<in> set (acks_at s t) \<longleftrightarrow> (\<exists>u. sup_of s t = Some u \<and> a \<in> set (sup_acks u))" for t
    by (cases "sup_of s t") (simp_all add: acks_at_def)
  have "ack_of s a = Some AkPending \<longleftrightarrow> (\<exists>t. a \<in> set (acks_at s t))"
    using own by (auto simp: acks_owned_def)
  with acks_owned_unique [OF own, of a t t'] show ?thesis by (auto simp: at)
qed

lemma pending_acks_have_one_owner_witness:
  "ack_of sample_killing 6 = Some AkPending \<and> (\<exists>t u. sup_of sample_killing t = Some u \<and> 6 \<in> set (sup_acks u))"
proof -
  have "ack_of sample_killing 6 = Some AkPending" by code_simp
  with pending_acks_have_one_owner [OF sample_reach, of "start_moves @ stop_moves" 6] show ?thesis by blast
qed

end
