(* ===== verification/Supervision.thy ===== *)
theory Supervision
  imports Daemon
begin

text \<open>
  How rows and supervisor tasks agree in every state a run without deletions reaches: each row's
  command channel belongs to exactly one supervisor that serves this row (or served it until a
  shutdown), a pid in a row is the pid of a child that supervisor owns or has just reaped, and a row
  without supervisor is at rest.  Runs with deletions are the subject of theory \<open>Deletion\<close>.
\<close>

section \<open>The agreement of a supervisor with its row\<close>

text \<open>A supervisor is retired once it has cleared its row's channel and only has to answer.\<close>

fun retired_pc :: "sup_pc \<Rightarrow> bool" where
  "retired_pc (U_ack a) = True"
| "retired_pc (U_unwatch l a) = True"
| "retired_pc _ = False"

abbreviation retired :: "sup \<Rightarrow> bool" where
  "retired u \<equiv> retired_pc (u_pc u)"

definition at_rest :: "proc \<Rightarrow> bool" where
  "at_rest p = (p_pid p = 0 \<and> p_status p \<in> {Stopped, Errored, Stopping})"

definition runs_as :: "sup \<Rightarrow> proc \<Rightarrow> bool" where
  "runs_as u p = (p_pid p \<noteq> 0 \<and> map_option ch_pid (u_child u) = Some (p_pid p))"

fun pc_agrees :: "sup_pc \<Rightarrow> sup \<Rightarrow> proc \<Rightarrow> bool" where
  "pc_agrees (U_first_ack l) u p = runs_as u p"
| "pc_agrees (U_select l) u p = runs_as u p"
| "pc_agrees (U_kill_mark l c) u p = runs_as u p"
| "pc_agrees (U_kill_signal l c) u p = runs_as u p"
| "pc_agrees (U_kill_wait l c n) u p = runs_as u p"
| "pc_agrees (U_exit l e) u p = (u_child u = None)"
| "pc_agrees (U_killed l c) u p = (u_child u = None)"
| "pc_agrees (U_online l) u p = (u_child u \<noteq> None \<and> child_pid u \<noteq> 0 \<and> p_pid p = 0)"
| "pc_agrees (U_spawn_ack e) u p = (u_child u = None \<and> at_rest p)"
| "pc_agrees (U_clear ao) u p = (u_child u = None \<and> at_rest p)"
| "pc_agrees _ u p = (u_child u = None \<and> p_pid p = 0)"

abbreviation agrees :: "sup \<Rightarrow> proc \<Rightarrow> bool" where
  "agrees u p \<equiv> pc_agrees (u_pc u) u p"

text \<open>Commands and operations of a run without deletions.\<close>

fun is_delete :: "sup_cmd \<Rightarrow> bool" where
  "is_delete (CmdDelete a) = True"
| "is_delete _ = False"

fun pc_no_delete :: "sup_pc \<Rightarrow> bool" where
  "pc_no_delete (U_kill_mark l c) = (\<not> is_delete c)"
| "pc_no_delete (U_kill_signal l c) = (\<not> is_delete c)"
| "pc_no_delete (U_kill_wait l c n) = (\<not> is_delete c)"
| "pc_no_delete (U_killed l c) = (\<not> is_delete c)"
| "pc_no_delete (U_delay_cmd l e c) = (\<not> is_delete c)"
| "pc_no_delete (U_unwatch l a) = False"
| "pc_no_delete _ = True"

definition sup_no_delete :: "sup \<Rightarrow> bool" where
  "sup_no_delete u = (pc_no_delete (u_pc u) \<and> list_all (\<lambda>c. \<not> is_delete c) (u_queue u))"

fun fixed_fits :: "(u32 \<times> u32) option \<Rightarrow> bool" where
  "fixed_fits (Some (i, n)) = (i \<noteq> - 1)"
| "fixed_fits None = True"

fun cont_fits :: "launch_cont \<Rightarrow> bool" where
  "cont_fits KReturn = True"
| "cont_fits (KStart app fixed i ids pm) = fixed_fits fixed"

fun call_no_delete :: "call_pc \<Rightarrow> bool" where
  "call_no_delete DL_lock = False"
| "call_no_delete (DL_send c n) = False"
| "call_no_delete (DL_wait c a n) = False"
| "call_no_delete (DL_remove n) = False"
| "call_no_delete (DL_unwatch n) = False"
| "call_no_delete (LN_shut k) = cont_fits k"
| "call_no_delete (LN_check k) = cont_fits k"
| "call_no_delete (LN_spawn k) = cont_fits k"
| "call_no_delete (LN_wait a k) = cont_fits k"
| "call_no_delete (LN_watch k) = cont_fits k"
| "call_no_delete (LN_arm k) = cont_fits k"
| "call_no_delete (SA_begin app fixed) = fixed_fits fixed"
| "call_no_delete (SA_clash app fixed) = fixed_fits fixed"
| "call_no_delete (SA_row app fixed i ids) = fixed_fits fixed"
| "call_no_delete (SA_register app fixed i ids pm) = fixed_fits fixed"
| "call_no_delete (SA_publish app fixed i ids pm) = fixed_fits fixed"
| "call_no_delete _ = True"

section \<open>The invariant\<close>

text \<open>What holds between supervisor \<open>t\<close> in state \<open>u\<close> and the rows of \<open>s\<close>.\<close>

definition sup_serves :: "sys \<Rightarrow> nat \<Rightarrow> sup \<Rightarrow> bool" where
  "sup_serves s t u =
     (if retired u then u_child u = None
      else \<exists>p. row s (u_pm u) = Some p \<and> p_cmd_tx p = Some t \<and> agrees u p)"

definition row_served :: "sys \<Rightarrow> u32 \<Rightarrow> proc \<Rightarrow> bool" where
  "row_served s i p =
     (case p_cmd_tx p of
        None \<Rightarrow> at_rest p
      | Some t \<Rightarrow>
          (\<exists>u. sup_of s t = Some u \<and> u_pm u = i \<and> \<not> retired u)
          \<or> (c_shutting_down (y_ctx s) \<and> sup_of s t = None \<and> t < y_next s \<and> p_pid p = 0))"

definition supervised :: "sys \<Rightarrow> bool" where
  "supervised s =
     ((\<forall>t u. sup_of s t = Some u \<longrightarrow> t < y_next s \<and> sup_no_delete u \<and> sup_serves s t u)
      \<and> (\<forall>i p. row s i = Some p \<longrightarrow> row_served s i p)
      \<and> (\<forall>k cl. call_of s k = Some cl \<longrightarrow> call_no_delete (k_pc cl))
      \<and> ids_below (c_table (y_ctx s)))"

lemma supervised_sup:
  assumes "supervised s" "sup_of s t = Some u"
  shows "t < y_next s" "sup_no_delete u" "sup_serves s t u"
  using assms by (auto simp: supervised_def)

lemma supervised_row: "supervised s \<Longrightarrow> row s i = Some p \<Longrightarrow> row_served s i p"
  by (simp add: supervised_def)

lemma supervised_call: "supervised s \<Longrightarrow> call_of s k = Some cl \<Longrightarrow> call_no_delete (k_pc cl)"
  by (simp add: supervised_def)

lemma supervised_init: "supervised sys_init"
  by (simp add: supervised_def sys_init_def ctx_default_def table_default_def ids_below_def)

section \<open>Steps of a supervisor\<close>

text \<open>What one step makes of a supervisor that serves the row \<open>p\<close>: it still serves it, or it has
  left the row at rest.\<close>

definition still_serves :: "nat \<Rightarrow> u32 \<Rightarrow> sys \<Rightarrow> bool" where
  "still_serves t i s' =
     (\<exists>u' p'. sup_of s' t = Some u' \<and> row s' i = Some p' \<and> u_pm u' = i \<and> \<not> retired u'
        \<and> p_cmd_tx p' = Some t \<and> agrees u' p' \<and> sup_no_delete u')"

text \<open>At a shutdown a supervisor whose child has just exited returns without clearing its row's channel.\<close>

definition left_behind :: "nat \<Rightarrow> u32 \<Rightarrow> sys \<Rightarrow> bool" where
  "left_behind t i s' =
     (c_shutting_down (y_ctx s') \<and> sup_of s' t = None
      \<and> (\<exists>p'. row s' i = Some p' \<and> p_cmd_tx p' = Some t \<and> p_pid p' = 0))"

definition has_left :: "nat \<Rightarrow> u32 \<Rightarrow> sys \<Rightarrow> bool" where
  "has_left t i s' =
     (\<exists>p'. row s' i = Some p' \<and> p_cmd_tx p' = None \<and> at_rest p'
        \<and> (\<forall>u'. sup_of s' t = Some u' \<longrightarrow> retired u' \<and> u_child u' = None \<and> sup_no_delete u'))"

lemma channel_open_row:
  assumes "row s i = Some p" "p_cmd_tx p = Some t"
  shows "channel_open t s"
proof -
  have "(i, p) \<in> set (hm_rows (procs (c_table (y_ctx s))))"
    using assms(1) by (simp add: hm_get_def hm_rows_def map_of_SomeD)
  with assms(2) show ?thesis by (force simp: channel_open_def list_ex_iff)
qed

lemma sup_local:
  assumes "sup_step h t ch s = Some s'" "sup_of s t = Some u" "\<not> retired u"
    and "row s (u_pm u) = Some p" "p_cmd_tx p = Some t" "agrees u p" "sup_no_delete u"
  shows "still_serves t (u_pm u) s' \<or> has_left t (u_pm u) s' \<or> left_behind t (u_pm u) s'"
  using assms channel_open_row [OF assms(4,5)]
  by (cases "u_pc u")
    (auto simp: sup_step_def still_serves_def has_left_def left_behind_def sup_ops sys_facts Let_def sup_no_delete_def
      runs_as_def at_rest_def child_pid_def go_online_def restart_row_def reset_state_def auto_restart_row_def
      elim!: goE
      split: option.splits choice.splits sup_cmd.splits list.splits if_splits restart_decision.splits sum.splits)


lemma pc_agrees_retired: "retired u \<Longrightarrow> agrees u p = (u_child u = None \<and> p_pid p = 0)"
  by (cases "u_pc u") auto

lemma retired_local:
  assumes "sup_step h t ch s = Some s'" "sup_of s t = Some u" "retired u" "sup_no_delete u"
  shows "row s' i = row s i \<and> sup_of s' t = None"
  using assms
  by (cases "u_pc u") (auto simp: sup_step_def sup_no_delete_def su_ack_def sys_facts elim!: goE)

lemma ids_below_cong:
  assumes "ids_below t" "\<And>i. hm_get (procs t') i \<noteq> None \<Longrightarrow> hm_get (procs t) i \<noteq> None" "next_id t' = next_id t"
  shows "ids_below t'"
  using assms by (fastforce simp: ids_below_def)

lemma supervised_sup_step:
  assumes inv: "supervised s" and step: "sup_step h t ch s = Some s'"
  shows "supervised s'"
proof -
  obtain u where u: "sup_of s t = Some u" using step by (auto simp: sup_step_def split: option.splits)
  let ?i = "u_pm u"
  have fr: "\<And>j. j \<noteq> ?i \<Longrightarrow> row s' j = row s j" "\<And>t'. t' \<noteq> t \<Longrightarrow> sup_of s' t' = sup_of s t'"
    "y_calls s' = y_calls s" "y_next s' = y_next s" "c_shutting_down (y_ctx s') = c_shutting_down (y_ctx s)"
    "next_id (c_table (y_ctx s')) = next_id (c_table (y_ctx s))"
    using sup_step_frame [OF step u] by (auto simp: sup_frame_def)
  have nd: "sup_no_delete u" and serves: "sup_serves s t u" and tn: "t < y_next s"
    using supervised_sup [OF inv u] by auto
  have other: "t' < y_next s \<and> sup_no_delete u' \<and> sup_serves s' t' u'"
    if "t' \<noteq> t" "sup_of s' t' = Some u'"
      "\<And>p. row s ?i = Some p \<Longrightarrow> p_cmd_tx p = Some t' \<Longrightarrow> row s' ?i = row s ?i" for t' u'
  proof -
    have u': "sup_of s t' = Some u'" using that fr(2) by simp
    have "sup_serves s t' u'" using supervised_sup [OF inv u'] by auto
    then have "sup_serves s' t' u'"
      using that(3) fr(1) by (cases "u_pm u' = ?i") (auto simp: sup_serves_def)
    with supervised_sup [OF inv u'] show ?thesis by auto
  qed
  show ?thesis
  proof (cases "retired u")
    case True
    have same: "row s' i = row s i" "sup_of s' t = None" for i
      using retired_local [OF step u True nd] by auto
    have rows: "row_served s' i p" if p: "row s' i = Some p" for i p
    proof -
      have "row s i = Some p" using p same(1) by simp
      then have served: "row_served s i p" by (rule supervised_row [OF inv])
      show ?thesis
      proof (cases "p_cmd_tx p")
        case None
        with served show ?thesis by (simp add: row_served_def)
      next
        case (Some t')
        with served u True fr same(2) show ?thesis by (cases "t' = t") (auto simp: row_served_def)
      qed
    qed
    have sups: "t' < y_next s \<and> sup_no_delete u' \<and> sup_serves s' t' u'" if "sup_of s' t' = Some u'" for t' u'
      using that same other by (cases "t' = t") auto
    have "ids_below (c_table (y_ctx s'))"
      using inv same fr(6) by (auto intro: ids_below_cong simp: supervised_def)
    with rows sups fr inv show ?thesis by (auto simp: supervised_def)
  next
    case False
    then obtain p where p: "row s ?i = Some p" "p_cmd_tx p = Some t" "agrees u p"
      using serves by (auto simp: sup_serves_def)
    from sup_local [OF step u False p nd]
    have out: "still_serves t ?i s' \<or> has_left t ?i s' \<or> left_behind t ?i s'" .
    have here: "row_served s' ?i q" if "row s' ?i = Some q" for q
      using out that tn fr(4) by (auto simp: still_serves_def has_left_def left_behind_def row_served_def)
    have rows: "row_served s' i q" if "row s' i = Some q" for i q
    proof (cases "i = ?i")
      case True with here that show ?thesis by simp
    next
      case False
      then have q: "row s i = Some q" using that fr(1) by simp
      have "p_cmd_tx q \<noteq> Some t"
      proof
        assume "p_cmd_tx q = Some t"
        with supervised_row [OF inv q] u have "u_pm u = i" by (auto simp: row_served_def)
        with False show False by simp
      qed
      with supervised_row [OF inv q] fr(2,4,5) show ?thesis
        by (auto simp: row_served_def split: option.splits)
    qed
    have sups: "t' < y_next s \<and> sup_no_delete u' \<and> sup_serves s' t' u'" if "sup_of s' t' = Some u'" for t' u'
    proof (cases "t' = t")
      case True
      with out that tn show ?thesis by (auto simp: still_serves_def has_left_def left_behind_def sup_serves_def)
    next
      case False
      with other [OF False that] p show ?thesis by auto
    qed
    have "row s' i \<noteq> None \<Longrightarrow> row s i \<noteq> None" for i using p fr(1) by (cases "i = ?i") auto
    then have "ids_below (c_table (y_ctx s'))"
      using inv fr(6) by (auto intro: ids_below_cong simp: supervised_def)
    with rows sups fr inv show ?thesis by (auto simp: supervised_def)
  qed
qed


section \<open>Steps of an operation\<close>

text \<open>Most steps leave the channels and pids of the rows alone and at most queue a command.\<close>

definition row_mild :: "proc \<Rightarrow> proc \<Rightarrow> bool" where
  "row_mild p p' =
     (p_cmd_tx p' = p_cmd_tx p \<and> p_pid p' = p_pid p
      \<and> (p_status p' = p_status p \<or> p_status p' \<in> {Stopping, Stopped}))"

definition sup_mild :: "sup \<Rightarrow> sup \<Rightarrow> bool" where
  "sup_mild u u' =
     (u_pm u' = u_pm u \<and> u_pc u' = u_pc u \<and> map_option ch_pid (u_child u') = map_option ch_pid (u_child u)
      \<and> (sup_no_delete u \<longrightarrow> sup_no_delete u'))"

definition sys_mild :: "sys \<Rightarrow> sys \<Rightarrow> bool" where
  "sys_mild s s' =
     ((\<forall>i. rel_option row_mild (row s i) (row s' i)) \<and> (\<forall>t. rel_option sup_mild (sup_of s t) (sup_of s' t))
      \<and> y_next s \<le> y_next s' \<and> c_shutting_down (y_ctx s') = c_shutting_down (y_ctx s)
      \<and> next_id (c_table (y_ctx s')) = next_id (c_table (y_ctx s)))"

lemma row_mild_refl [simp]: "row_mild p p"
  by (simp add: row_mild_def)

lemma sup_mild_refl [simp]: "sup_mild u u"
  by (simp add: sup_mild_def)

lemma rel_row_refl [simp]: "rel_option row_mild x x"
  by (cases x) simp_all

lemma rel_sup_refl [simp]: "rel_option sup_mild x x"
  by (cases x) simp_all

lemma agrees_mild:
  assumes "sup_mild u u'" "row_mild p p'"
  shows "agrees u p \<Longrightarrow> agrees u' p'"
  using assms
  by (cases "u_pc u"; cases "u_child u"; cases "u_child u'")
    (auto simp: sup_mild_def row_mild_def runs_as_def at_rest_def child_pid_def)

lemma supervised_mild:
  assumes inv: "supervised s" and mild: "sys_mild s s'"
    and calls: "\<And>k cl. call_of s' k = Some cl \<Longrightarrow> call_no_delete (k_pc cl)"
  shows "supervised s'"
proof -
  have rows: "rel_option row_mild (row s i) (row s' i)" and sups: "rel_option sup_mild (sup_of s t) (sup_of s' t)"
    for i t using mild by (simp_all add: sys_mild_def)
  have sup: "t < y_next s' \<and> sup_no_delete u' \<and> sup_serves s' t u'" if u': "sup_of s' t = Some u'" for t u'
  proof -
    obtain u where u: "sup_of s t = Some u" "sup_mild u u'"
      using sups [of t] u' by (auto simp: option_rel_Some2)
    have "sup_serves s' t u'"
    proof (cases "retired u")
      case True
      with supervised_sup(3) [OF inv u(1)] u(2) show ?thesis by (simp add: sup_serves_def sup_mild_def)
    next
      case False
      then obtain p where p: "row s (u_pm u) = Some p" "p_cmd_tx p = Some t" "agrees u p"
        using supervised_sup(3) [OF inv u(1)] by (auto simp: sup_serves_def)
      then obtain p' where p': "row s' (u_pm u) = Some p'" "row_mild p p'"
        using rows [of "u_pm u"] by (auto simp: option_rel_Some1)
      have "agrees u' p'" using u(2) p'(2) p(3) by (rule agrees_mild)
      with False p p' u(2) show ?thesis by (auto simp: sup_serves_def sup_mild_def row_mild_def)
    qed
    moreover have "t < y_next s" "sup_no_delete u" using supervised_sup [OF inv u(1)] by auto
    ultimately show ?thesis using u(2) mild by (auto simp: sup_mild_def sys_mild_def)
  qed
  have row: "row_served s' i p'" if p': "row s' i = Some p'" for i p'
  proof -
    obtain p where p: "row s i = Some p" "row_mild p p'"
      using rows [of i] p' by (auto simp: option_rel_Some2)
    have served: "row_served s i p" using p(1) by (rule supervised_row [OF inv])
    show ?thesis
    proof (cases "p_cmd_tx p")
      case None
      with served p(2) show ?thesis by (auto simp: row_served_def row_mild_def at_rest_def)
    next
      case (Some t)
      show ?thesis
      proof (cases "sup_of s t")
        case (Some u)
        then obtain u' where "sup_of s' t = Some u'" "sup_mild u u'"
          using sups [of t] by (auto simp: option_rel_Some1)
        with Some served p(2) \<open>p_cmd_tx p = Some t\<close> show ?thesis
          by (auto simp: row_served_def row_mild_def sup_mild_def)
      next
        case None
        then have "sup_of s' t = None" using sups [of t] by (cases "sup_of s' t") auto
        with None served p(2) \<open>p_cmd_tx p = Some t\<close> mild show ?thesis
          by (auto simp: row_served_def row_mild_def sys_mild_def)
      qed
    qed
  qed
  have "row s' i \<noteq> None \<Longrightarrow> row s i \<noteq> None" for i using rows [of i] by (cases "row s i"; cases "row s' i") auto
  then have "ids_below (c_table (y_ctx s'))"
    using inv mild by (auto intro: ids_below_cong simp: supervised_def sys_mild_def)
  with sup row calls inv mild show ?thesis by (auto simp: supervised_def sys_mild_def)
qed

lemma row_kept_mild: "row_kept p p' \<Longrightarrow> row_mild p p'"
  by (simp add: row_kept_def row_mild_def)

lemma rel_row_map: "(\<And>p. x = Some p \<Longrightarrow> row_mild p (f p)) \<Longrightarrow> rel_option row_mild x (map_option f x)"
  by (cases x) auto

lemma rel_row_map2:
  "(\<And>p. x = Some p \<Longrightarrow> row_mild p (g (f p))) \<Longrightarrow> rel_option row_mild x (map_option g (map_option f x))"
  by (cases x) auto

lemma cron_register_row [sys_facts]:
  "hm_get (procs (c_table (cron_register h i n c))) j =
     (if j = i then map_option (\<lambda>p. p\<lparr>p_cron_task := (if (case ac_cron_restart (p_config p) of None \<Rightarrow> True | Some e \<Rightarrow> e = [] \<or> \<not> h_cron_ok h e) then p_cron_task p else Some n)\<rparr>)
        (hm_get (procs (c_table c)) i)
      else hm_get (procs (c_table c)) j)"
  by (auto simp: cron_register_def sys_facts put_row_def split: option.split)

lemma health_register_row [sys_facts]:
  "hm_get (procs (c_table (health_register i n c))) j =
     (if j = i then map_option (\<lambda>p. p\<lparr>p_health_task := (if ac_health_check (p_config p) = None then p_health_task p else Some n)\<rparr>)
        (hm_get (procs (c_table c)) i)
      else hm_get (procs (c_table c)) j)"
  by (auto simp: health_register_def sys_facts put_row_def split: option.split)

lemma send_mild:
  assumes "send_step k cl c mk sent gone s = Some s'" "\<And>a. \<not> is_delete (mk a)"
  shows "sys_mild s s'"
  using assms
  by (auto simp: send_step_def send_cmd_def sys_mild_def sys_facts new_ack_def Let_def sup_mild_def sup_no_delete_def
      split: option.splits if_splits)

lemma call_step_mild:
  assumes "call_step h k s = Some s'" "call_of s k = Some cl" "call_no_delete (k_pc cl)"
    and "\<forall>kont. k_pc cl \<noteq> LN_spawn kont" "\<forall>app fixed i ids. k_pc cl \<noteq> SA_row app fixed i ids"
  shows "sys_mild s s'"
proof (cases "k_pc cl")
  case (ST_send c)
  with assms show ?thesis by (auto simp: call_step_def intro: send_mild)
next
  case (RS_send c)
  with assms show ?thesis by (auto simp: call_step_def intro: send_mild)
qed (use assms in \<open>auto simp: call_step_def call_ops sys_mild_def sys_facts normalize_def reset_state_def
      row_mild_def Let_def intro!: rel_row_map2 rel_row_map
      split: option.splits if_splits ack.splits launch_cont.splits sum.splits\<close>)


lemma supervised_put_at_rest:
  assumes inv: "supervised s" and free: "row s i = None" and rest: "at_rest p" "p_cmd_tx p = None"
    and rows: "\<And>j. row s' j = (if j = i then Some p else row s j)" and sups: "y_sups s' = y_sups s"
    and same: "y_next s' = y_next s" "c_shutting_down (y_ctx s') = c_shutting_down (y_ctx s)"
    and ids: "ids_below (c_table (y_ctx s'))"
    and calls: "\<And>k cl. call_of s' k = Some cl \<Longrightarrow> call_no_delete (k_pc cl)"
  shows "supervised s'"
proof -
  have "sup_serves s' t u" if "sup_of s t = Some u" for t u
    using supervised_sup(3) [OF inv that] free by (auto simp: sup_serves_def rows)
  moreover have "row_served s' j q" if "row s' j = Some q" for j q
    using that supervised_row [OF inv, of j q] rest
    by (auto simp: rows row_served_def sups same split: if_splits option.splits)
  ultimately show ?thesis
    using inv calls ids by (auto simp: supervised_def sups same)
qed

lemma supervised_launch:
  assumes inv: "supervised s" and p: "row s i = Some p" "p_cmd_tx p = None"
    and rows: "\<And>j. row s' j = (if j = i then Some (p\<lparr>p_cmd_tx := Some t, p_status := st\<rparr>) else row s j)"
    and sups: "y_sups s' = hm_put t u (y_sups s)"
    and u: "u_pm u = i" "u_pc u = U_top" "u_child u = None" "u_queue u = []"
    and fresh: "y_next s \<le> t" "t < y_next s'"
    and same: "c_shutting_down (y_ctx s') = c_shutting_down (y_ctx s)"
      "next_id (c_table (y_ctx s')) = next_id (c_table (y_ctx s))"
    and calls: "\<And>k cl. call_of s' k = Some cl \<Longrightarrow> call_no_delete (k_pc cl)"
  shows "supervised s'"
proof -
  have new: "sup_of s t = None"
    using supervised_sup(1) [OF inv, of t] fresh by (cases "sup_of s t") auto
  have pid: "p_pid p = 0" using supervised_row [OF inv p(1)] p(2) by (simp add: row_served_def at_rest_def)
  have sup: "t' < y_next s' \<and> sup_no_delete u' \<and> sup_serves s' t' u'" if u': "sup_of s' t' = Some u'" for t' u'
  proof (cases "t' = t")
    case True
    with u' u pid fresh show ?thesis by (auto simp: sups rows sup_serves_def sup_no_delete_def)
  next
    case False
    then have old: "sup_of s t' = Some u'" using u' by (simp add: sups)
    have "sup_serves s' t' u'" using supervised_sup(3) [OF inv old] p by (auto simp: sup_serves_def rows)
    with supervised_sup(1,2) [OF inv old] fresh show ?thesis by auto
  qed
  have row: "row_served s' j q" if q: "row s' j = Some q" for j q
  proof (cases "j = i")
    case True
    with q u show ?thesis by (auto simp: rows row_served_def sups)
  next
    case False
    then have "row_served s j q" using q by (intro supervised_row [OF inv]) (simp add: rows)
    then show ?thesis using new fresh by (auto simp: row_served_def sups same split: option.splits)
  qed
  have "ids_below (c_table (y_ctx s'))"
    using inv p same by (auto intro: ids_below_cong simp: supervised_def rows split: if_splits)
  with sup row calls inv same show ?thesis by (auto simp: supervised_def)
qed

lemma call_step_no_delete:
  assumes "call_step h k s = Some s'" "call_of s k = Some cl" "call_no_delete (k_pc cl)"
  shows "\<exists>cl'. y_calls s' = hm_put k cl' (y_calls s) \<and> call_no_delete (k_pc cl')"
  using assms
  by (cases "k_pc cl")
    (auto simp: call_step_def call_ops send_step_def send_cmd_def ln_spawn_def spawn_sup_def sa_row_def
      sys_facts new_ack_def Let_def
      split: option.splits if_splits ack.splits launch_cont.splits sum.splits prod.splits)

lemma sa_row_cases:
  assumes below: "ids_below (c_table (y_ctx s))" and room: "id_room s" and fits: "fixed_fits fixed"
  obtains r where "sa_row h k cl app fixed i ids s = call_goto k cl (C_done r) s"
  | pm inst t' cl' pc where "row s pm = None" "procs t' = procs (c_table (y_ctx s))"
      "ids_below (insert_row (h_env h) (y_now s) pm inst app t')"
      "sa_row h k cl app fixed i ids s =
         call_goto k cl' pc (on_ctx (\<lambda>c. c\<lparr>c_table := insert_row (h_env h) (y_now s) pm inst app t'\<rparr>) s)"
proof (cases fixed)
  case None
  obtain pm t' where al: "alloc_id (c_table (y_ctx s)) = (pm, t')" by (cases "alloc_id (c_table (y_ctx s))")
  have free: "row s pm = None" using ids_below_alloc [OF below] al by simp
  have procs: "procs t' = procs (c_table (y_ctx s))" using procs_alloc_id [of "c_table (y_ctx s)"] al by simp
  have "pm \<noteq> - 1" using room al by (auto simp: alloc_id_def Let_def id_room_def split: if_splits)
  then have ids: "ids_below (insert_row (h_env h) (y_now s) pm (of_nat i) app t')"
    using ids_below_alloc_insert [OF below al] by (simp add: insert_row_def)
  show thesis
  proof (cases "unat (ac_instances app) \<le> i")
    case True
    with None show thesis by (intro that(1) [of "Inr ids"]) (simp add: sa_row_def Let_def)
  next
    case False
    with None al show thesis by (intro that(2) [OF free procs ids]) (simp add: sa_row_def Let_def)
  qed
next
  case (Some fx)
  obtain pm inst where fx: "fx = (pm, inst)" by (cases fx)
  with fits Some have "pm \<noteq> - 1" by simp
  then have ids: "ids_below (insert_row (h_env h) (y_now s) pm inst app (bump_next_id pm (c_table (y_ctx s))))"
    using ids_below_bump_insert [OF below] by (simp add: insert_row_def)
  consider "1 \<le> i" | "i = 0" "row s pm \<noteq> None" | "i = 0" "row s pm = None" by linarith
  then show thesis
  proof cases
    case 1
    with Some show thesis by (intro that(1) [of "Inr ids"]) (simp add: sa_row_def Let_def)
  next
    case 2
    with Some fx show thesis by (intro that(1) [of "Inl (E_occupied pm)"]) (auto simp: sa_row_def Let_def)
  next
    case 3
    with Some fx show thesis by (intro that(2) [OF 3(2) _ ids]) (auto simp: sa_row_def Let_def)
  qed
qed

lemma supervised_call_step:
  assumes inv: "supervised s" and room: "id_room s" and step: "call_step h k s = Some s'"
  shows "supervised s'"
proof -
  obtain cl where cl: "call_of s k = Some cl" using step by (auto simp: call_step_def split: option.splits)
  have nd: "call_no_delete (k_pc cl)" using inv cl by (rule supervised_call)
  have calls: "call_no_delete (k_pc c)" if "call_of s' k' = Some c" for k' c
  proof -
    obtain cl' where "y_calls s' = hm_put k cl' (y_calls s)" "call_no_delete (k_pc cl')"
      using call_step_no_delete [OF step cl nd] by blast
    with that supervised_call [OF inv] show ?thesis by (auto split: if_splits)
  qed
  have below: "ids_below (c_table (y_ctx s))" using inv by (simp add: supervised_def)
  consider (spawn) kont where "k_pc cl = LN_spawn kont" | (row) app fixed i ids where "k_pc cl = SA_row app fixed i ids"
    | (mild) "\<forall>kont. k_pc cl \<noteq> LN_spawn kont" "\<forall>app fixed i ids. k_pc cl \<noteq> SA_row app fixed i ids" by blast
  then show ?thesis
  proof cases
    case mild
    with inv call_step_mild [OF step cl nd] calls show ?thesis by (blast intro: supervised_mild)
  next
    case (spawn kont)
    then have s': "s' = call_goto k cl (LN_wait (y_next s) kont) (spawn_sup (k_pm cl) (y_next s) (snd (new_ack s)))"
      using step cl by (simp add: call_step_def ln_spawn_def new_ack_def)
    show ?thesis
    proof (cases "\<exists>p. row s (k_pm cl) = Some p \<and> p_cmd_tx p = None")
      case True
      then obtain p where p: "row s (k_pm cl) = Some p" "p_cmd_tx p = None" by blast
      have "s' = call_goto k cl (LN_wait (y_next s) kont)
          ((set_sup (Suc (y_next s)) \<lparr>u_pm = k_pm cl, u_pc = U_top, u_queue = [], u_first = Some (y_next s), u_child = None\<rparr>
             (on_ctx (put_row (k_pm cl) (p\<lparr>p_cmd_tx := Some (Suc (y_next s)), p_status := Launching\<rparr>))
               (snd (new_ack s))))\<lparr>y_next := Suc (Suc (y_next s))\<rparr>)"
        using p by (simp add: s' spawn_sup_def sys_facts Let_def on_ctx_def)
      then show ?thesis
        by (intro supervised_launch [OF inv p, where t = "Suc (y_next s)"] calls)
          (auto simp: sys_facts)
    next
      case False
      then have "sys_mild s s'"
        by (auto simp: s' spawn_sup_def sys_mild_def sys_facts split: option.split)
      with inv calls show ?thesis by (blast intro: supervised_mild)
    qed
  next
    case (row app fixed i ids)
    then have s': "s' = sa_row h k cl app fixed i ids s" and fits: "fixed_fits fixed"
      using step cl nd by (auto simp: call_step_def)
    show ?thesis
    proof (rule sa_row_cases [OF below room fits, of h k cl app i ids])
      fix r
      assume "sa_row h k cl app fixed i ids s = call_goto k cl (C_done r) s"
      then have "sys_mild s s'" by (simp add: s' sys_mild_def sys_facts)
      with inv calls show ?thesis by (blast intro: supervised_mild)
    next
      fix pm inst t' cl' pc
      assume "row s pm = None" "procs t' = procs (c_table (y_ctx s))"
        "ids_below (insert_row (h_env h) (y_now s) pm inst app t')"
        "sa_row h k cl app fixed i ids s =
           call_goto k cl' pc (on_ctx (\<lambda>c. c\<lparr>c_table := insert_row (h_env h) (y_now s) pm inst app t'\<rparr>) s)"
      then show ?thesis
        by (intro supervised_put_at_rest [OF inv, where i = pm and p = "proc_new (h_env h) (y_now s) pm inst app"] calls)
          (auto simp: s' sys_facts insert_row_def at_rest_def)
    qed
  qed
qed

lemma supervised_dstep:
  assumes inv: "supervised s" and room: "id_room s" and step: "dstep h no_delete s s'"
  shows "supervised s'"
  using step
proof cases
  case (sup_moves t ch)
  with inv show ?thesis by (blast intro: supervised_sup_step)
next
  case (call_moves k)
  with inv room show ?thesis by (blast intro: supervised_call_step)
next
  case (child_exits t u ch code)
  then have "sys_mild s s'" by (auto simp: sys_mild_def sys_facts sup_mild_def sup_no_delete_def)
  then show ?thesis using inv child_exits(1) supervised_call [OF inv]
    by (intro supervised_mild [OF inv]) (auto simp: sys_facts)
next
  case (chore_moves c)
  note same = run_chore_frame(2-) [OF chore_moves]
  have "rel_option row_mild (row s i) (row s' i)" for i
  proof -
    have "rel_option row_kept (row s i) (row s' i)" using run_chore_frame(1) [OF chore_moves] by (simp add: table_kept_def)
    then show ?thesis by (rule option.rel_mono_strong) (rule row_kept_mild)
  qed
  then have "sys_mild s s'" using run_chore_frame(1) [OF chore_moves] by (simp add: sys_mild_def same table_kept_def)
  then show ?thesis using supervised_call [OF inv] by (intro supervised_mild [OF inv]) (simp_all add: same)
next
  case (clock_moves n)
  then have "sys_mild s s'" by (simp add: sys_mild_def)
  then show ?thesis using inv clock_moves supervised_call [OF inv]
    by (intro supervised_mild [OF inv]) auto
next
  case (outside_moves o')
  show ?thesis
  proof (cases o')
    case (OReq rq)
    have "call_no_delete (snd (first_pc rq))"
      using outside_moves(2) unfolding OReq by (cases rq; cases "(case rq of RqStart app f \<Rightarrow> f | _ \<Rightarrow> None)") auto
    moreover have "sys_mild s s'"
      using outside_moves OReq by (auto simp: sys_mild_def new_call_def set_call_def split: prod.split)
    ultimately show ?thesis
      using outside_moves OReq supervised_call [OF inv]
      by (intro supervised_mild [OF inv]) (auto simp: new_call_def set_call_def split: if_splits prod.splits)
  next
    case OShutdown
    with outside_moves have s': "s' = on_ctx (\<lambda>c. publish EvDaemonKill (c\<lparr>c_shutting_down := True\<rparr>)) s" by simp
    have sups: "sup_serves s' t u = sup_serves s t u" for t u by (auto simp: s' sup_serves_def sys_facts)
    have "row_served s' i p" if "row_served s i p" for i p
      using that by (auto simp: s' row_served_def sys_facts publish_def split: option.splits)
    with inv sups show ?thesis by (auto simp: supervised_def s' sys_facts)
  qed
qed

lemma id_room_init: "id_room sys_init"
  by (simp add: id_room_def sys_init_def ctx_default_def table_default_def)

interpretation supervision_inv: run_invariant no_delete id_room supervised
  by unfold_locales (auto intro: supervised_init supervised_dstep intro: reach_room id_room_init)

lemma reach_sup_serves:
  assumes "reach h no_delete id_room s" "sup_of s t = Some u"
  shows "sup_serves s t u"
  using supervision_inv.holds [OF assms(1)] supervised_sup(3) assms(2) by blast

lemma reach_row_served:
  assumes "reach h no_delete id_room s" "row s i = Some p"
  shows "row_served s i p"
  using supervision_inv.holds [OF assms(1)] supervised_row assms(2) by blast

section \<open>Properties\<close>

text \<open>C4: In a run without deletions whose ids stay below \<open>u32::MAX\<close> no process is supervised twice: two supervisors
  of the same id that have not retired are the same task, the row exists, and its command channel leads to it.
  (A start given the id \<open>u32::MAX\<close> makes the id counter wrap, and ids that are in use are handed out again.)\<close>
theorem one_supervisor_per_process:
  assumes "reach h no_delete id_room s" "sup_of s t = Some u" "\<not> retired u"
    and "sup_of s t' = Some u'" "\<not> retired u'" "u_pm u' = u_pm u"
  shows "t' = t \<and> (\<exists>p. row s (u_pm u) = Some p \<and> p_cmd_tx p = Some t)"
  using reach_sup_serves [OF assms(1,2)] reach_sup_serves [OF assms(1,4)] assms(3,5,6)
  by (auto simp: sup_serves_def)

lemma one_supervisor_per_process_witness: "\<exists>p. row sample_online 0 = Some p \<and> p_cmd_tx p = Some 4"
proof -
  have "sup_shows sample_online 4 (\<lambda>u. u_pm u = 0 \<and> \<not> retired u)" by code_simp
  then obtain u where u: "sup_of sample_online 4 = Some u" "u_pm u = 0" "\<not> retired u" by (auto elim: sup_showsE)
  from one_supervisor_per_process [OF sample_reach u(1,3) u(1,3)] u(2) show ?thesis by simp
qed

text \<open>No process runs twice: a process id has at most one child, running or not yet reaped.\<close>
theorem one_child_per_process:
  assumes "reach h no_delete id_room s" "sup_of s t = Some u" "u_child u \<noteq> None"
    and "sup_of s t' = Some u'" "u_child u' \<noteq> None" "u_pm u' = u_pm u"
  shows "t' = t"
proof -
  have s1: "sup_serves s t u" and s2: "sup_serves s t' u'" using assms by (auto intro: reach_sup_serves)
  then have "\<not> retired u" "\<not> retired u'" using assms(3,5) by (auto simp: sup_serves_def split: if_splits)
  with s1 s2 assms(6) show ?thesis by (auto simp: sup_serves_def)
qed

lemma one_child_per_process_witness:
  "\<exists>u. sup_of sample_online 4 = Some u \<and> u_child u \<noteq> None \<and> (\<forall>t u'. sup_of sample_online t = Some u' \<and> u_child u' \<noteq> None \<and> u_pm u' = u_pm u \<longrightarrow> t = 4)"
proof -
  have "sup_shows sample_online 4 (\<lambda>u. u_child u \<noteq> None)" by code_simp
  then obtain u where u: "sup_of sample_online 4 = Some u" "u_child u \<noteq> None" by (auto elim: sup_showsE)
  with one_child_per_process [OF sample_reach u] show ?thesis by blast
qed

text \<open>A row without a supervisor is at rest: it has no pid and is not launching, online or
  waiting for a restart.\<close>
theorem unsupervised_rows_rest:
  assumes "reach h no_delete id_room s" "row s i = Some p" "p_cmd_tx p = None"
  shows "p_pid p = 0 \<and> p_status p \<in> {Stopped, Errored, Stopping}"
  using reach_row_served [OF assms(1,2)] assms(3) by (simp add: row_served_def at_rest_def)

lemma unsupervised_rows_rest_witness: "row_shows sample_stopped 0 (\<lambda>p. p_cmd_tx p = None \<and> p_pid p = 0)"
proof -
  have "row_shows sample_stopped 0 (\<lambda>p. p_cmd_tx p = None)" by code_simp
  then obtain p where p: "row sample_stopped 0 = Some p" "p_cmd_tx p = None" by (auto elim: row_showsE)
  from unsupervised_rows_rest [OF sample_reach p] p show ?thesis by (simp add: row_shows_def)
qed

end
