(* ===== verification/Stopping.thy ===== *)
theory Stopping
  imports Acks Supervision
begin

text \<open>
  What a stop promises, in every run: when it goes on after waiting, the supervisor it addressed
  has ended; and a supervisor has a child only in the states that handle one.
\<close>

section \<open>Children belong to the states that handle them\<close>

fun child_pc :: "sup_pc \<Rightarrow> bool" where
  "child_pc (U_online l) = True"
| "child_pc (U_first_ack l) = True"
| "child_pc (U_select l) = True"
| "child_pc (U_kill_mark l c) = True"
| "child_pc (U_kill_signal l c) = True"
| "child_pc (U_kill_wait l c n) = True"
| "child_pc _ = False"

definition child_placed :: "sup \<Rightarrow> bool" where
  "child_placed u = (child_pc (u_pc u) \<longleftrightarrow> u_child u \<noteq> None)"

lemma child_placed_sup_step:
  assumes "sup_step h t ch s = Some s'" "sup_of s t = Some u" "child_placed u" "sup_of s' t = Some u'"
  shows "child_placed u'"
  using assms
  by (cases "u_pc u")
    (auto simp: sup_step_def sup_ops sys_facts Let_def child_placed_def elim!: goE
      split: option.splits choice.splits sup_cmd.splits list.splits if_splits restart_decision.splits sum.splits)

section \<open>The stop a supervisor still owes an answer\<close>

fun is_stop :: "sup_cmd \<Rightarrow> bool" where
  "is_stop (CmdStop a) = True"
| "is_stop _ = False"

fun stop_pc_acks :: "sup_pc \<Rightarrow> nat list" where
  "stop_pc_acks (U_kill_mark l c) = (if is_stop c then [cmd_ack c] else [])"
| "stop_pc_acks (U_kill_signal l c) = (if is_stop c then [cmd_ack c] else [])"
| "stop_pc_acks (U_kill_wait l c n) = (if is_stop c then [cmd_ack c] else [])"
| "stop_pc_acks (U_killed l c) = (if is_stop c then [cmd_ack c] else [])"
| "stop_pc_acks (U_clear (Some a)) = [a]"
| "stop_pc_acks (U_ack a) = [a]"
| "stop_pc_acks (U_delay_cmd l e c) = (if is_stop c then [cmd_ack c] else [])"
| "stop_pc_acks _ = []"

definition stop_acks :: "sup \<Rightarrow> nat list" where
  "stop_acks u = map cmd_ack (filter is_stop (u_queue u)) @ stop_pc_acks (u_pc u)"

lemma stop_pc_acks_sub: "set (stop_pc_acks pc) \<subseteq> set (pc_acks pc)"
  by (cases pc rule: stop_pc_acks.cases) auto

lemma stop_acks_sub: "set (stop_acks u) \<subseteq> set (sup_acks u)"
  using stop_pc_acks_sub [of "u_pc u"] by (auto simp: stop_acks_def sup_acks_def)

lemma stop_local:
  assumes "sup_step h t ch s = Some s'" "sup_of s t = Some u" "a \<in> set (stop_acks u)" "sup_of s' t = Some u'"
  shows "a \<in> set (stop_acks u')"
  using assms
  by (cases "u_pc u")
    (auto simp: sup_step_def sup_ops sys_facts Let_def stop_acks_def elim!: goE
      split: option.splits choice.splits sup_cmd.splits list.splits if_splits restart_decision.splits sum.splits)

section \<open>Waiting stops\<close>

fun stop_agrees :: "sys \<Rightarrow> call_pc \<Rightarrow> bool" where
  "stop_agrees s (ST_send c) = (c < y_next s)"
| "stop_agrees s (ST_wait c a) = (c < y_next s \<and> (\<forall>u. sup_of s c = Some u \<longrightarrow> a \<in> set (stop_acks u)))"
| "stop_agrees s (ST_norm c) = (c < y_next s \<and> sup_of s c = None)"
| "stop_agrees s _ = True"

definition stops_owed :: "sys \<Rightarrow> bool" where
  "stops_owed s =
     ((\<forall>t u. sup_of s t = Some u \<longrightarrow> child_placed u)
      \<and> (\<forall>i p t. row s i = Some p \<longrightarrow> p_cmd_tx p = Some t \<longrightarrow> t < y_next s)
      \<and> (\<forall>k cl. call_of s k = Some cl \<longrightarrow> stop_agrees s (k_pc cl)))"

text \<open>The old supervisors of a later state: gone, as before with more commands, or a step further.\<close>

definition later_sups :: "sys \<Rightarrow> sys \<Rightarrow> bool" where
  "later_sups s s' =
     (y_next s \<le> y_next s'
      \<and> (\<forall>t u'. t < y_next s \<longrightarrow> sup_of s' t = Some u' \<longrightarrow>
           (\<exists>u. sup_of s t = Some u \<and> set (stop_acks u) \<subseteq> set (stop_acks u'))))"

lemma stop_agrees_later: "stop_agrees s pc \<Longrightarrow> later_sups s s' \<Longrightarrow> stop_agrees s' pc"
  by (cases pc) (fastforce simp: later_sups_def)+

lemma later_sups_same: "y_sups s' = y_sups s \<Longrightarrow> y_next s \<le> y_next s' \<Longrightarrow> later_sups s s'"
  by (simp add: later_sups_def)

lemma later_sup_step:
  assumes step: "sup_step h t ch s = Some s'"
  shows "later_sups s s'"
proof -
  obtain u where u: "sup_of s t = Some u" using step by (auto simp: sup_step_def split: option.splits)
  have fr: "y_next s' = y_next s" "\<And>t'. t' \<noteq> t \<Longrightarrow> sup_of s' t' = sup_of s t'"
    using sup_step_frame [OF step u] by (auto simp: sup_frame_def)
  have "\<exists>v. sup_of s t' = Some v \<and> set (stop_acks v) \<subseteq> set (stop_acks u')"
    if u': "sup_of s' t' = Some u'" for t' u'
  proof (cases "t' = t")
    case True
    with u u' stop_local [OF step u] show ?thesis by blast
  next
    case False
    with u' fr(2) show ?thesis by auto
  qed
  with fr(1) show ?thesis by (simp add: later_sups_def)
qed

lemma later_send:
  assumes "send_step k cl c mk sent gone s = Some s'"
  shows "later_sups s s'"
  using assms
  by (auto simp: send_step_def send_cmd_def later_sups_def sys_facts new_ack_def
      stop_acks_def split: option.splits if_splits)

lemma later_call_step:
  assumes step: "call_step h k s = Some s'"
  shows "later_sups s s'"
proof -
  obtain cl where cl: "call_of s k = Some cl" using step by (auto simp: call_step_def split: option.splits)
  have quiet: "later_sups s s'" if "calls_quiet s s'"
    using that by (intro later_sups_same) (auto simp: calls_quiet_def)
  show ?thesis
  proof (cases "k_pc cl")
    case (LN_spawn kont)
    with step cl show ?thesis
      by (auto simp: call_step_def ln_spawn_def new_ack_def spawn_sup_def later_sups_def sys_facts Let_def
          split: option.splits if_splits)
  qed (use step cl later_send call_step_quiet [OF step cl] quiet in \<open>auto simp: call_step_def\<close>)
qed


lemma stops_owed_init: "stops_owed sys_init"
  by (simp add: stops_owed_def sys_init_def ctx_default_def table_default_def)

text \<open>Which stop state an operation moves into, and what it knows then.\<close>

lemma send_stop_agrees:
  assumes "send_step k cl c mk sent gone s = Some s'" "\<And>a. cmd_ack (mk a) = a" "c < y_next s"
  shows "(sup_of s' c = None \<and> call_of s' k = Some (cl\<lparr>k_pc := gone\<rparr>))
    \<or> ((\<forall>u. sup_of s' c = Some u \<longrightarrow> mk (y_next s) \<in> set (u_queue u)) \<and> call_of s' k = Some (cl\<lparr>k_pc := sent (y_next s)\<rparr>))"
  using assms
  by (auto simp: send_step_def send_cmd_def sys_facts new_ack_def split: option.splits if_splits)

lemma stop_ack_queued: "CmdStop a \<in> set (u_queue u) \<Longrightarrow> a \<in> set (stop_acks u)"
  by (force simp: stop_acks_def)

lemma stop_call_agrees:
  assumes inv: "stops_owed s" and own: "acks_owned s" and step: "call_step h k s = Some s'" and cl: "call_of s k = Some cl"
    and cl': "call_of s' k = Some cl'"
  shows "stop_agrees s' (k_pc cl')"
proof -
  have ag: "stop_agrees s (k_pc cl)" using inv cl by (auto simp: stops_owed_def)
  have tx: "t < y_next s" if "row s i = Some p" "p_cmd_tx p = Some t" for i p t
    using inv that by (auto simp: stops_owed_def)
  have later: "y_next s \<le> y_next s'" using later_call_step [OF step] by (simp add: later_sups_def)
  show ?thesis
  proof (cases "k_pc cl")
    case (ST_send c)
    have "send_step k cl c CmdStop (ST_wait c) (ST_norm c) s = Some s'"
      using step cl ST_send by (simp add: call_step_def)
    from send_stop_agrees [OF this] ag ST_send
    have "(sup_of s' c = None \<and> cl' = cl\<lparr>k_pc := ST_norm c\<rparr>)
      \<or> ((\<forall>u. sup_of s' c = Some u \<longrightarrow> y_next s \<in> set (stop_acks u)) \<and> cl' = cl\<lparr>k_pc := ST_wait c (y_next s)\<rparr>)"
      using cl' stop_ack_queued by fastforce
    with ag ST_send later show ?thesis by auto
  next
    case (ST_wait c a)
    with step cl have s': "s' = call_goto k cl (ST_norm c) s" "ack_of s a \<noteq> Some AkPending"
      by (auto simp: call_step_def st_wait_def split: if_splits)
    have "sup_of s c = None"
    proof (rule ccontr)
      assume "sup_of s c \<noteq> None"
      with ag ST_wait have "a \<in> set (acks_at s c)" by (auto simp: acks_at_def intro: subsetD [OF stop_acks_sub])
      with acks_owned_at(2) [OF own] s'(2) show False by blast
    qed
    with ag s' cl' ST_wait show ?thesis by (auto simp: sys_facts)
  qed (use step cl cl' ag tx in \<open>auto simp: call_step_def call_ops dl_lock_def dl_wait_def dl_remove_def dl_unwatch_def
      send_step_def send_cmd_def new_ack_def ln_spawn_def spawn_sup_def sa_row_def sys_facts Let_def
      split: option.splits if_splits ack.splits launch_cont.splits sum.splits prod.splits\<close>)
qed


lemma call_step_others:
  assumes "call_step h k s = Some s'" "k' \<noteq> k"
  shows "call_of s' k' = call_of s k'"
proof -
  obtain cl where "call_of s k = Some cl" using assms(1) by (auto simp: call_step_def split: option.splits)
  with assms show ?thesis
    by (cases "k_pc cl")
      (auto simp: call_step_def call_ops dl_lock_def dl_wait_def dl_remove_def dl_unwatch_def
        send_step_def send_cmd_def new_ack_def ln_spawn_def spawn_sup_def sa_row_def sys_facts Let_def
        split: option.splits if_splits ack.splits launch_cont.splits sum.splits prod.splits)
qed

text \<open>A row's channel is one of the supervisors created so far.\<close>

definition tx_below :: "sys \<Rightarrow> bool" where
  "tx_below s = (\<forall>i p t. row s i = Some p \<longrightarrow> p_cmd_tx p = Some t \<longrightarrow> t < y_next s)"

lemma tx_below_row:
  assumes "tx_below s" "y_next s \<le> y_next s'"
    and "\<And>i p t. row s' i = Some p \<Longrightarrow> p_cmd_tx p = Some t \<Longrightarrow> (\<exists>q. row s i = Some q \<and> p_cmd_tx q = Some t) \<or> t < y_next s'"
  shows "tx_below s'"
  using assms unfolding tx_below_def by (meson order.strict_trans2)

text \<open>A step copies channels, and only \<open>supervisor::spawn\<close> makes one.\<close>

lemma sup_step_tx:
  assumes step: "sup_step h t ch s = Some s'" and p: "row s' i = Some p" "p_cmd_tx p = Some t'"
  shows "\<exists>q. row s i = Some q \<and> p_cmd_tx q = Some t'"
proof -
  obtain u where u: "sup_of s t = Some u" using step by (auto simp: sup_step_def split: option.splits)
  have here: "\<exists>q. row s (u_pm u) = Some q \<and> p_cmd_tx q = Some t'"
    if "row s' (u_pm u) = Some p" "p_cmd_tx p = Some t'" for p t'
    using step u that
    by (cases "u_pc u")
      (auto simp: sup_step_def sup_ops sys_facts Let_def go_online_def restart_row_def reset_state_def auto_restart_row_def
        elim!: goE
        split: option.splits choice.splits sup_cmd.splits list.splits if_splits restart_decision.splits sum.splits)
  show ?thesis
  proof (cases "i = u_pm u")
    case False
    with sup_step_frame [OF step u] p show ?thesis by (auto simp: sup_frame_def)
  qed (use here p in blast)
qed

lemma call_step_tx:
  assumes step: "call_step h k s = Some s'" and cl: "call_of s k = Some cl" "\<forall>kont. k_pc cl \<noteq> LN_spawn kont"
    and p: "row s' i = Some p" "p_cmd_tx p = Some t'"
  shows "\<exists>q. row s i = Some q \<and> p_cmd_tx q = Some t'"
proof (cases "k_pc cl")
  case (SA_register app fixed n ids pm)
  with step cl have "s' = sa_register h k cl app fixed n ids pm s" by (simp add: call_step_def)
  then have "map_option p_cmd_tx (row s' i) = map_option p_cmd_tx (row s i)"
    by (simp add: sa_register_def sys_facts(1-6) call_goto_facts cron_register_facts health_register_facts Let_def)
  with p show ?thesis by (cases "row s i") auto
qed (use step cl p in \<open>auto simp: call_step_def call_ops dl_lock_def dl_wait_def dl_remove_def dl_unwatch_def
      normalize_def reset_state_def send_step_def send_cmd_def new_ack_def sa_row_def
      insert_row_def alloc_id_def sys_facts Let_def
      split: option.splits if_splits ack.splits launch_cont.splits sum.splits prod.splits\<close>)

lemma launch_tx:
  assumes "call_step h k s = Some s'" "call_of s k = Some cl" "k_pc cl = LN_spawn kont"
    and "row s' i = Some p" "p_cmd_tx p = Some t'"
  shows "(\<exists>q. row s i = Some q \<and> p_cmd_tx q = Some t') \<or> (i = k_pm cl \<and> t' = Suc (y_next s) \<and> t' < y_next s')"
  using assms
  by (auto simp: call_step_def ln_spawn_def new_ack_def spawn_sup_def sys_facts Let_def split: option.splits if_splits)

lemma tx_below_sup_step:
  assumes "tx_below s" "sup_step h t ch s = Some s'"
  shows "tx_below s'"
proof -
  obtain u where u: "sup_of s t = Some u" using assms(2) by (auto simp: sup_step_def split: option.splits)
  have "y_next s' = y_next s" using sup_step_frame [OF assms(2) u] by (simp add: sup_frame_def)
  with sup_step_tx [OF assms(2)] show ?thesis by (intro tx_below_row [OF assms(1)]) auto
qed

lemma tx_below_call_step:
  assumes "tx_below s" "call_step h k s = Some s'"
  shows "tx_below s'"
proof -
  obtain cl where cl: "call_of s k = Some cl" using assms(2) by (auto simp: call_step_def split: option.splits)
  have more: "y_next s \<le> y_next s'" using later_call_step [OF assms(2)] by (simp add: later_sups_def)
  show ?thesis
  proof (rule tx_below_row [OF assms(1) more])
    show "(\<exists>q. row s i = Some q \<and> p_cmd_tx q = Some t') \<or> t' < y_next s'"
      if "row s' i = Some p" "p_cmd_tx p = Some t'" for i p t'
      using that call_step_tx [OF assms(2) cl] launch_tx [OF assms(2) cl] by (cases "\<exists>kont. k_pc cl = LN_spawn kont") blast+
  qed
qed

lemma send_placed:
  assumes "send_step k cl c mk sent gone s = Some s'" "sup_of s' t = Some u'" "\<And>u. sup_of s t = Some u \<Longrightarrow> child_placed u"
  shows "child_placed u'"
  using assms
  by (auto simp: send_step_def send_cmd_def new_ack_def child_placed_def sys_facts split: option.splits if_splits)

lemma call_step_placed:
  assumes step: "call_step h k s = Some s'" and u': "sup_of s' t = Some u'"
    and old: "\<And>u. sup_of s t = Some u \<Longrightarrow> child_placed u"
  shows "child_placed u'"
proof -
  obtain cl where cl: "call_of s k = Some cl" using step by (auto simp: call_step_def split: option.splits)
  have quiet: "child_placed u'" if "calls_quiet s s'"
    using that u' old by (simp add: calls_quiet_def)
  note send = send_placed [OF _ u' old]
  show ?thesis
  proof (cases "k_pc cl")
    case (LN_spawn kont)
    with step cl u' old show ?thesis
      by (auto simp: call_step_def ln_spawn_def new_ack_def spawn_sup_def child_placed_def sys_facts Let_def
          split: option.splits if_splits)
  next
    case (ST_send c)
    with step cl send show ?thesis by (auto simp: call_step_def)
  next
    case (RS_send c)
    with step cl send show ?thesis by (auto simp: call_step_def)
  next
    case (DL_send c nm)
    with step cl send show ?thesis by (auto simp: call_step_def)
  qed (use call_step_quiet [OF step cl] quiet in simp_all)
qed

lemma stops_owed_dstep:
  assumes inv: "stops_owed s" and own: "acks_owned s" and step: "dstep h ok s s'"
  shows "stops_owed s'"
proof -
  have placed: "\<And>t u. sup_of s t = Some u \<Longrightarrow> child_placed u" and tx: "tx_below s"
    and calls: "\<And>k cl. call_of s k = Some cl \<Longrightarrow> stop_agrees s (k_pc cl)"
    using inv by (auto simp: stops_owed_def tx_below_def)
  have goal: "stops_owed s'" if "\<And>t u. sup_of s' t = Some u \<Longrightarrow> child_placed u" "tx_below s'"
      "\<And>k cl. call_of s' k = Some cl \<Longrightarrow> stop_agrees s' (k_pc cl)"
    using that by (auto simp: stops_owed_def tx_below_def)
  from step show ?thesis
  proof cases
    case (sup_moves t ch)
    obtain u where u: "sup_of s t = Some u" using sup_moves by (auto simp: sup_step_def split: option.splits)
    have fr: "y_calls s' = y_calls s" "\<And>t'. t' \<noteq> t \<Longrightarrow> sup_of s' t' = sup_of s t'"
      using sup_step_frame [OF sup_moves u] by (auto simp: sup_frame_def)
    show ?thesis
    proof (rule goal)
      show "child_placed v" if "sup_of s' t' = Some v" for t' v
        using that fr(2) placed u child_placed_sup_step [OF sup_moves u] by (cases "t' = t") auto
    next
      show "tx_below s'" using tx sup_moves by (rule tx_below_sup_step)
    next
      show "stop_agrees s' (k_pc cl)" if "call_of s' k = Some cl" for k cl
        using that calls later_sup_step [OF sup_moves] by (auto simp: fr(1) intro: stop_agrees_later)
    qed
  next
    case (call_moves k)
    obtain cl where cl: "call_of s k = Some cl" using call_moves by (auto simp: call_step_def split: option.splits)
    show ?thesis
    proof (rule goal)
      show "child_placed v" if "sup_of s' t' = Some v" for t' v
        using that placed call_step_placed [OF call_moves] by blast
    next
      show "tx_below s'" using tx call_moves by (rule tx_below_call_step)
    next
      show "stop_agrees s' (k_pc cl')" if cl': "call_of s' k' = Some cl'" for k' cl'
      proof (cases "k' = k")
        case True
        with cl' show ?thesis using stop_call_agrees [OF inv own call_moves cl] by simp
      next
        case False
        with cl' call_step_others [OF call_moves False] calls later_call_step [OF call_moves]
        show ?thesis by (auto intro: stop_agrees_later)
      qed
    qed
  next
    case (child_exits t u ch code)
    have later: "later_sups s s'" using child_exits(1,2) by (auto simp: later_sups_def sys_facts stop_acks_def)
    show ?thesis
    proof (rule goal)
      show "child_placed v" if "sup_of s' t' = Some v" for t' v
        using that placed child_exits by (fastforce simp: sys_facts child_placed_def split: if_splits)
    next
      show "tx_below s'" using tx child_exits(1) by (simp add: tx_below_def sys_facts)
    next
      show "stop_agrees s' (k_pc cl)" if "call_of s' k = Some cl" for k cl
        using that calls later child_exits(1) by (auto simp: sys_facts intro: stop_agrees_later)
    qed
  next
    case (chore_moves c)
    note same = run_chore_frame(2-) [OF chore_moves]
    have "later_sups s s'" by (rule later_sups_same) (simp_all add: same)
    then have "\<And>pc. stop_agrees s pc \<Longrightarrow> stop_agrees s' pc" using stop_agrees_later by blast
    moreover have "tx_below s'"
      using tx table_kept_row(2) [OF run_chore_frame(1) [OF chore_moves]]
      by (fastforce simp: tx_below_def same row_kept_def)
    ultimately show ?thesis using placed calls by (intro goal) (auto simp: same)
  next
    case (clock_moves n)
    have "later_sups s s'" using clock_moves by (auto simp: later_sups_def)
    then have "\<And>pc. stop_agrees s pc \<Longrightarrow> stop_agrees s' pc" using stop_agrees_later by blast
    with clock_moves placed tx calls show ?thesis by (intro goal) (auto simp: tx_below_def)
  next
    case (outside_moves o')
    have later: "later_sups s s'" using outside_moves
      by (cases o') (auto simp: later_sups_def sys_facts new_call_def set_call_def split: prod.splits)
    have first: "stop_agrees s' (snd (first_pc rq))" for rq by (cases rq) auto
    have old: "stop_agrees s' pc" if "stop_agrees s pc" for pc using that later by (rule stop_agrees_later)
    have sups: "y_sups s' = y_sups s" and rows: "c_table (y_ctx s') = c_table (y_ctx s)" and more: "y_next s \<le> y_next s'"
      using outside_moves
      by (cases o'; auto simp: sys_facts new_call_def set_call_def split: prod.splits)+
    have "call_of s k = Some cl \<or> (\<exists>rq. k_pc cl = snd (first_pc rq))" if "call_of s' k = Some cl" for k cl
    proof (cases o')
      case (OReq rq)
      with that outside_moves show ?thesis
        by (cases "first_pc rq") (auto simp: new_call_def set_call_def split: if_splits intro!: exI [of _ rq])
    next
      case OShutdown
      with that outside_moves show ?thesis by (simp add: sys_facts)
    qed
    with first old calls have "\<And>k cl. call_of s' k = Some cl \<Longrightarrow> stop_agrees s' (k_pc cl)" by metis
    moreover have "tx_below s'" using tx rows more unfolding tx_below_def by (metis order.strict_trans2)
    ultimately show ?thesis using placed sups by (intro goal) auto
  qed
qed

interpretation stops_inv: layered_invariant ok room acks_owned stops_owed for ok room
  by unfold_locales (auto intro: stops_owed_init stops_owed_dstep)

lemma sup_can_move_if:
  assumes u: "sup_of s t = Some u"
    and waits: "\<not> (\<exists>l. u_pc u = U_select l \<and> u_queue u = [])" "\<not> (\<exists>l c n. u_pc u = U_kill_wait l c n \<and> 2 \<le> n)"
  shows "\<exists>ch s'. sup_step h t ch s = Some s'"
proof (cases "u_pc u")
  case (U_spawn l)
  show ?thesis
  proof (cases "spawn_child h (l_config l) (l_env l)")
    case (Inl e)
    then have "sup_step h t ChGo s \<noteq> None" using u U_spawn by (simp add: sup_step_def su_spawn_def)
    then show ?thesis by blast
  next
    case (Inr cmd)
    then have "sup_step h t (ChSpawnErr False []) s \<noteq> None"
      using u U_spawn by (simp add: sup_step_def su_spawn_def)
    then show ?thesis by blast
  qed
next
  case (U_select l)
  then obtain c q where "u_queue u = c # q" using waits(1) by (cases "u_queue u") auto
  then have "sup_step h t ChCmd s \<noteq> None" using u U_select by (simp add: sup_step_def su_select_def)
  then show ?thesis by blast
next
  case (U_kill_wait l c n)
  then have "n = 0 \<or> n = 1" using waits(2) by auto
  then have "sup_step h t ChTimer s \<noteq> None" using u U_kill_wait by (auto simp: sup_step_def su_kill_wait_def)
  then show ?thesis by blast
next
  case (U_delay l e)
  then have "sup_step h t ChTimer s \<noteq> None" using u by (simp add: sup_step_def su_delay_def)
  then show ?thesis by blast
qed (use u in \<open>auto simp: sup_step_def go_def\<close>)

section \<open>Properties\<close>

text \<open>C6: A stop waits for the end: in every run, when \<open>stop_one\<close> gets past its wait the supervisor it
  addressed has ended, however the answer came about (acknowledged, dropped, or never sent).\<close>
theorem stop_waits_for_the_end:
  assumes "reach h ok room s" "call_of s k = Some cl" "k_pc cl = ST_norm c"
  shows "sup_of s c = None"
  using stops_inv.upper.holds [OF assms(1)] assms(2,3) by (fastforce simp: stops_owed_def)

lemma stop_waits_for_the_end_witness: "sup_of sample_stopped 4 = None"
proof -
  have "(case call_of sample_stopped 5 of Some cl \<Rightarrow> k_pc cl = ST_norm 4 | None \<Rightarrow> False)" by code_simp
  then obtain cl where "call_of sample_stopped 5 = Some cl" "k_pc cl = ST_norm 4" by (auto split: option.splits)
  with stop_waits_for_the_end [OF sample_reach] show ?thesis by blast
qed

text \<open>C28: A supervisor holds a child exactly while it launches, watches or kills it: in every run it has
  one from the moment it was spawned until it is reaped, and none when it clears the row's channel, waits for a
  restart, or answers its last command.\<close>
theorem child_only_while_handled:
  assumes "reach h ok room s" "sup_of s t = Some u"
  shows "u_child u \<noteq> None \<longleftrightarrow> child_pc (u_pc u)"
proof -
  have "child_placed u" using stops_inv.upper.holds [OF assms(1)] assms(2) unfolding stops_owed_def by metis
  then show ?thesis by (auto simp: child_placed_def)
qed

lemma child_only_while_handled_witness: "sup_shows sample_online 4 (\<lambda>u. u_child u \<noteq> None \<and> child_pc (u_pc u))"
proof -
  have "sup_shows sample_online 4 (\<lambda>u. u_child u \<noteq> None)" by code_simp
  then obtain u where u: "sup_of sample_online 4 = Some u" "u_child u \<noteq> None" by (auto elim: sup_showsE)
  from child_only_while_handled [OF sample_reach u(1)] u show ?thesis by (simp add: sup_shows_def)
qed

text \<open>C27: A supervisor is never stuck, in any run: unless it waits for a running child without a command to
  handle, or for the death of a child it has sent \<open>SIGKILL\<close>, some step of it is possible; and
  in both these waits it does own the child it waits for.\<close>
theorem supervisor_can_move:
  assumes "reach h ok room s" "sup_of s t = Some u"
  shows "(\<exists>ch s'. sup_step h t ch s = Some s')
    \<or> (\<exists>c. u_child u = Some c \<and> ch_exit c = None
         \<and> ((\<exists>l. u_pc u = U_select l \<and> u_queue u = []) \<or> (\<exists>l cmd n. u_pc u = U_kill_wait l cmd n \<and> 2 \<le> n)))"
proof (cases "(\<exists>l. u_pc u = U_select l \<and> u_queue u = []) \<or> (\<exists>l c n. u_pc u = U_kill_wait l c n \<and> 2 \<le> n)")
  case False
  then show ?thesis using sup_can_move_if [of s t u h] assms(2) by blast
next
  case True
  have "child_placed u" using stops_inv.upper.holds [OF assms(1)] assms(2) unfolding stops_owed_def by metis
  with True obtain c where c: "u_child u = Some c" by (auto simp: child_placed_def)
  show ?thesis
  proof (cases "ch_exit c")
    case None
    with True c show ?thesis by blast
  next
    case (Some code)
    with True c assms(2) have "sup_step h t ChExit s \<noteq> None"
      by (auto simp: sup_step_def su_select_def su_kill_wait_def)
    then show ?thesis by blast
  qed
qed

lemma supervisor_can_move_witness: "\<exists>u ch s'. sup_of sample_killing 4 = Some u \<and> sup_step sample_host 4 ch sample_killing = Some s'"
proof -
  have "sup_shows sample_killing 4 (\<lambda>u. case u_pc u of U_kill_wait l c n \<Rightarrow> n = 0 | _ \<Rightarrow> False)" by code_simp
  then obtain u where u: "sup_of sample_killing 4 = Some u"
      "case u_pc u of U_kill_wait l c n \<Rightarrow> n = 0 | _ \<Rightarrow> False" by (rule sup_showsE)
  from u(2) obtain l c where "u_pc u = U_kill_wait l c 0" by (cases "u_pc u") simp_all
  note u = u(1) this
  from supervisor_can_move [OF sample_reach u(1)] u show ?thesis by auto
qed

end
