(* ===== verification/Progress.thy ===== *)
theory Progress
  imports Stopping
begin

text \<open>
  A stop or a delete ends: once a supervisor has taken the command off its channel, a fixed number of
  its own steps later it is gone and the command is acknowledged, whatever runs in between.
\<close>

section \<open>How far a command has got\<close>

text \<open>The steps a supervisor still has to make for the stop or delete that is acknowledged through
  \<open>a\<close>; no other state is on this path.\<close>

fun ends_with_ack :: "nat \<Rightarrow> sup_cmd \<Rightarrow> bool" where
  "ends_with_ack a (CmdStop b) = (b = a)"
| "ends_with_ack a (CmdDelete b) = (b = a)"
| "ends_with_ack a (CmdRestart b) = False"

fun steps_left :: "nat \<Rightarrow> sup_pc \<Rightarrow> nat option" where
  "steps_left a (U_kill_mark l c) = (if ends_with_ack a c then Some 8 else None)"
| "steps_left a (U_kill_signal l c) = (if ends_with_ack a c then Some 7 else None)"
| "steps_left a (U_kill_wait l c n) = (if ends_with_ack a c then Some (6 - min n 2) else None)"
| "steps_left a (U_delay_cmd l code c) = (if ends_with_ack a c then Some 3 else None)"
| "steps_left a (U_killed l c) = (if ends_with_ack a c then Some 3 else None)"
| "steps_left a (U_clear (Some b)) = (if b = a then Some 2 else None)"
| "steps_left a (U_unwatch l b) = (if b = a then Some 2 else None)"
| "steps_left a (U_ack b) = (if b = a then Some 1 else None)"
| "steps_left a _ = None"

lemma steps_left_bound: "steps_left a pc = Some n \<Longrightarrow> 0 < n \<and> n \<le> 8"
  by (cases "(a, pc)" rule: steps_left.cases) (auto split: if_splits)

lemma steps_left_acks: "steps_left a pc = Some n \<Longrightarrow> a \<in> set (pc_acks pc)"
proof (cases "(a, pc)" rule: steps_left.cases)
qed (auto split: if_splits elim: ends_with_ack.elims)

definition ending :: "nat \<Rightarrow> nat \<Rightarrow> nat \<Rightarrow> sys \<Rightarrow> bool" where
  "ending t a n s =
     (t < y_next s \<and>
      (case sup_of s t of
         None \<Rightarrow> ack_of s a = Some AkOk
       | Some u \<Rightarrow> (\<exists>m. steps_left a (u_pc u) = Some m \<and> m \<le> n)))"

section \<open>The supervisor's own steps\<close>

lemma own_step_ends:
  assumes "sup_step h t ch s = Some s'" "sup_of s t = Some u" "steps_left a (u_pc u) = Some m"
    and "ack_of s a = Some AkPending"
  shows "(sup_of s' t = None \<and> ack_of s' a = Some AkOk)
    \<or> (\<exists>u' m'. sup_of s' t = Some u' \<and> steps_left a (u_pc u') = Some m' \<and> m' < m)"
  using assms
  by (cases "u_pc u")
    (auto simp: sup_step_def sup_ops sys_facts ack_finish ack_set_ack Let_def elim!: goE
      split: option.splits choice.splits sup_cmd.splits if_splits)

section \<open>Everything else\<close>

text \<open>An answer, once given, stays; and other tasks leave the program counter of a supervisor alone.\<close>

definition others_leave :: "nat \<Rightarrow> nat \<Rightarrow> sys \<Rightarrow> sys \<Rightarrow> bool" where
  "others_leave t a s s' =
     (map_option u_pc (sup_of s' t) = map_option u_pc (sup_of s t)
      \<and> (ack_of s a = Some AkOk \<longrightarrow> ack_of s' a = Some AkOk) \<and> y_next s \<le> y_next s')"

lemma ending_others:
  assumes "ending t a n s" "others_leave t a s s'"
  shows "ending t a n s'"
proof (cases "sup_of s t")
  case None
  with assms show ?thesis by (auto simp: ending_def others_leave_def)
next
  case (Some u)
  with assms(2) obtain u' where "sup_of s' t = Some u'" "u_pc u' = u_pc u"
    by (auto simp: others_leave_def)
  with Some assms show ?thesis by (auto simp: ending_def others_leave_def)
qed

lemma call_step_leaves:
  assumes step: "call_step h k s = Some s'" and own: "acks_owned s" and t: "t < y_next s"
  shows "others_leave t a s s'"
proof -
  obtain cl where cl: "call_of s k = Some cl" using step by (auto simp: call_step_def split: option.splits)
  have fresh: "ack_of s (y_next s) = None" using own by (auto simp: acks_owned_def)
  show ?thesis
  proof (cases "pc_quiet (k_pc cl)")
    case True
    with call_step_quiet [OF step cl] show ?thesis by (simp add: calls_quiet_def others_leave_def)
  next
    case False
    with step cl t fresh show ?thesis
      by (cases "k_pc cl")
        (auto simp: call_step_def send_step_def send_cmd_def new_ack_def ln_spawn_def spawn_sup_def
          others_leave_def ack_set_ack sys_facts Let_def split: option.splits if_splits)
  qed
qed

lemma sup_step_leaves:
  assumes step: "sup_step h t' ch s = Some s'" and own: "acks_owned s" and "t' \<noteq> t"
  shows "others_leave t a s s'"
proof -
  obtain u where u: "sup_of s t' = Some u" using step by (auto simp: sup_step_def split: option.splits)
  have fr: "y_next s' = y_next s" "sup_of s' t = sup_of s t"
    using sup_step_frame [OF step u] assms(3) by (auto simp: sup_frame_def)
  have "acks_kept t' s s'" using sup_step_acks [OF step u] acks_owned_at [OF own] by blast
  moreover have "a \<notin> set (acks_at s t')" if "ack_of s a = Some AkOk"
    using that acks_owned_at(2) [OF own, of a t'] by auto
  ultimately have "ack_of s' a = ack_of s a" if "ack_of s a = Some AkOk"
    using that unfolding acks_kept_def by blast
  with fr show ?thesis by (auto simp: others_leave_def)
qed

fun moves_sup :: "nat \<Rightarrow> move \<Rightarrow> bool" where
  "moves_sup t (MSup t' ch) = (t' = t)"
| "moves_sup t _ = False"

lemma other_move_leaves:
  assumes "do_move h ok mv s = Some s'" "acks_owned s" "t < y_next s" "\<not> moves_sup t mv"
  shows "others_leave t a s s'"
proof (cases mv)
  case (MSup t' ch)
  with assms show ?thesis by (intro sup_step_leaves) (auto simp: do_move_def)
next
  case (MCall k)
  with assms show ?thesis by (intro call_step_leaves) (auto simp: do_move_def)
next
  case (MExit t' code)
  with assms show ?thesis by (auto simp: do_move_def others_leave_def sys_facts split: option.splits if_splits)
next
  case (MChore c)
  with assms(1) have "run_chore c s = Some s'" by (simp add: do_move_def)
  then show ?thesis by (simp add: others_leave_def run_chore_frame)
next
  case (MClock n)
  with assms(1) show ?thesis by (auto simp: do_move_def others_leave_def)
next
  case (MOut o')
  with assms(1) show ?thesis
    by (cases o') (auto simp: do_move_def others_leave_def new_call_def set_call_def sys_facts split: if_splits prod.splits)
qed

lemma ending_run:
  assumes "run_moves h ok room mvs s = Some s'" "reach h ok room s" "ending t a n s"
  shows "length (filter (moves_sup t) mvs) \<le> n \<and> ending t a (n - length (filter (moves_sup t) mvs)) s'"
  using assms
proof (induction mvs arbitrary: s n)
  case (Cons mv mvs)
  then obtain s1 where s1: "do_move h ok mv s = Some s1" "room s1" "run_moves h ok room mvs s1 = Some s'"
    by (auto split: option.splits if_splits)
  have own: "acks_owned s" using Cons.prems(2) by (rule acks_inv.holds)
  have step: "dstep h ok s s1" using s1(1) dstep_iff_do_move by blast
  with Cons.prems(2) s1(2) have r: "reach h ok room s1" by (blast intro: reach_step)
  have t: "t < y_next s" using Cons.prems(3) by (simp add: ending_def)
  show ?case
  proof (cases "moves_sup t mv")
    case False
    then have "ending t a n s1" using other_move_leaves [OF s1(1) own t] Cons.prems(3) ending_others by blast
    from Cons.IH [OF s1(3) r this] False show ?thesis by simp
  next
    case True
    then obtain ch where st: "sup_step h t ch s = Some s1" using s1(1) by (cases mv) (auto simp: do_move_def)
    then obtain u where u: "sup_of s t = Some u" by (auto simp: sup_step_def split: option.splits)
    with Cons.prems(3) obtain m where m: "steps_left a (u_pc u) = Some m" "m \<le> n" by (auto simp: ending_def)
    have "a \<in> set (acks_at s t)" using steps_left_acks [OF m(1)] u by (simp add: acks_at_def sup_acks_def)
    then have "ack_of s a = Some AkPending" using acks_owned_at(2) [OF own] by blast
    from own_step_ends [OF st u m(1) this] m(2) steps_left_bound [OF m(1)]
    have "ending t a (n - 1) s1" "0 < n"
      using t sup_step_frame [OF st u] by (auto simp: ending_def sup_frame_def)
    with Cons.IH [OF s1(3) r, of "n - 1"] True show ?thesis by (cases n) auto
  qed
qed simp

section \<open>Signals and the child\<close>

text \<open>Signals are only added to those sent.\<close>

named_theorems signal_facts \<open>what each update makes of the signals sent\<close>

lemma on_ctx_signals [signal_facts]: "y_signals (on_ctx f s) = y_signals s"
  by (simp add: on_ctx_def)

lemma tasks_signals [signal_facts]:
  "y_signals (set_sup t u s) = y_signals s" "y_signals (goto t u pc s) = y_signals s"
  "y_signals (call_goto k cl kpc s) = y_signals s" "y_signals (snd (new_ack s)) = y_signals s"
  by (simp_all add: set_sup_def goto_def call_goto_def set_call_def new_ack_def)

lemma acks_signals [signal_facts]:
  "y_signals (set_ack a v s) = y_signals s" "y_signals (set_ack_opt ao v s) = y_signals s"
  by (simp_all add: set_ack_def set_ack_opt_def split: option.split)

lemma fold_acks_signals [signal_facts]: "y_signals (fold (\<lambda>a. set_ack a v) as s) = y_signals s"
  by (induction as arbitrary: s) (simp_all add: acks_signals)

lemma finish_signals: "\<exists>sent. y_signals (finish t u s) = y_signals s @ sent"
  by (simp add: finish_def Let_def fold_acks_signals split: option.split)

lemma send_tree_signals [signal_facts]:
  "y_signals (send_signal_tree p g b s) = y_signals s @ [\<lparr>sg_pid = p, sg_signal = g, sg_tree = b\<rparr>]"
  by (simp add: send_signal_tree_def)

lemma sup_step_signals:
  assumes "sup_step h t ch s = Some s'"
  shows "\<exists>sent. y_signals s' = y_signals s @ sent"
proof -
  obtain u where u: "sup_of s t = Some u" using assms by (auto simp: sup_step_def split: option.splits)
  have ends: "\<exists>sent. y_signals (finish t u s1) = y_signals s @ sent" if "y_signals s1 = y_signals s" for s1
    using that finish_signals [of t u s1] by simp
  show ?thesis
    using assms u
    by (cases "u_pc u")
      (auto simp: sup_step_def sup_ops signal_facts Let_def elim!: goE
        split: option.splits choice.splits sup_cmd.splits list.splits if_splits restart_decision.splits sum.splits
        intro!: ends)
qed

lemma call_step_signals:
  assumes "call_step h k s = Some s'"
  shows "y_signals s' = y_signals s"
  using assms
  by (auto simp: call_step_def call_ops dl_lock_def dl_wait_def dl_remove_def dl_unwatch_def sa_row_def
      send_step_def send_cmd_def ln_spawn_def spawn_sup_def new_ack_def signal_facts Let_def
      split: option.splits if_splits ack.splits launch_cont.splits sum.splits prod.splits call_pc.splits)

lemma do_move_signals:
  assumes "do_move h ok mv s = Some s'"
  shows "\<exists>sent. y_signals s' = y_signals s @ sent"
proof (cases mv)
  case (MSup t ch)
  with assms show ?thesis by (simp add: do_move_def sup_step_signals)
next
  case (MCall k)
  with assms show ?thesis by (simp add: do_move_def call_step_signals)
next
  case (MOut o')
  with assms show ?thesis
    by (cases o') (auto simp: do_move_def new_call_def set_call_def signal_facts split: if_splits prod.splits)
qed (use assms in \<open>auto simp: do_move_def run_chore_def signal_facts split: option.splits if_splits\<close>)

lemma run_signals:
  "run_moves h ok room mvs s = Some s' \<Longrightarrow> \<exists>sent. y_signals s' = y_signals s @ sent"
proof (induction mvs arbitrary: s)
  case (Cons mv mvs)
  then obtain s1 where "do_move h ok mv s = Some s1" "run_moves h ok room mvs s1 = Some s'"
    by (auto split: option.splits if_splits)
  with Cons.IH do_move_signals show ?case by (metis append.assoc)
qed simp

text \<open>Other tasks leave the child alone; the child itself can only exit.\<close>

definition keeps_sup :: "nat \<Rightarrow> sys \<Rightarrow> sys \<Rightarrow> bool" where
  "keeps_sup t s s' = (\<forall>u. sup_of s t = Some u \<longrightarrow> (\<exists>u'. sup_of s' t = Some u' \<and> u_pc u' = u_pc u \<and> u_child u' = u_child u))"

lemma keeps_sup_same: "sup_of s' t = sup_of s t \<Longrightarrow> keeps_sup t s s'"
  by (simp add: keeps_sup_def)

lemma call_step_keeps:
  assumes step: "call_step h k s = Some s'" and t: "t < y_next s"
  shows "keeps_sup t s s'"
proof -
  obtain cl where cl: "call_of s k = Some cl" using step by (auto simp: call_step_def split: option.splits)
  show ?thesis
  proof (cases "pc_quiet (k_pc cl)")
    case True
    with call_step_quiet [OF step cl] show ?thesis by (simp add: calls_quiet_def keeps_sup_def)
  next
    case False
    with step cl t show ?thesis
      by (cases "k_pc cl")
        (auto simp: call_step_def send_step_def send_cmd_def new_ack_def ln_spawn_def spawn_sup_def
          keeps_sup_def sys_facts Let_def split: option.splits if_splits)
  qed
qed

fun exits :: "nat \<Rightarrow> move \<Rightarrow> bool" where
  "exits t (MExit t' code) = (t' = t)"
| "exits t _ = False"

lemma exits_iff: "exits t mv \<longleftrightarrow> (\<exists>code. mv = MExit t code)"
  by (cases mv) auto

lemma other_move_keeps:
  assumes "do_move h ok mv s = Some s'" "t < y_next s" "\<not> moves_sup t mv" "\<not> exits t mv"
  shows "keeps_sup t s s'"
proof (cases mv)
  case (MSup t' ch)
  with assms obtain u where u: "sup_of s t' = Some u" by (auto simp: do_move_def sup_step_def split: option.splits)
  with MSup assms sup_step_frame [of h t' ch s s' u] show ?thesis
    by (intro keeps_sup_same) (simp add: do_move_def sup_frame_def)
next
  case (MCall k)
  with assms show ?thesis by (intro call_step_keeps) (auto simp: do_move_def)
next
  case (MExit t' code)
  with assms show ?thesis by (intro keeps_sup_same) (auto simp: do_move_def sys_facts split: option.splits if_splits)
next
  case (MChore c)
  with assms(1) have "run_chore c s = Some s'" by (simp add: do_move_def)
  then show ?thesis by (intro keeps_sup_same) (simp add: run_chore_frame)
next
  case (MClock n)
  with assms(1) show ?thesis by (intro keeps_sup_same) (auto simp: do_move_def)
next
  case (MOut o')
  with assms(1) show ?thesis
    by (intro keeps_sup_same, cases o')
      (auto simp: do_move_def new_call_def set_call_def sys_facts split: if_splits prod.splits)
qed

lemma exit_keeps_pid:
  assumes "do_move h ok mv s = Some s'" "exits t mv" "sup_of s t = Some u" "u_child u = Some c"
  shows "\<exists>u' c'. sup_of s' t = Some u' \<and> u_pc u' = u_pc u \<and> u_child u' = Some c' \<and> ch_pid c' = ch_pid c"
  using assms by (auto simp: exits_iff do_move_def sys_facts split: option.splits if_splits)

section \<open>A stop kills its child\<close>

text \<open>The supervisor is in its kill sequence and its child lives.\<close>

fun killing_pc :: "sup_pc \<Rightarrow> bool" where
  "killing_pc (U_kill_mark l c) = True"
| "killing_pc (U_kill_signal l c) = True"
| "killing_pc (U_kill_wait l c n) = True"
| "killing_pc _ = False"

definition facing :: "nat \<Rightarrow> sys \<Rightarrow> bool" where
  "facing t s = (\<exists>u c. sup_of s t = Some u \<and> killing_pc (u_pc u) \<and> u_child u = Some c \<and> ch_exit c = None)"

lemma facing_own_step:
  assumes "sup_step h t ch s = Some s'" "facing t s"
  shows "facing t s'"
proof -
  obtain u c where u: "sup_of s t = Some u" "killing_pc (u_pc u)" "u_child u = Some c" "ch_exit c = None"
    using assms(2) by (auto simp: facing_def)
  with assms(1) show ?thesis
    by (cases "u_pc u")
      (auto simp: facing_def sup_step_def su_kill_mark_def su_kill_signal_def su_kill_wait_def sys_facts Let_def elim!: goE
        split: option.splits choice.splits if_splits)
qed

lemma facing_move:
  assumes "do_move h ok mv s = Some s'" "t < y_next s" "facing t s" "\<not> exits t mv"
  shows "facing t s'"
proof (cases "moves_sup t mv")
  case True
  with assms(1,3) show ?thesis by (cases mv) (auto simp: do_move_def intro: facing_own_step)
next
  case False
  with other_move_keeps [OF assms(1,2) False assms(4)] assms(3) show ?thesis
    unfolding facing_def keeps_sup_def by metis
qed

lemma next_move:
  assumes "do_move h ok mv s = Some s'" "acks_owned s" "t < y_next s"
  shows "t < y_next s'"
proof (cases "moves_sup t mv")
  case True
  then obtain ch where "sup_step h t ch s = Some s'" using assms(1) by (cases mv) (auto simp: do_move_def)
  moreover from this obtain u where "sup_of s t = Some u" by (auto simp: sup_step_def split: option.splits)
  ultimately show ?thesis using sup_step_frame assms(3) unfolding sup_frame_def by metis
next
  case False
  from other_move_leaves [OF assms False, of 0] assms(3) show ?thesis by (simp add: others_leave_def)
qed

lemma run_Cons:
  assumes "run_moves h ok room (mv # mvs) s = Some s'" "reach h ok room s"
  obtains s1 where "do_move h ok mv s = Some s1" "run_moves h ok room mvs s1 = Some s'" "reach h ok room s1"
    "run_moves h ok room [mv] s = Some s1"
proof -
  obtain s1 where s1: "do_move h ok mv s = Some s1" "room s1" "run_moves h ok room mvs s1 = Some s'"
    using assms(1) by (auto split: option.splits if_splits)
  then have one: "run_moves h ok room [mv] s = Some s1" by simp
  from that [OF s1(1,3) run_moves_reach [OF one assms(2)] one] show thesis .
qed

lemma facing_run:
  assumes "run_moves h ok room mvs s = Some s'" "reach h ok room s" "facing t s" "\<not> facing t s'"
  shows "\<exists>code. MExit t code \<in> set mvs"
  using assms
proof (induction mvs arbitrary: s)
  case (Cons mv mvs)
  from Cons.prems(1,2) obtain s1 where s1: "do_move h ok mv s = Some s1" "run_moves h ok room mvs s1 = Some s'"
      "reach h ok room s1" "run_moves h ok room [mv] s = Some s1" by (rule run_Cons)
  have t: "t < y_next s" using acks_inv.holds [OF Cons.prems(2)] Cons.prems(3) by (auto simp: acks_owned_def facing_def)
  show ?case
  proof (cases "exits t mv")
    case True
    then show ?thesis by (auto simp: exits_iff)
  next
    case False
    from Cons.IH [OF s1(2,3) facing_move [OF s1(1) t Cons.prems(3) False] Cons.prems(4)] show ?thesis by auto
  qed
qed simp

text \<open>The signals of \<open>do_kill\<close>: the configured one, and \<open>SIGKILL\<close> when that is not obeyed in time.\<close>

definition kill_order :: "loc \<Rightarrow> u32 \<Rightarrow> signal_sent" where
  "kill_order l pid =
     \<lparr>sg_pid = pid,
      sg_signal = (case parse_signal (ac_kill_signal (l_config l)) of Some g \<Rightarrow> g | None \<Rightarrow> ''SIGINT''),
      sg_tree = ac_treekill (l_config l)\<rparr>"

definition kill_hard :: "loc \<Rightarrow> u32 \<Rightarrow> signal_sent" where
  "kill_hard l pid = \<lparr>sg_pid = pid, sg_signal = ''SIGKILL'', sg_tree = ac_treekill (l_config l)\<rparr>"

text \<open>Neither sent yet, or only the first.\<close>

definition before_kill :: "nat \<Rightarrow> loc \<Rightarrow> sup_cmd \<Rightarrow> u32 \<Rightarrow> sys \<Rightarrow> bool" where
  "before_kill t l cmd pid s =
     (\<exists>u c. sup_of s t = Some u \<and> u_pc u \<in> {U_kill_mark l cmd, U_kill_signal l cmd} \<and> u_child u = Some c \<and> ch_pid c = pid)"

definition before_hard :: "nat \<Rightarrow> loc \<Rightarrow> sup_cmd \<Rightarrow> u32 \<Rightarrow> sys \<Rightarrow> bool" where
  "before_hard t l cmd pid s =
     (\<exists>u c. sup_of s t = Some u \<and> u_pc u = U_kill_wait l cmd 0 \<and> u_child u = Some c \<and> ch_pid c = pid)"

lemma before_kill_own_step:
  assumes "sup_step h t ch s = Some s'" "before_kill t l cmd pid s"
  shows "ch = ChGo \<and> (before_kill t l cmd pid s'
    \<or> (before_hard t l cmd pid s' \<and> y_signals s' = y_signals s @ [kill_order l pid]))"
  using assms
  by (auto simp: before_kill_def before_hard_def sup_step_def su_kill_mark_def su_kill_signal_def kill_order_def
      sys_facts signal_facts Let_def elim!: goE)

lemma before_hard_own_step:
  assumes "sup_step h t ch s = Some s'" "before_hard t l cmd pid s"
  shows "(ch = ChTimer \<and> y_signals s' = y_signals s @ [kill_hard l pid])
    \<or> (ch \<noteq> ChTimer \<and> (\<exists>u'. sup_of s' t = Some u' \<and> u_pc u' = U_killed l cmd))"
  using assms
  by (auto simp: before_hard_def sup_step_def su_kill_wait_def kill_hard_def child_pid_def sys_facts signal_facts
      split: choice.splits if_splits)

lemma before_other_move:
  assumes "do_move h ok mv s = Some s'" "t < y_next s" "\<not> moves_sup t mv"
  shows "before_kill t l cmd pid s \<Longrightarrow> before_kill t l cmd pid s'"
    and "before_hard t l cmd pid s \<Longrightarrow> before_hard t l cmd pid s'"
proof -
  have kept: "\<exists>u' c'. sup_of s' t = Some u' \<and> u_pc u' = u_pc u \<and> u_child u' = Some c' \<and> ch_pid c' = ch_pid c"
    if "sup_of s t = Some u" "u_child u = Some c" for u c
  proof (cases "exits t mv")
    case True
    from exit_keeps_pid [OF assms(1) True that] show ?thesis .
  next
    case False
    from other_move_keeps [OF assms False] that show ?thesis by (auto simp: keeps_sup_def)
  qed
  show "before_kill t l cmd pid s \<Longrightarrow> before_kill t l cmd pid s'" unfolding before_kill_def using kept by metis
  show "before_hard t l cmd pid s \<Longrightarrow> before_hard t l cmd pid s'" unfolding before_hard_def using kept by metis
qed

text \<open>From the answer to the end no timer runs.\<close>

lemma ending_no_timer:
  assumes "sup_step h t ch s = Some s'" "ending t a 3 s"
  shows "ch \<noteq> ChTimer"
proof -
  obtain u where u: "sup_of s t = Some u" using assms(1) by (auto simp: sup_step_def split: option.splits)
  with assms(2) obtain m where "steps_left a (u_pc u) = Some m" "m \<le> 3" by (auto simp: ending_def)
  with assms(1) u show ?thesis
    by (cases "u_pc u") (auto simp: sup_step_def elim!: goE split: if_splits)
qed

lemma ending_le: "ending t a n s \<Longrightarrow> n \<le> m \<Longrightarrow> ending t a m s"
  by (auto simp: ending_def split: option.splits intro: order_trans)

lemma ending_run_no_timer:
  assumes "run_moves h ok room mvs s = Some s'" "reach h ok room s" "ending t a 3 s"
  shows "MSup t ChTimer \<notin> set mvs"
  using assms
proof (induction mvs arbitrary: s)
  case (Cons mv mvs)
  from Cons.prems(1,2) obtain s1 where s1: "do_move h ok mv s = Some s1" "run_moves h ok room mvs s1 = Some s'"
      "reach h ok room s1" "run_moves h ok room [mv] s = Some s1" by (rule run_Cons)
  have "ending t a (3 - length (filter (moves_sup t) [mv])) s1" using ending_run [OF s1(4) Cons.prems(2,3)] by blast
  then have "ending t a 3 s1" by (rule ending_le) simp
  from Cons.IH [OF s1(2,3) this] have "MSup t ChTimer \<notin> set mvs" .
  moreover have "mv \<noteq> MSup t ChTimer"
    using ending_no_timer [of h t ChTimer s s1] Cons.prems(3) s1(1) by (auto simp: do_move_def)
  ultimately show ?case by auto
qed simp

lemma hard_run:
  assumes "run_moves h ok room mvs s = Some s'" "reach h ok room s" "before_hard t l cmd pid s" "ends_with_ack a cmd"
    and "MSup t ChTimer \<in> set mvs"
  shows "\<exists>sent. y_signals s' = y_signals s @ sent \<and> kill_hard l pid \<in> set sent"
  using assms
proof (induction mvs arbitrary: s)
  case (Cons mv mvs)
  from Cons.prems(1,2) obtain s1 where s1: "do_move h ok mv s = Some s1" "run_moves h ok room mvs s1 = Some s'"
      "reach h ok room s1" "run_moves h ok room [mv] s = Some s1" by (rule run_Cons)
  have t: "t < y_next s" using acks_inv.holds [OF Cons.prems(2)] Cons.prems(3) by (auto simp: acks_owned_def before_hard_def)
  obtain sent0 where sent0: "y_signals s1 = y_signals s @ sent0" using do_move_signals [OF s1(1)] by blast
  obtain sent1 where sent1: "y_signals s' = y_signals s1 @ sent1" using run_signals [OF s1(2)] by blast
  show ?case
  proof (cases "moves_sup t mv")
    case False
    then have "mv \<noteq> MSup t ChTimer" by auto
    with Cons.IH [OF s1(2,3) before_other_move(2) [OF s1(1) t False Cons.prems(3)] Cons.prems(4)] Cons.prems(5)
    obtain sent where "y_signals s' = y_signals s1 @ sent" "kill_hard l pid \<in> set sent" by auto
    with sent0 show ?thesis by auto
  next
    case True
    then obtain ch where mv: "mv = MSup t ch" by (cases mv) auto
    with s1(1) have "sup_step h t ch s = Some s1" by (simp add: do_move_def)
    from before_hard_own_step [OF this Cons.prems(3)] show ?thesis
    proof
      assume "ch = ChTimer \<and> y_signals s1 = y_signals s @ [kill_hard l pid]"
      with sent1 show ?thesis by auto
    next
      assume ended: "ch \<noteq> ChTimer \<and> (\<exists>u'. sup_of s1 t = Some u' \<and> u_pc u' = U_killed l cmd)"
      then have "ending t a 3 s1" using next_move [OF s1(1) acks_inv.holds [OF Cons.prems(2)] t] Cons.prems(4) by (auto simp: ending_def)
      from ending_run_no_timer [OF s1(2,3) this] Cons.prems(5) ended mv show ?thesis by auto
    qed
  qed
qed simp

lemma kill_run:
  assumes "run_moves h ok room mvs s = Some s'" "reach h ok room s" "before_kill t l cmd pid s" "ends_with_ack a cmd"
    and "sup_of s' t = None"
  shows "\<exists>sent. y_signals s' = y_signals s @ sent \<and> kill_order l pid \<in> set sent
    \<and> (MSup t ChTimer \<in> set mvs \<longrightarrow> kill_hard l pid \<in> set sent)"
  using assms
proof (induction mvs arbitrary: s)
  case Nil
  then show ?case by (auto simp: before_kill_def)
next
  case (Cons mv mvs)
  from Cons.prems(1,2) obtain s1 where s1: "do_move h ok mv s = Some s1" "run_moves h ok room mvs s1 = Some s'"
      "reach h ok room s1" "run_moves h ok room [mv] s = Some s1" by (rule run_Cons)
  have t: "t < y_next s" using acks_inv.holds [OF Cons.prems(2)] Cons.prems(3) by (auto simp: acks_owned_def before_kill_def)
  obtain sent0 where sent0: "y_signals s1 = y_signals s @ sent0" using do_move_signals [OF s1(1)] by blast
  have again: ?case if before: "before_kill t l cmd pid s1" and no_timer: "mv \<noteq> MSup t ChTimer"
  proof -
    obtain sent where "y_signals s' = y_signals s1 @ sent" "kill_order l pid \<in> set sent"
        "MSup t ChTimer \<in> set mvs \<longrightarrow> kill_hard l pid \<in> set sent"
      using Cons.IH [OF s1(2,3) before Cons.prems(4,5)] by blast
    with sent0 no_timer show ?thesis by auto
  qed
  show ?case
  proof (cases "moves_sup t mv")
    case False
    then show ?thesis using before_other_move(1) [OF s1(1) t False Cons.prems(3)] by (intro again) auto
  next
    case True
    then obtain ch where mv: "mv = MSup t ch" by (cases mv) auto
    with s1(1) have "sup_step h t ch s = Some s1" by (simp add: do_move_def)
    note own = before_kill_own_step [OF this Cons.prems(3)]
    show ?thesis
    proof (cases "before_kill t l cmd pid s1")
      case True
      with own mv show ?thesis by (intro again) auto
    next
      case False
      with own have "before_hard t l cmd pid s1" and sig: "y_signals s1 = y_signals s @ [kill_order l pid]" by auto
      note hard = hard_run [OF s1(2,3) this(1) Cons.prems(4)]
      obtain sent1 where sent1: "y_signals s' = y_signals s1 @ sent1" using run_signals [OF s1(2)] by blast
      have "MSup t ChTimer \<in> set (mv # mvs) \<longrightarrow> MSup t ChTimer \<in> set mvs" using own mv by auto
      with hard sent1 sig show ?thesis by (intro exI [of _ "kill_order l pid # sent1"]) auto
    qed
  qed
qed

section \<open>Properties\<close>

text \<open>C9: A stop or delete is bounded: once a supervisor has taken the command, it makes at most eight more
  steps of its own in any run, whatever the other tasks, the children and the clock do in between;
  it is then gone and the command is acknowledged, and until then it is still on the way, with
  every step made counted.  When it is gone, the child it had has exited.  From the start of the kill sequence on
  that child was sent the configured signal (\<open>SIGINT\<close> if its name is none), and \<open>SIGKILL\<close> as well if a
  timeout elapsed, to the process or its whole tree as configured.\<close>
theorem stop_takes_bounded_steps:
  assumes "reach h ok room s" "sup_of s t = Some u" "steps_left a (u_pc u) = Some n"
    and "run_moves h ok room mvs s = Some s'"
  shows "n \<le> 8 \<and> length (filter (moves_sup t) mvs) \<le> n
    \<and> (case sup_of s' t of
         None \<Rightarrow> ack_of s' a = Some AkOk
       | Some u' \<Rightarrow> (\<exists>m. steps_left a (u_pc u') = Some m \<and> m + length (filter (moves_sup t) mvs) \<le> n))
    \<and> (\<forall>c. sup_of s' t = None \<and> u_child u = Some c \<longrightarrow>
         ch_exit c \<noteq> None \<or> (\<exists>code. MExit t code \<in> set mvs))
    \<and> (\<forall>l cmd c. sup_of s' t = None \<and> u_child u = Some c \<and> u_pc u = U_kill_mark l cmd \<longrightarrow>
         (\<exists>sent. y_signals s' = y_signals s @ sent \<and> kill_order l (ch_pid c) \<in> set sent
            \<and> (MSup t ChTimer \<in> set mvs \<longrightarrow> kill_hard l (ch_pid c) \<in> set sent)))"
proof -
  have t: "t < y_next s" using acks_inv.holds [OF assms(1)] assms(2) by (auto simp: acks_owned_def)
  with assms(2,3) have "ending t a n s" by (simp add: ending_def)
  from ending_run [OF assms(4,1) this] steps_left_bound [OF assms(3)]
  have bound: "n \<le> 8 \<and> length (filter (moves_sup t) mvs) \<le> n
    \<and> (case sup_of s' t of
         None \<Rightarrow> ack_of s' a = Some AkOk
       | Some u' \<Rightarrow> (\<exists>m. steps_left a (u_pc u') = Some m \<and> m + length (filter (moves_sup t) mvs) \<le> n))"
    by (auto simp: ending_def split: option.splits)
  have "child_placed u" using stops_inv.upper.holds [OF assms(1)] assms(2) unfolding stops_owed_def by metis
  then have facing: "facing t s" if "u_child u = Some c" "ch_exit c = None" for c
    using assms(2,3) that by (cases "u_pc u") (auto simp: facing_def child_placed_def)
  have died: "ch_exit c \<noteq> None \<or> (\<exists>code. MExit t code \<in> set mvs)" if "sup_of s' t = None" "u_child u = Some c" for c
  proof (cases "ch_exit c")
    case None
    from facing_run [OF assms(4,1) facing [OF that(2) None]] that(1) show ?thesis by (simp add: facing_def)
  qed simp
  have "\<exists>sent. y_signals s' = y_signals s @ sent \<and> kill_order l (ch_pid c) \<in> set sent
      \<and> (MSup t ChTimer \<in> set mvs \<longrightarrow> kill_hard l (ch_pid c) \<in> set sent)"
    if "sup_of s' t = None" "u_child u = Some c" "u_pc u = U_kill_mark l cmd" for l cmd c
  proof -
    have "before_kill t l cmd (ch_pid c) s" using that assms(2) by (simp add: before_kill_def)
    moreover have "ends_with_ack a cmd" using assms(3) that(3) by (simp split: if_splits)
    ultimately show ?thesis using that(1) by (rule kill_run [OF assms(4,1)])
  qed
  with bound died show ?thesis by blast
qed

lemma stop_takes_bounded_steps_witness:
  "\<exists>u. sup_of sample_killing 4 = Some u \<and> steps_left 6 (u_pc u) = Some 6
    \<and> run_moves sample_host no_delete id_room end_moves sample_killing = Some sample_stopped
    \<and> ack_of sample_stopped 6 = Some AkOk"
proof -
  have "sup_shows sample_killing 4 (\<lambda>u. steps_left 6 (u_pc u) = Some 6)" by code_simp
  then obtain u where u: "sup_of sample_killing 4 = Some u" "steps_left 6 (u_pc u) = Some 6" by (rule sup_showsE)
  have "(case run_moves sample_host no_delete id_room (start_moves @ stop_moves) sys_init of Some s \<Rightarrow> True | None \<Rightarrow> False)"
    by code_simp
  moreover have "(case run_moves sample_host no_delete id_room end_moves sample_killing of Some s \<Rightarrow> sup_of s 4 = None | None \<Rightarrow> False)"
    by code_simp
  moreover have "run_moves h ok room (xs @ ys) s = (case run_moves h ok room xs s of None \<Rightarrow> None | Some s' \<Rightarrow> run_moves h ok room ys s')"
    for h ok room xs ys s by (induction xs arbitrary: s) (auto split: option.split)
  ultimately have run: "run_moves sample_host no_delete id_room end_moves sample_killing = Some sample_stopped"
      and gone: "sup_of sample_stopped 4 = None"
    by (auto simp: sample_state_def split: option.splits)
  from stop_takes_bounded_steps [OF sample_reach u run] gone u run show ?thesis by auto
qed

end
