(* ===== verification/Deletion.thy ===== *)
theory Deletion
  imports Stopping
begin

text \<open>
  Runs in which processes are deleted.  A delete removes the row itself when it finds no supervisor,
  and one may have started meanwhile: a supervisor can outlive its row.  As long as its id is not handed
  out again, there is still one supervisor and one child per id, whatever is requested; \<open>alloc_id\<close> starts over
  when the table is empty, and then there need not be.
\<close>

section \<open>Ids that are handed out\<close>

text \<open>The id under which the next step of an operation inserts a row.\<close>

fun takes_id :: "ptable \<Rightarrow> call_pc \<Rightarrow> u32 option" where
  "takes_id t (SA_row app fixed n ids) =
     (case fixed of
        Some (pm, _) \<Rightarrow> if n < 1 \<and> hm_get (procs t) pm = None then Some pm else None
      | None \<Rightarrow> if n < unat (ac_instances app) then Some (fst (alloc_id t)) else None)"
| "takes_id t _ = None"

text \<open>No start is about to take the id of a process whose supervisor is still at work.\<close>

definition ids_apart :: "sys \<Rightarrow> bool" where
  "ids_apart s =
     list_all (\<lambda>k. case call_of s k of
         Some cl \<Rightarrow>
           list_all (\<lambda>t. case sup_of s t of
               Some u \<Rightarrow> takes_id (c_table (y_ctx s)) (k_pc cl) = Some (u_pm u) \<longrightarrow> retired u
             | None \<Rightarrow> True) (map fst (y_sups s))
       | None \<Rightarrow> True) (map fst (y_calls s))"

lemma hm_keys: "hm_get m k \<noteq> None \<longleftrightarrow> k \<in> set (map fst m)"
  by (simp add: hm_get_def map_of_eq_None_iff)

lemma list_all_entries:
  "list_all (\<lambda>k. case hm_get m k of Some v \<Rightarrow> P v | None \<Rightarrow> True) (map fst m) \<longleftrightarrow> (\<forall>k v. hm_get m k = Some v \<longrightarrow> P v)"
  unfolding list_all_iff Ball_def hm_keys [symmetric] by (auto split: option.splits)

lemma ids_apart_iff:
  "ids_apart s \<longleftrightarrow> (\<forall>k cl. call_of s k = Some cl \<longrightarrow> (\<forall>t u. sup_of s t = Some u \<longrightarrow>
     takes_id (c_table (y_ctx s)) (k_pc cl) = Some (u_pm u) \<longrightarrow> retired u))"
  by (simp only: ids_apart_def list_all_entries)

lemma ids_apartD:
  "ids_apart s \<Longrightarrow> call_of s k = Some cl \<Longrightarrow> takes_id (c_table (y_ctx s)) (k_pc cl) = Some (u_pm u) \<Longrightarrow>
    sup_of s t = Some u \<Longrightarrow> retired u"
  unfolding ids_apart_iff by blast

lemma ids_apart_init: "ids_apart sys_init"
  by (simp add: ids_apart_def sys_init_def)

section \<open>The invariant\<close>

text \<open>A supervisor that has not retired has its row's channel, unless the row is gone for good.\<close>

definition has_channel :: "sys \<Rightarrow> nat \<Rightarrow> sup \<Rightarrow> bool" where
  "has_channel s t u =
     (retired u \<or> (case row s (u_pm u) of None \<Rightarrow> True | Some p \<Rightarrow> p_cmd_tx p = Some t))"

definition lone :: "sys \<Rightarrow> bool" where
  "lone s =
     ((\<forall>t u. sup_of s t = Some u \<longrightarrow> t < y_next s \<and> has_channel s t u)
      \<and> (\<forall>t u t' u'. sup_of s t = Some u \<longrightarrow> sup_of s t' = Some u' \<longrightarrow> \<not> retired u \<longrightarrow> \<not> retired u' \<longrightarrow>
            u_pm u' = u_pm u \<longrightarrow> t' = t))"

lemma lone_sup:
  assumes "lone s" "sup_of s t = Some u"
  shows "t < y_next s" "has_channel s t u"
  using assms by (auto simp: lone_def)

lemma lone_unique:
  assumes "lone s" "sup_of s t = Some u" "sup_of s t' = Some u'" "\<not> retired u" "\<not> retired u'" "u_pm u' = u_pm u"
  shows "t' = t"
  using assms unfolding lone_def by blast

lemma lone_init: "lone sys_init"
  by (simp add: lone_def sys_init_def)

section \<open>Loose steps\<close>

text \<open>Rows may go, but none comes, and a channel changes only when its supervisor retires; supervisors
  may go, but none comes.\<close>

definition sys_loose :: "sys \<Rightarrow> sys \<Rightarrow> bool" where
  "sys_loose s s' =
     ((\<forall>i p'. row s' i = Some p' \<longrightarrow> (\<exists>p. row s i = Some p \<and>
          (p_cmd_tx p' = p_cmd_tx p
           \<or> (\<forall>t u. p_cmd_tx p = Some t \<longrightarrow> sup_of s' t = Some u \<longrightarrow> retired u \<or> u_pm u \<noteq> i))))
      \<and> (\<forall>t u'. sup_of s' t = Some u' \<longrightarrow> (\<exists>u. sup_of s t = Some u \<and> u_pm u' = u_pm u \<and> (retired u \<longrightarrow> retired u')))
      \<and> y_next s \<le> y_next s' \<and> next_id (c_table (y_ctx s')) = next_id (c_table (y_ctx s)))"

lemma looseD:
  assumes "sys_loose s s'"
  shows "row s' i = Some p' \<Longrightarrow> \<exists>p. row s i = Some p \<and> (p_cmd_tx p' = p_cmd_tx p
      \<or> (\<forall>t u. p_cmd_tx p = Some t \<longrightarrow> sup_of s' t = Some u \<longrightarrow> retired u \<or> u_pm u \<noteq> i))"
    and "sup_of s' t = Some u' \<Longrightarrow> \<exists>u. sup_of s t = Some u \<and> u_pm u' = u_pm u \<and> (retired u \<longrightarrow> retired u')"
    and "y_next s \<le> y_next s'" "next_id (c_table (y_ctx s')) = next_id (c_table (y_ctx s))"
  using assms by (simp_all add: sys_loose_def)

lemma lone_loose:
  assumes inv: "lone s" and loose: "sys_loose s s'"
  shows "lone s'"
proof -
  note rows = looseD(1) [OF loose] and sups = looseD(2) [OF loose]
  have "t < y_next s' \<and> has_channel s' t u'" if u': "sup_of s' t = Some u'" for t u'
  proof -
    obtain u where u: "sup_of s t = Some u" "u_pm u' = u_pm u" "retired u \<longrightarrow> retired u'" using sups [OF u'] by blast
    note old = lone_sup [OF inv u(1)]
    have "has_channel s' t u'"
    proof (cases "retired u' \<or> row s' (u_pm u') = None")
      case True
      then show ?thesis by (auto simp: has_channel_def)
    next
      case False
      then obtain p' where p': "row s' (u_pm u') = Some p'" by blast
      obtain p where p: "row s (u_pm u') = Some p" "p_cmd_tx p' = p_cmd_tx p
          \<or> (\<forall>t u. p_cmd_tx p = Some t \<longrightarrow> sup_of s' t = Some u \<longrightarrow> retired u \<or> u_pm u \<noteq> u_pm u')"
        using rows [OF p'] by blast
      have "p_cmd_tx p = Some t" using old(2) False u p(1) by (auto simp: has_channel_def)
      with p(2) u' False have "p_cmd_tx p' = Some t" by auto
      with p' show ?thesis by (simp add: has_channel_def)
    qed
    with old looseD(3) [OF loose] show ?thesis by auto
  qed
  moreover have "t2 = t1" if two: "sup_of s' t1 = Some u1" "sup_of s' t2 = Some u2" "\<not> retired u1" "\<not> retired u2" "u_pm u2 = u_pm u1"
    for t1 u1 t2 u2
  proof -
    obtain v1 where v1: "sup_of s t1 = Some v1" "u_pm u1 = u_pm v1" "\<not> retired v1" using sups [OF two(1)] two(3) by auto
    obtain v2 where v2: "sup_of s t2 = Some v2" "u_pm u2 = u_pm v2" "\<not> retired v2" using sups [OF two(2)] two(4) by auto
    from v1 v2 two(5) show ?thesis by (intro lone_unique [OF inv v1(1) v2(1)]) simp_all
  qed
  ultimately show ?thesis unfolding lone_def by blast
qed

lemma sup_step_loose_row:
  assumes "sup_step h t ch s = Some s'" "sup_of s t = Some u" "row s' (u_pm u) = Some p'" "has_channel s t u"
  shows "\<exists>p. row s (u_pm u) = Some p \<and>
    (p_cmd_tx p' = p_cmd_tx p \<or> (p_cmd_tx p = Some t \<and> (\<forall>u'. sup_of s' t = Some u' \<longrightarrow> retired u')))"
  using assms
  by (cases "u_pc u")
    (auto simp: sup_step_def has_channel_def sup_ops sys_facts Let_def go_online_def restart_row_def reset_state_def auto_restart_row_def
      elim!: goE
      split: option.splits choice.splits sup_cmd.splits list.splits if_splits restart_decision.splits sum.splits)

lemma sup_step_loose_sup:
  assumes "sup_step h t ch s = Some s'" "sup_of s t = Some u" "sup_of s' t = Some u'"
  shows "u_pm u' = u_pm u \<and> (retired u \<longrightarrow> retired u')"
  using assms
  by (cases "u_pc u")
    (auto simp: sup_step_def sup_ops sys_facts Let_def elim!: goE
      split: option.splits choice.splits sup_cmd.splits list.splits if_splits restart_decision.splits sum.splits)

lemma sup_step_loose:
  assumes inv: "lone s" and step: "sup_step h t ch s = Some s'"
  shows "sys_loose s s' \<and> y_calls s' = y_calls s"
proof -
  obtain u where u: "sup_of s t = Some u" using step by (auto simp: sup_step_def split: option.splits)
  note fr = sup_step_frame [OF step u, unfolded sup_frame_def]
  have chan: "has_channel s t u" using lone_sup [OF inv u] by simp
  have "\<exists>p. row s i = Some p \<and> (p_cmd_tx p' = p_cmd_tx p
      \<or> (\<forall>t u. p_cmd_tx p = Some t \<longrightarrow> sup_of s' t = Some u \<longrightarrow> retired u \<or> u_pm u \<noteq> i))"
    if p': "row s' i = Some p'" for i p'
  proof (cases "i = u_pm u")
    case True
    with p' have "row s' (u_pm u) = Some p'" by simp
    then obtain p where p: "row s (u_pm u) = Some p"
        "p_cmd_tx p' = p_cmd_tx p \<or> (p_cmd_tx p = Some t \<and> (\<forall>u'. sup_of s' t = Some u' \<longrightarrow> retired u'))"
      using sup_step_loose_row [OF step u _ chan] by blast
    then have "p_cmd_tx p' = p_cmd_tx p \<or> (\<forall>t u. p_cmd_tx p = Some t \<longrightarrow> sup_of s' t = Some u \<longrightarrow> retired u \<or> u_pm u \<noteq> i)"
      by (metis option.inject)
    with p(1) True show ?thesis by blast
  next
    case False
    with fr p' show ?thesis by auto
  qed
  moreover have "\<exists>v. sup_of s t' = Some v \<and> u_pm v' = u_pm v \<and> (retired v \<longrightarrow> retired v')"
    if v': "sup_of s' t' = Some v'" for t' v'
  proof (cases "t' = t")
    case True
    with v' have "sup_of s' t = Some v'" by simp
    from sup_step_loose_sup [OF step u this] u True show ?thesis by blast
  next
    case False
    with fr v' show ?thesis by auto
  qed
  ultimately show ?thesis using fr by (simp add: sys_loose_def)
qed

section \<open>Operations\<close>

lemma send_loose: "send_step k cl c mk sent gone s = Some s' \<Longrightarrow> sys_loose s s'"
  by (auto simp: send_step_def send_cmd_def sys_loose_def sys_facts new_ack_def Let_def split: option.splits if_splits)

lemma call_step_loose:
  assumes "call_step h k s = Some s'" "call_of s k = Some cl"
    and "\<forall>kont. k_pc cl \<noteq> LN_spawn kont" "\<forall>app fixed i ids. k_pc cl \<noteq> SA_row app fixed i ids"
  shows "sys_loose s s'"
proof (cases "k_pc cl")
  case (ST_send c)
  with assms show ?thesis by (auto simp: call_step_def intro: send_loose)
next
  case (RS_send c)
  with assms show ?thesis by (auto simp: call_step_def intro: send_loose)
next
  case (DL_send c nm)
  with assms show ?thesis by (auto simp: call_step_def intro: send_loose)
next
  case (SA_register app fixed i ids pm)
  have same: "map_option p_cmd_tx (hm_get (procs (c_table (health_register pm m (cron_register h pm n c)))) j)
      = map_option p_cmd_tx (hm_get (procs (c_table c)) j)" for m n c j
    by (simp only: cron_register_facts health_register_facts)
  have "\<exists>q. hm_get (procs (c_table c)) j = Some q \<and> p_cmd_tx p' = p_cmd_tx q"
    if "hm_get (procs (c_table (health_register pm m (cron_register h pm n c)))) j = Some p'" for m n c j p'
    using same [of m n c j] that by (cases "hm_get (procs (c_table c)) j") auto
  with SA_register assms show ?thesis
    by (fastforce simp: call_step_def sa_register_def sys_loose_def sys_facts Let_def
        simp del: cron_register_row health_register_row split: if_splits)
qed (use assms in \<open>auto simp: call_step_def call_ops dl_lock_def dl_wait_def dl_remove_def dl_unwatch_def
      sys_loose_def sys_facts normalize_def reset_state_def Let_def
      split: option.splits if_splits ack.splits launch_cont.splits sum.splits\<close>)

lemma lone_launch:
  assumes inv: "lone s" and p: "row s i = Some p" "p_cmd_tx p = None"
    and rows: "\<And>j. row s' j = (if j = i then Some (p\<lparr>p_cmd_tx := Some t, p_status := st\<rparr>) else row s j)"
    and sups: "y_sups s' = hm_put t u (y_sups s)" and u: "u_pm u = i"
    and fresh: "y_next s \<le> t" "t < y_next s'"
  shows "lone s'"
proof -
  have no_old: "retired v" if "sup_of s t' = Some v" "u_pm v = i" for t' v
    using lone_sup(2) [OF inv that(1)] that(2) p by (auto simp: has_channel_def)
  have old: "t' < y_next s \<and> has_channel s' t' v" if v: "sup_of s t' = Some v" for t' v
  proof -
    have "has_channel s' t' v"
      using lone_sup(2) [OF inv v] no_old [OF v] by (cases "u_pm v = i") (auto simp: has_channel_def rows)
    with lone_sup [OF inv v] show ?thesis by blast
  qed
  have "has_channel s' t u" using u by (auto simp: has_channel_def rows)
  then have sup: "t' < y_next s' \<and> has_channel s' t' v" if "sup_of s' t' = Some v" for t' v
    using that old [of t' v] fresh by (cases "t' = t") (auto simp: sups)
  have unique: "t2 = t1" if two: "sup_of s' t1 = Some u1" "sup_of s' t2 = Some u2" "\<not> retired u1" "\<not> retired u2" "u_pm u2 = u_pm u1"
    for t1 u1 t2 u2
  proof (rule ccontr)
    assume ne: "t2 \<noteq> t1"
    have at: "u_pm v = i" if "sup_of s' t = Some v" for v using that u by (simp add: sups)
    have before: "sup_of s t' = Some v" if "sup_of s' t' = Some v" "t' \<noteq> t" for t' v using that by (simp add: sups)
    consider "t1 = t" "t2 \<noteq> t" | "t1 \<noteq> t" "t2 = t" | "t1 \<noteq> t" "t2 \<noteq> t" using ne by blast
    then show False
    proof cases
      case 1
      with two at have "u_pm u2 = i" by simp
      with no_old [OF before [OF two(2) 1(2)]] two(4) show False by simp
    next
      case 2
      with two at have "u_pm u1 = i" by simp
      with no_old [OF before [OF two(1) 2(1)]] two(3) show False by simp
    next
      case 3
      with lone_unique [OF inv before [OF two(1)] before [OF two(2)]] two(3-5) ne show False by blast
    qed
  qed
  from sup unique show ?thesis unfolding lone_def by blast
qed

text \<open>A row that is inserted where no supervisor is at work; it may even replace one.\<close>

lemma lone_new_row:
  assumes inv: "lone s" and apart: "\<And>t u. sup_of s t = Some u \<Longrightarrow> u_pm u = pm \<Longrightarrow> retired u"
    and rows: "\<And>j. j \<noteq> pm \<Longrightarrow> row s' j = row s j" and same: "y_sups s' = y_sups s" "y_next s' = y_next s"
  shows "lone s'"
proof -
  have "has_channel s' t u" if "sup_of s t = Some u" for t u
    using lone_sup(2) [OF inv that] apart [OF that] rows [of "u_pm u"]
    by (cases "u_pm u = pm") (simp_all add: has_channel_def)
  with inv same show ?thesis unfolding lone_def by auto
qed

lemma sa_row_takes:
  assumes "s' = sa_row h k cl app fixed n ids s"
  shows "case takes_id (c_table (y_ctx s)) (SA_row app fixed n ids) of
      None \<Rightarrow> sys_loose s s'
    | Some pm \<Rightarrow> (\<forall>j. j \<noteq> pm \<longrightarrow> row s' j = row s j) \<and> y_sups s' = y_sups s \<and> y_next s' = y_next s"
proof (cases fixed)
  case None
  obtain pm t' where al: "alloc_id (c_table (y_ctx s)) = (pm, t')" by (cases "alloc_id (c_table (y_ctx s))")
  then have "procs t' = procs (c_table (y_ctx s))" using procs_alloc_id [of "c_table (y_ctx s)"] by simp
  with None al show ?thesis by (auto simp: assms sa_row_def insert_row_def sys_loose_def sys_facts Let_def)
next
  case (Some f)
  then show ?thesis
    by (cases f) (auto simp: assms sa_row_def insert_row_def sys_loose_def sys_facts Let_def)
qed

lemma lone_call_step:
  assumes inv: "lone s" and room: "ids_apart s" and step: "call_step h k s = Some s'"
  shows "lone s'"
proof -
  obtain cl where cl: "call_of s k = Some cl" using step by (auto simp: call_step_def split: option.splits)
  consider (spawn) kont where "k_pc cl = LN_spawn kont" | (row) app fixed n ids where "k_pc cl = SA_row app fixed n ids"
    | (loose) "\<forall>kont. k_pc cl \<noteq> LN_spawn kont" "\<forall>app fixed n ids. k_pc cl \<noteq> SA_row app fixed n ids" by blast
  then show ?thesis
  proof cases
    case loose
    with inv call_step_loose [OF step cl] show ?thesis by (blast intro: lone_loose)
  next
    case (spawn kont)
    then have s': "s' = call_goto k cl (LN_wait (y_next s) kont) (spawn_sup (k_pm cl) (y_next s) (snd (new_ack s)))"
      using step cl by (simp add: call_step_def ln_spawn_def new_ack_def)
    show ?thesis
    proof (cases "\<exists>p. row s (k_pm cl) = Some p \<and> p_cmd_tx p = None")
      case True
      then obtain p where p: "row s (k_pm cl) = Some p" "p_cmd_tx p = None" by blast
      then show ?thesis
        by (intro lone_launch [OF inv p, where t = "Suc (y_next s)" and st = Launching
              and u = "\<lparr>u_pm = k_pm cl, u_pc = U_top, u_queue = [], u_first = Some (y_next s), u_child = None\<rparr>"])
          (auto simp: s' spawn_sup_def sys_facts Let_def on_ctx_def)
    next
      case False
      then have "sys_loose s s'"
        by (auto simp: s' spawn_sup_def sys_loose_def sys_facts split: option.split)
      with inv show ?thesis by (blast intro: lone_loose)
    qed
  next
    case (row app fixed n ids)
    then have "s' = sa_row h k cl app fixed n ids s" using step cl by (simp add: call_step_def)
    note takes = sa_row_takes [OF this]
    show ?thesis
    proof (cases "takes_id (c_table (y_ctx s)) (SA_row app fixed n ids)")
      case None
      with takes inv show ?thesis by (auto intro: lone_loose)
    next
      case (Some pm)
      have "retired u" if "sup_of s t = Some u" "u_pm u = pm" for t u
        using ids_apartD [OF room cl _ that(1)] Some row that(2) by simp
      with takes Some inv show ?thesis by (auto intro: lone_new_row)
    qed
  qed
qed

text \<open>The other steps are loose.\<close>

lemma other_steps_loose:
  assumes step: "dstep h ok s s'" and sup: "\<And>t ch. sup_step h t ch s = Some s' \<Longrightarrow> sys_loose s s'"
    and call: "\<And>k. call_step h k s = Some s' \<Longrightarrow> thesis" and loose: "sys_loose s s' \<Longrightarrow> thesis"
  shows thesis
  using step
proof cases
  case (sup_moves t ch)
  then show ?thesis by (intro loose sup)
next
  case (call_moves k)
  then show ?thesis by (rule call)
next
  case (child_exits t u ch code)
  then show ?thesis by (intro loose) (auto simp: sys_loose_def sys_facts)
next
  case (chore_moves c)
  note same = run_chore_frame(2-) [OF chore_moves]
  have kept: "rel_option row_kept (row s i) (row s' i)" for i
    using run_chore_frame(1) [OF chore_moves] by (simp add: table_kept_def)
  have "\<exists>p. row s i = Some p \<and> p_cmd_tx p' = p_cmd_tx p" if "row s' i = Some p'" for i p'
    using kept [of i] that by (auto simp: option_rel_Some2 row_kept_def)
  then show ?thesis
    using run_chore_frame(1) [OF chore_moves]
    by (intro loose) (unfold sys_loose_def, fastforce simp: same table_kept_def)
next
  case (clock_moves n)
  then show ?thesis by (intro loose) (auto simp: sys_loose_def)
next
  case (outside_moves o')
  then show ?thesis
    by (intro loose; cases o') (auto simp: sys_loose_def new_call_def set_call_def sys_facts publish_def split: prod.split)
qed

lemma lone_dstep:
  assumes inv: "lone s" and room: "ids_apart s" and step: "dstep h ok s s'"
  shows "lone s'"
proof (rule other_steps_loose [OF step])
  show "sys_loose s s'" if "sup_step h t ch s = Some s'" for t ch using sup_step_loose [OF inv that] by simp
qed (use inv room in \<open>blast intro: lone_call_step lone_loose\<close>)+

interpretation lone_inv: run_invariant ok ids_apart lone for ok
  by unfold_locales (auto intro: lone_init lone_dstep reach_room ids_apart_init)

section \<open>Ids the daemon chooses itself\<close>

text \<open>\<open>resurrect\<close> and \<open>scale\<close> choose the ids of their processes.\<close>

fun own_ids :: "outside \<Rightarrow> bool" where
  "own_ids (OReq (RqStart app (Some f))) = False"
| "own_ids o' = True"

definition never_emptied :: "sys \<Rightarrow> bool" where
  "never_emptied s =
     (id_room s \<and> (hm_rows (procs (c_table (y_ctx s))) = [] \<longrightarrow> next_id (c_table (y_ctx s)) = 0))"

lemma never_emptied_init: "never_emptied sys_init"
  unfolding never_emptied_def by (simp add: id_room_init) (simp add: sys_init_def ctx_default_def table_default_def)

fun cont_own :: "launch_cont \<Rightarrow> bool" where
  "cont_own KReturn = True"
| "cont_own (KStart app fixed i ids pm) = (fixed = None)"

fun call_own :: "call_pc \<Rightarrow> bool" where
  "call_own (LN_shut k) = cont_own k"
| "call_own (LN_check k) = cont_own k"
| "call_own (LN_spawn k) = cont_own k"
| "call_own (LN_wait a k) = cont_own k"
| "call_own (LN_watch k) = cont_own k"
| "call_own (LN_arm k) = cont_own k"
| "call_own (SA_begin app fixed) = (fixed = None)"
| "call_own (SA_clash app fixed) = (fixed = None)"
| "call_own (SA_row app fixed i ids) = (fixed = None)"
| "call_own (SA_register app fixed i ids pm) = (fixed = None)"
| "call_own (SA_publish app fixed i ids pm) = (fixed = None)"
| "call_own _ = True"

text \<open>Ids of supervisors and rows are below the counter.\<close>

definition numbered :: "sys \<Rightarrow> bool" where
  "numbered s =
     ((\<forall>t u. sup_of s t = Some u \<longrightarrow> u_pm u < next_id (c_table (y_ctx s)))
      \<and> ids_below (c_table (y_ctx s))
      \<and> (\<forall>k cl. call_of s k = Some cl \<longrightarrow> call_own (k_pc cl)))"

lemma numbered_init: "numbered sys_init"
  by (simp add: numbered_def sys_init_def ctx_default_def table_default_def ids_below_def)

lemma numbered_loose:
  assumes inv: "numbered s" and loose: "sys_loose s s'"
    and calls: "\<And>k cl. call_of s' k = Some cl \<Longrightarrow> call_own (k_pc cl)"
  shows "numbered s'"
proof -
  have rows: "row s i \<noteq> None" if "row s' i \<noteq> None" for i using looseD(1) [OF loose] that by blast
  have "ids_below (c_table (y_ctx s))" using inv by (simp add: numbered_def)
  then have "ids_below (c_table (y_ctx s'))" using rows looseD(4) [OF loose] by (rule ids_below_cong)
  moreover have "u_pm u < next_id (c_table (y_ctx s'))" if "sup_of s' t = Some u" for t u
    using looseD(2) [OF loose that] looseD(4) [OF loose] inv by (auto simp: numbered_def)
  ultimately show ?thesis using calls unfolding numbered_def by blast
qed

lemma call_step_own:
  assumes "call_step h k s = Some s'" "call_of s k = Some cl" "call_own (k_pc cl)"
  shows "\<exists>cl'. y_calls s' = hm_put k cl' (y_calls s) \<and> call_own (k_pc cl')"
  using assms
  by (cases "k_pc cl")
    (auto simp: call_step_def call_ops dl_lock_def dl_wait_def dl_remove_def dl_unwatch_def
      send_step_def send_cmd_def ln_spawn_def spawn_sup_def sa_row_def
      sys_facts new_ack_def Let_def
      split: option.splits if_splits ack.splits launch_cont.splits sum.splits prod.splits)

lemma alloc_never_emptied:
  assumes "never_emptied s" "alloc_id (c_table (y_ctx s)) = (pm, t')"
  shows "pm = next_id (c_table (y_ctx s))" "pm \<noteq> - 1" "next_id t' = pm + 1" "procs t' = procs (c_table (y_ctx s))"
  using assms by (auto simp: never_emptied_def id_room_def alloc_id_def Let_def split: if_splits)

lemma numbered_call_step:
  assumes inv: "numbered s" and room: "never_emptied s" and step: "call_step h k s = Some s'"
  shows "numbered s'"
proof -
  obtain cl where cl: "call_of s k = Some cl" using step by (auto simp: call_step_def split: option.splits)
  have own: "call_own (k_pc c)" if "call_of s k' = Some c" for k' c using inv that by (simp add: numbered_def)
  have calls: "call_own (k_pc c)" if "call_of s' k' = Some c" for k' c
    using call_step_own [OF step cl own [OF cl]] own that by (auto split: if_splits)
  have below: "ids_below (c_table (y_ctx s))" using inv by (simp add: numbered_def)
  consider (spawn) kont where "k_pc cl = LN_spawn kont" | (row) app fixed n ids where "k_pc cl = SA_row app fixed n ids"
    | (loose) "\<forall>kont. k_pc cl \<noteq> LN_spawn kont" "\<forall>app fixed n ids. k_pc cl \<noteq> SA_row app fixed n ids" by blast
  then show ?thesis
  proof cases
    case loose
    with inv call_step_loose [OF step cl] calls show ?thesis by (blast intro: numbered_loose)
  next
    case (spawn kont)
    then have s': "s' = call_goto k cl (LN_wait (y_next s) kont) (spawn_sup (k_pm cl) (y_next s) (snd (new_ack s)))"
      using step cl by (simp add: call_step_def ln_spawn_def new_ack_def)
    then have same: "next_id (c_table (y_ctx s')) = next_id (c_table (y_ctx s))"
      and rows: "row s' i \<noteq> None \<Longrightarrow> row s i \<noteq> None" for i
      by (auto simp: spawn_sup_def sys_facts Let_def split: option.splits if_splits)
    have "u_pm u < next_id (c_table (y_ctx s))" if "sup_of s' t = Some u" for t u
      using that inv below by (auto simp: s' numbered_def ids_below_def spawn_sup_def sys_facts Let_def
          split: option.splits if_splits)
    moreover have "ids_below (c_table (y_ctx s'))" using ids_below_cong [OF below rows same] .
    ultimately show ?thesis using calls same unfolding numbered_def by metis
  next
    case (row app fixed n ids)
    with own [OF cl] step cl have s': "s' = sa_row h k cl app None n ids s" by (auto simp: call_step_def)
    obtain pm t' where al: "alloc_id (c_table (y_ctx s)) = (pm, t')" by (cases "alloc_id (c_table (y_ctx s))")
    note id = alloc_never_emptied [OF room al]
    show ?thesis
    proof (cases "unat (ac_instances app) \<le> n")
      case True
      then have "sys_loose s s'" by (auto simp: s' sa_row_def sys_loose_def sys_facts)
      with inv calls show ?thesis by (blast intro: numbered_loose)
    next
      case False
      with al have new: "c_table (y_ctx s') = t'\<lparr>procs := hm_put pm (proc_new (h_env h) (y_now s) pm (of_nat n) app) (procs t')\<rparr>"
        "y_sups s' = y_sups s"
        by (simp_all add: s' sa_row_def insert_row_def sys_facts Let_def)
      have "u_pm u < pm + 1" if "sup_of s t = Some u" for t u
        using inv that id(1) u32_less_Suc [OF id(2)] by (auto simp: numbered_def dest: order.strict_trans)
      with calls new id(3) ids_below_alloc_insert [OF below al id(2)] show ?thesis
        unfolding numbered_def by simp
    qed
  qed
qed

lemma dstep_own:
  assumes step: "dstep h own_ids s s'" and own: "\<And>k cl. call_of s k = Some cl \<Longrightarrow> call_own (k_pc cl)"
    and cl: "call_of s' k = Some cl"
  shows "call_own (k_pc cl)"
  using step
proof cases
  case (sup_moves t ch)
  then obtain u where "sup_of s t = Some u" by (auto simp: sup_step_def split: option.splits)
  with sup_step_frame [OF sup_moves this] cl own show ?thesis by (simp add: sup_frame_def)
next
  case (call_moves k')
  then obtain c where c: "call_of s k' = Some c" by (auto simp: call_step_def split: option.splits)
  from call_step_own [OF call_moves c own [OF c]] cl own show ?thesis by (auto split: if_splits)
next
  case (child_exits t u ch code)
  with cl own show ?thesis by (auto simp: sys_facts)
next
  case (chore_moves c)
  with cl own show ?thesis by (simp add: run_chore_frame)
next
  case (clock_moves n)
  with cl own show ?thesis by simp
next
  case (outside_moves o')
  show ?thesis
  proof (cases o')
    case (OReq rq)
    have "call_own (snd (first_pc rq))"
      using outside_moves(2) unfolding OReq by (cases rq; cases "(case rq of RqStart app f \<Rightarrow> f | _ \<Rightarrow> None)") auto
    with OReq outside_moves cl own show ?thesis
      by (auto simp: new_call_def set_call_def split: if_splits prod.splits)
  qed (use outside_moves cl own in \<open>auto simp: sys_facts\<close>)
qed

lemma numbered_dstep:
  assumes inv: "numbered s" and lone: "lone s" and room: "never_emptied s" and step: "dstep h own_ids s s'"
  shows "numbered s'"
proof (rule other_steps_loose [OF step])
  show "sys_loose s s'" if "sup_step h t ch s = Some s'" for t ch using sup_step_loose [OF lone that] by simp
  have "call_own (k_pc cl)" if "call_of s' k = Some cl" for k cl
    using dstep_own [OF step _ that] inv unfolding numbered_def by blast
  then show "numbered s'" if "sys_loose s s'" using numbered_loose [OF inv that] by blast
qed (use inv room in \<open>blast intro: numbered_call_step\<close>)

lemma numbered_apart:
  assumes "numbered s" "never_emptied s"
  shows "ids_apart s"
proof -
  have "retired u"
    if that: "call_of s k = Some cl" "sup_of s t = Some u" "takes_id (c_table (y_ctx s)) (k_pc cl) = Some (u_pm u)" for k cl t u
  proof -
    have own: "call_own (k_pc cl)" and below: "u_pm u < next_id (c_table (y_ctx s))"
      using assms(1) that(1,2) by (auto simp: numbered_def)
    have "fst (alloc_id (c_table (y_ctx s))) = next_id (c_table (y_ctx s))"
      using alloc_never_emptied(1) [OF assms(2)] by (metis prod.collapse)
    with own below that(3) show ?thesis by (cases "k_pc cl") (auto split: if_splits)
  qed
  then show ?thesis unfolding ids_apart_iff by blast
qed

interpretation numbered_inv: run_invariant own_ids never_emptied "\<lambda>s. lone s \<and> numbered s"
proof (unfold_locales, goal_cases)
  case 1
  show ?case by (simp add: lone_init numbered_init)
next
  case (2 h s s')
  have room: "never_emptied s" using 2(1) never_emptied_init by (rule reach_room)
  with 2(2) have "ids_apart s" by (blast intro: numbered_apart)
  with 2(2,3) room show ?case by (blast intro: lone_dstep numbered_dstep)
qed

section \<open>Properties\<close>

text \<open>A child is owned by a supervisor that has not retired.\<close>

lemma child_owner_live:
  assumes "reach h ok room s" "sup_of s t = Some u" "u_child u \<noteq> None"
  shows "\<not> retired u"
proof -
  have "child_placed u" using stops_inv.upper.holds [OF assms(1)] assms(2) unfolding stops_owed_def by metis
  with assms(3) show ?thesis by (cases "u_pc u") (auto simp: child_placed_def)
qed

lemma lone_children:
  assumes "reach h ok room s" "lone s" "sup_of s t = Some u" "u_child u \<noteq> None"
    and "sup_of s t' = Some u'" "u_child u' \<noteq> None" "u_pm u' = u_pm u"
  shows "t' = t \<and> (\<forall>p. row s (u_pm u) = Some p \<longrightarrow> p_cmd_tx p = Some t)"
proof -
  note live = child_owner_live [OF assms(1,3,4)] child_owner_live [OF assms(1,5,6)]
  have "t' = t" using lone_unique [OF assms(2,3,5) live assms(7)] .
  moreover have "p_cmd_tx p = Some t" if "row s (u_pm u) = Some p" for p
    using lone_sup(2) [OF assms(2,3)] live that by (simp add: has_channel_def)
  ultimately show ?thesis by blast
qed

text \<open>C1: No process runs twice, whatever is requested: starts, stops, restarts, deletes, scaling, resurrection,
  shutdown, in any interleaving, as long as no start is about to insert a row under the id of a
  process whose supervisor is still at work.  Two supervisors with a child, running or not yet reaped,
  that serve the same id are the same one, and if the row still exists its channel leads to this supervisor.\<close>
theorem one_child_while_ids_apart:
  assumes "reach h ok ids_apart s" "sup_of s t = Some u" "u_child u \<noteq> None"
    and "sup_of s t' = Some u'" "u_child u' \<noteq> None" "u_pm u' = u_pm u"
  shows "t' = t \<and> (\<forall>p. row s (u_pm u) = Some p \<longrightarrow> p_cmd_tx p = Some t)"
  by (rule lone_children [OF assms(1) lone_inv.holds [OF assms(1)] assms(2-6)])

text \<open>In particular without any condition on ids when the daemon chooses them all and the table is not emptied.\<close>
theorem one_child_despite_deletions:
  assumes "reach h own_ids never_emptied s" "sup_of s t = Some u" "u_child u \<noteq> None"
    and "sup_of s t' = Some u'" "u_child u' \<noteq> None" "u_pm u' = u_pm u"
  shows "t' = t \<and> (\<forall>p. row s (u_pm u) = Some p \<longrightarrow> p_cmd_tx p = Some t)"
  using numbered_inv.holds [OF assms(1)] by (intro lone_children [OF assms(1) _ assms(2-6)]) simp

text \<open>Two applications that do not start by themselves.  A delete of the first finds no supervisor; before it
  removes the row, a restart starts one.\<close>

definition idle_app :: "string \<Rightarrow> app_config" where
  "idle_app script = (app_new script)\<lparr>ac_autostart := False\<rparr>"

definition overtaken :: "nat \<Rightarrow> move list" where
  "overtaken k = [MOut (OReq (RqDelete 0)), MCall k, MOut (OReq (RqRestart 0))] @ replicate 5 (MCall (k + 1))
     @ [MSup (k + 3) ChGo]"

definition two_rows :: "move list" where
  "two_rows =
     MOut (OReq (RqStart (idle_app ''/srv/a.sh'') None)) # replicate 6 (MCall 0)
     @ MOut (OReq (RqStart (idle_app ''/srv/b.sh'') None)) # replicate 6 (MCall 3)
     @ overtaken 6 @ [MSup 9 (ChSpawnOk 72), MCall 6]"

definition one_row :: "move list" where
  "one_row =
     MOut (OReq (RqStart (idle_app ''/srv/a.sh'') None)) # replicate 6 (MCall 0) @ overtaken 3 @ [MCall 3]
     @ MOut (OReq (RqStart (app_new ''/srv/a.sh'') None)) # replicate 7 (MCall 7)
     @ [MSup 11 ChGo, MSup 11 (ChSpawnOk 81), MSup 11 ChGo, MSup 6 (ChSpawnOk 72)]"

definition mix_up :: "move list" where
  "mix_up = [MSup 6 ChGo, MSup 6 ChGo, MSup 6 ChClosed]"

lemma one_child_despite_deletions_witness:
  "\<exists>s u. run_moves sample_host own_ids never_emptied two_rows sys_init = Some s \<and> row s 0 = None
    \<and> sup_of s 9 = Some u \<and> u_child u \<noteq> None
    \<and> (\<forall>t u'. sup_of s t = Some u' \<and> u_child u' \<noteq> None \<and> u_pm u' = u_pm u \<longrightarrow> t = 9)"
proof -
  have "case run_moves sample_host own_ids never_emptied two_rows sys_init of
      Some s \<Rightarrow> row s 0 = None \<and> sup_shows s 9 (\<lambda>u. u_child u \<noteq> None) | None \<Rightarrow> False" by code_simp
  then obtain s u where s: "run_moves sample_host own_ids never_emptied two_rows sys_init = Some s" "row s 0 = None"
      "sup_of s 9 = Some u" "u_child u \<noteq> None" by (auto elim: sup_showsE split: option.splits)
  from one_child_despite_deletions [OF run_reach [OF s(1)] s(3,4)] s show ?thesis by blast
qed

text \<open>The first process runs and is deleted; then it is restored under its old id, as \<open>resurrect\<close> does.\<close>

definition restored_rows :: "move list" where
  "restored_rows =
     start_moves @ replicate 4 (MCall 0) @ MOut (OReq (RqDelete 0)) # replicate 2 (MCall 5)
     @ [MSup 4 ChCmd, MSup 4 ChGo, MSup 4 ChGo, MExit 4 (Some 0), MSup 4 ChExit]
     @ replicate 3 (MSup 4 ChGo) @ [MCall 5]
     @ MOut (OReq (RqStart (app_new ''/srv/a.sh'') (Some (0, 0)))) # replicate 7 (MCall 7)
     @ [MSup 11 ChGo, MSup 11 (ChSpawnOk 81)]"

lemma one_child_while_ids_apart_witness:
  "\<exists>s u. run_moves sample_host (\<lambda>_. True) ids_apart restored_rows sys_init = Some s
    \<and> sup_of s 11 = Some u \<and> u_pm u = 0 \<and> u_child u \<noteq> None
    \<and> (\<forall>t u'. sup_of s t = Some u' \<and> u_child u' \<noteq> None \<and> u_pm u' = u_pm u \<longrightarrow> t = 11)"
proof -
  have "case run_moves sample_host (\<lambda>_. True) ids_apart restored_rows sys_init of
      Some s \<Rightarrow> sup_shows s 11 (\<lambda>u. u_pm u = 0 \<and> u_child u \<noteq> None) | None \<Rightarrow> False" by code_simp
  then obtain s u where s: "run_moves sample_host (\<lambda>_. True) ids_apart restored_rows sys_init = Some s"
      "sup_of s 11 = Some u" "u_pm u = 0" "u_child u \<noteq> None" by (auto elim: sup_showsE split: option.splits)
  from one_child_while_ids_apart [OF run_reach [OF s(1)] s(2,4)] s show ?thesis by blast
qed

text \<open>C22: When the table is emptied, \<open>alloc_id\<close> hands out id 0 again, and a process can run twice: a delete
  overtaken by a restart leaves a supervisor without a row, the next start gets the same id, and both
  have a running child.  The old one writes its pid into the new row and is then killed, so the
  row shows a process that is gone while the other runs.\<close>
theorem reused_id_mixes_up_processes:
  "\<exists>s s'. run_moves sample_host own_ids id_room one_row sys_init = Some s
    \<and> sup_shows s 6 (\<lambda>u. u_pm u = 0 \<and> u_child u = Some \<lparr>ch_pid = 72, ch_exit = None\<rparr>)
    \<and> sup_shows s 11 (\<lambda>u. u_pm u = 0 \<and> u_child u = Some \<lparr>ch_pid = 81, ch_exit = None\<rparr>)
    \<and> run_moves sample_host own_ids id_room mix_up s = Some s'
    \<and> row_shows s' 0 (\<lambda>p. p_status p = Online \<and> p_pid p = 72 \<and> p_cmd_tx p = Some 11)
    \<and> sup_of s' 6 = None
    \<and> sup_shows s' 11 (\<lambda>u. u_child u = Some \<lparr>ch_pid = 81, ch_exit = None\<rparr>)"
proof -
  have "case run_moves sample_host own_ids id_room one_row sys_init of None \<Rightarrow> False | Some s \<Rightarrow>
      sup_shows s 6 (\<lambda>u. u_pm u = 0 \<and> u_child u = Some \<lparr>ch_pid = 72, ch_exit = None\<rparr>)
      \<and> sup_shows s 11 (\<lambda>u. u_pm u = 0 \<and> u_child u = Some \<lparr>ch_pid = 81, ch_exit = None\<rparr>)
      \<and> (case run_moves sample_host own_ids id_room mix_up s of None \<Rightarrow> False | Some s' \<Rightarrow>
           row_shows s' 0 (\<lambda>p. p_status p = Online \<and> p_pid p = 72 \<and> p_cmd_tx p = Some 11)
           \<and> sup_of s' 6 = None
           \<and> sup_shows s' 11 (\<lambda>u. u_child u = Some \<lparr>ch_pid = 81, ch_exit = None\<rparr>))" by code_simp
  then show ?thesis by (simp split: option.splits)
qed

end
