(* ===== verification/Attended.thy ===== *)
theory Attended
  imports Deletion
begin

text \<open>
  Rows and pids in runs with deletions.  As long as no start takes the id of a process whose supervisor is
  still at work, a supervisor that has a row agrees with it, and a pid in a row is the pid of a child.
\<close>

section \<open>The invariant\<close>

definition served :: "sys \<Rightarrow> u32 \<Rightarrow> proc \<Rightarrow> bool" where
  "served s i p =
     (case p_cmd_tx p of
        None \<Rightarrow> at_rest p
      | Some t \<Rightarrow>
          (\<exists>u. sup_of s t = Some u \<and> u_pm u = i \<and> \<not> retired u) \<or> (sup_of s t = None \<and> t < y_next s \<and> p_pid p = 0))"

definition attended :: "sys \<Rightarrow> bool" where
  "attended s =
     ((\<forall>t u p. sup_of s t = Some u \<longrightarrow> \<not> retired u \<longrightarrow> row s (u_pm u) = Some p \<longrightarrow> agrees u p)
      \<and> (\<forall>i p. row s i = Some p \<longrightarrow> served s i p))"

lemma attendedD:
  assumes "attended s"
  shows "sup_of s t = Some u \<Longrightarrow> \<not> retired u \<Longrightarrow> row s (u_pm u) = Some p \<Longrightarrow> agrees u p"
    and "row s i = Some p \<Longrightarrow> served s i p"
  using assms unfolding attended_def by blast+

lemma attendedI:
  assumes "\<And>t u p. sup_of s t = Some u \<Longrightarrow> \<not> retired u \<Longrightarrow> row s (u_pm u) = Some p \<Longrightarrow> agrees u p"
    and "\<And>i p. row s i = Some p \<Longrightarrow> served s i p"
  shows "attended s"
  using assms unfolding attended_def by blast

lemma attended_init: "attended sys_init"
  by (simp add: attended_def sys_init_def ctx_default_def table_default_def)

lemma lone_row:
  assumes "lone s" "sup_of s t = Some u" "\<not> retired u" "row s (u_pm u) = Some p"
  shows "p_cmd_tx p = Some t"
  using lone_sup(2) [OF assms(1,2)] assms(3,4) by (simp add: has_channel_def)

section \<open>Steps of a supervisor\<close>

text \<open>What one step leaves of the row and its supervisor: nothing, both still in agreement, a row at rest, or, at a
  shutdown, a row whose supervisor returned.\<close>

definition after_step :: "nat \<Rightarrow> u32 \<Rightarrow> sys \<Rightarrow> bool" where
  "after_step t i s' =
     (case row s' i of
        None \<Rightarrow> True
      | Some p' \<Rightarrow>
          (case sup_of s' t of
             None \<Rightarrow> (p_cmd_tx p' = None \<and> at_rest p') \<or> (p_cmd_tx p' = Some t \<and> p_pid p' = 0)
           | Some u' \<Rightarrow> u_pm u' = i
               \<and> (if retired u' then p_cmd_tx p' = None \<and> at_rest p' else p_cmd_tx p' = Some t \<and> agrees u' p')))"

lemma after_stepD:
  assumes "after_step t i s'" "row s' i = Some p'"
  shows "(\<exists>u'. sup_of s' t = Some u' \<and> u_pm u' = i \<and> \<not> retired u' \<and> p_cmd_tx p' = Some t \<and> agrees u' p')
    \<or> (p_cmd_tx p' = None \<and> at_rest p' \<and> (\<forall>u'. sup_of s' t = Some u' \<longrightarrow> retired u'))
    \<or> (sup_of s' t = None \<and> p_cmd_tx p' = Some t \<and> p_pid p' = 0)"
  using assms by (cases "sup_of s' t") (auto simp: after_step_def split: if_splits)

lemmas local_step =
  sup_step_def after_step_def sup_ops sys_facts Let_def runs_as_def at_rest_def child_pid_def go_online_def
  restart_row_def reset_state_def auto_restart_row_def

lemma attended_local:
  assumes "sup_step h t ch s = Some s'" "sup_of s t = Some u" "\<not> retired u"
    and "row s (u_pm u) = Some p" "p_cmd_tx p = Some t" "agrees u p"
  shows "after_step t (u_pm u) s'"
proof (cases "u_pc u")
  case (U_killed l c)
  with assms channel_open_row [OF assms(4,5)] show ?thesis by (auto simp: local_step elim!: goE split: choice.splits sup_cmd.splits option.splits list.splits if_splits restart_decision.splits)
next
  case (U_delay_cmd l e c)
  with assms channel_open_row [OF assms(4,5)] show ?thesis by (auto simp: local_step elim!: goE split: choice.splits sup_cmd.splits option.splits list.splits if_splits restart_decision.splits)
next
  case (U_exit l e)
  with assms channel_open_row [OF assms(4,5)] show ?thesis by (auto simp: local_step elim!: goE split: choice.splits sup_cmd.splits option.splits list.splits if_splits restart_decision.splits)
next
  case (U_restart l e d un pv)
  with assms channel_open_row [OF assms(4,5)] show ?thesis by (auto simp: local_step elim!: goE split: choice.splits sup_cmd.splits option.splits list.splits if_splits restart_decision.splits)
next
  case (U_delay l e)
  with assms channel_open_row [OF assms(4,5)] show ?thesis by (auto simp: local_step elim!: goE split: choice.splits sup_cmd.splits option.splits list.splits if_splits restart_decision.splits)
next
  case (U_select l)
  with assms channel_open_row [OF assms(4,5)] show ?thesis by (auto simp: local_step elim!: goE split: choice.splits sup_cmd.splits option.splits list.splits if_splits restart_decision.splits)
next
  case (U_decide l e f)
  with assms channel_open_row [OF assms(4,5)] show ?thesis by (auto simp: local_step elim!: goE split: choice.splits sup_cmd.splits option.splits list.splits if_splits restart_decision.splits)
qed (use assms in \<open>auto simp: local_step elim!: goE split: choice.splits option.splits if_splits sum.splits\<close>)

lemma retired_step:
  assumes "sup_step h t ch s = Some s'" "sup_of s t = Some u" "retired u"
  shows "row s' i = row s i" and "sup_of s' t = Some u' \<Longrightarrow> retired u'"
  using assms
  by (cases "u_pc u"; auto simp: sup_step_def su_ack_def su_unwatch_def sys_facts elim!: goE)+

lemma attended_sup_step:
  assumes inv: "attended s" and lone: "lone s" and step: "sup_step h t ch s = Some s'"
  shows "attended s'"
proof -
  obtain u where u: "sup_of s t = Some u" using step by (auto simp: sup_step_def split: option.splits)
  let ?i = "u_pm u"
  have fr: "\<And>j. j \<noteq> ?i \<Longrightarrow> row s' j = row s j" "\<And>t'. t' \<noteq> t \<Longrightarrow> sup_of s' t' = sup_of s t'" "y_next s' = y_next s"
    using sup_step_frame [OF step u] by (auto simp: sup_frame_def)
  note kin = sup_step_loose_sup [OF step u]
  have tn: "t < y_next s" using lone_sup [OF lone u] by simp
  show ?thesis
  proof (cases "retired u")
    case True
    note same = retired_step [OF step u True]
    show ?thesis
    proof (rule attendedI)
      fix t' v p assume v: "sup_of s' t' = Some v" "\<not> retired v" "row s' (u_pm v) = Some p"
      then have "t' \<noteq> t" using same(2) by blast
      with v same(1) fr(2) attendedD(1) [OF inv] show "agrees v p" by simp
    next
      fix i p assume "row s' i = Some p"
      then have "served s i p" using same(1) attendedD(2) [OF inv] by simp
      moreover have "t' = t \<Longrightarrow> \<not> (\<exists>v. sup_of s t' = Some v \<and> u_pm v = i \<and> \<not> retired v)" "sup_of s t' = None \<Longrightarrow> t' \<noteq> t" for t'
        using True u by auto
      ultimately show "served s' i p"
        using fr(2,3) unfolding served_def by (cases "p_cmd_tx p") (simp_all, metis)
    qed
  next
    case False
    have other: "p_cmd_tx p = Some t" if "row s ?i = Some p" for p using lone_row [OF lone u False that] .
    have here: "(\<exists>u'. sup_of s' t = Some u' \<and> u_pm u' = ?i \<and> \<not> retired u' \<and> p_cmd_tx p' = Some t \<and> agrees u' p')
        \<or> (p_cmd_tx p' = None \<and> at_rest p' \<and> (\<forall>u'. sup_of s' t = Some u' \<longrightarrow> retired u'))
        \<or> (sup_of s' t = None \<and> p_cmd_tx p' = Some t \<and> p_pid p' = 0)" if p': "row s' ?i = Some p'" for p'
    proof -
      obtain p where p: "row s ?i = Some p" using sup_step_loose_row [OF step u p'] lone_sup(2) [OF lone u] by blast
      from after_stepD [OF attended_local [OF step u False p other [OF p] attendedD(1) [OF inv u False p]] p'] show ?thesis .
    qed
    show ?thesis
    proof (rule attendedI)
      fix t' v p assume v: "sup_of s' t' = Some v" "\<not> retired v" "row s' (u_pm v) = Some p"
      show "agrees v p"
      proof (cases "t' = t")
        case True
        with v(1) have at_t: "sup_of s' t = Some v" by simp
        with v(3) kin have "row s' ?i = Some p" by metis
        from here [OF this] at_t v(2) show ?thesis by (elim disjE exE conjE) simp_all
      next
        case False
        then have old: "sup_of s t' = Some v" using v(1) fr(2) by simp
        have "u_pm v \<noteq> ?i"
        proof
          assume "u_pm v = ?i"
          with lone_unique [OF lone u old \<open>\<not> retired u\<close> v(2)] False show False by simp
        qed
        with v old fr(1) attendedD(1) [OF inv old v(2)] show ?thesis by simp
      qed
    next
      fix i p assume p: "row s' i = Some p"
      show "served s' i p"
      proof (cases "i = ?i")
        case True
        with p have "row s' ?i = Some p" by simp
        with here [OF this] True tn fr(3) show ?thesis by (auto simp: served_def)
      next
        case i: False
        then have old: "row s i = Some p" using p fr(1) by simp
        have "p_cmd_tx p \<noteq> Some t"
        proof
          assume "p_cmd_tx p = Some t"
          with attendedD(2) [OF inv old] u i show False by (auto simp: served_def)
        qed
        with attendedD(2) [OF inv old] fr(2,3) show ?thesis by (auto simp: served_def split: option.splits)
      qed
    qed
  qed
qed

section \<open>Everything else\<close>

text \<open>Rows keep their channels and pids or go; supervisors keep their state and children.\<close>

definition sup_calm :: "sup \<Rightarrow> sup \<Rightarrow> bool" where
  "sup_calm u u' =
     (u_pm u' = u_pm u \<and> u_pc u' = u_pc u \<and> map_option ch_pid (u_child u') = map_option ch_pid (u_child u))"

definition sys_calm :: "sys \<Rightarrow> sys \<Rightarrow> bool" where
  "sys_calm s s' =
     ((\<forall>i. row s' i = None \<or> rel_option row_mild (row s i) (row s' i))
      \<and> (\<forall>t. rel_option sup_calm (sup_of s t) (sup_of s' t)) \<and> y_next s \<le> y_next s')"

lemma sup_calm_refl [simp]: "sup_calm u u"
  by (simp add: sup_calm_def)

lemma rel_sup_calm_refl [simp]: "rel_option sup_calm x x"
  by (cases x) simp_all

lemma agrees_calm:
  assumes "sup_calm u u'" "row_mild p p'"
  shows "agrees u p \<Longrightarrow> agrees u' p'"
  using assms
  by (cases "u_pc u"; cases "u_child u"; cases "u_child u'")
    (auto simp: sup_calm_def row_mild_def runs_as_def at_rest_def child_pid_def)

lemma attended_calm:
  assumes inv: "attended s" and calm: "sys_calm s s'"
  shows "attended s'"
proof -
  have rows: "\<exists>p. row s i = Some p \<and> row_mild p p'" if "row s' i = Some p'" for i p'
    using calm that unfolding sys_calm_def by (metis option.distinct(1) option_rel_Some2)
  have sups: "rel_option sup_calm (sup_of s t) (sup_of s' t)" for t using calm by (simp add: sys_calm_def)
  have nx: "y_next s \<le> y_next s'" using calm by (simp add: sys_calm_def)
  show ?thesis
  proof (rule attendedI)
    fix t u' p' assume u': "sup_of s' t = Some u'" "\<not> retired u'" "row s' (u_pm u') = Some p'"
    obtain u where u: "sup_of s t = Some u" "sup_calm u u'" using sups [of t] u'(1) by (auto simp: option_rel_Some2)
    obtain p where p: "row s (u_pm u') = Some p" "row_mild p p'" using rows [OF u'(3)] by blast
    have "agrees u p" using u u'(2) p(1) by (intro attendedD(1) [OF inv u(1)]) (simp_all add: sup_calm_def)
    with u(2) p(2) show "agrees u' p'" by (rule agrees_calm)
  next
    fix i p' assume "row s' i = Some p'"
    then obtain p where p: "row s i = Some p" "row_mild p p'" using rows by blast
    note old = attendedD(2) [OF inv p(1)]
    show "served s' i p'"
    proof (cases "p_cmd_tx p")
      case None
      with old p(2) show ?thesis by (auto simp: served_def row_mild_def at_rest_def)
    next
      case tx: (Some t)
      show ?thesis
      proof (cases "sup_of s t")
        case (Some u)
        then obtain u' where "sup_of s' t = Some u'" "sup_calm u u'" using sups [of t] by (auto simp: option_rel_Some1)
        with Some old p(2) tx show ?thesis by (auto simp: served_def row_mild_def sup_calm_def)
      next
        case None
        then have "sup_of s' t = None" using sups [of t] by (cases "sup_of s' t") auto
        with None old p(2) tx nx show ?thesis by (auto simp: served_def row_mild_def)
      qed
    qed
  qed
qed

lemma send_calm: "send_step k cl c mk sent gone s = Some s' \<Longrightarrow> sys_calm s s'"
  by (auto simp: send_step_def send_cmd_def sys_calm_def sys_facts new_ack_def Let_def sup_calm_def
      split: option.splits if_splits)

lemma call_step_calm:
  assumes "call_step h k s = Some s'" "call_of s k = Some cl"
    and "\<forall>kont. k_pc cl \<noteq> LN_spawn kont" "\<forall>app fixed i ids. k_pc cl \<noteq> SA_row app fixed i ids"
  shows "sys_calm s s'"
proof (cases "k_pc cl")
  case (ST_send c)
  with assms show ?thesis by (auto simp: call_step_def intro: send_calm)
next
  case (RS_send c)
  with assms show ?thesis by (auto simp: call_step_def intro: send_calm)
next
  case (DL_send c nm)
  with assms show ?thesis by (auto simp: call_step_def intro: send_calm)
qed (use assms in \<open>auto simp: call_step_def call_ops dl_lock_def dl_wait_def dl_remove_def dl_unwatch_def
      sys_calm_def sys_facts normalize_def reset_state_def row_mild_def Let_def intro!: rel_row_map2 rel_row_map
      split: option.splits if_splits ack.splits launch_cont.splits sum.splits\<close>)

text \<open>A launch: the row is at rest and nobody is at work for it.\<close>

lemma attended_launch:
  assumes inv: "attended s" and lone: "lone s" and p: "row s i = Some p" "p_cmd_tx p = None"
    and rows: "\<And>j. row s' j = (if j = i then Some (p\<lparr>p_cmd_tx := Some t, p_status := st\<rparr>) else row s j)"
    and sups: "y_sups s' = hm_put t u (y_sups s)" and u: "u_pm u = i" "u_pc u = U_top" "u_child u = None"
    and fresh: "y_next s \<le> t" "t < y_next s'"
  shows "attended s'"
proof (rule attendedI)
  have rest: "at_rest p" using attendedD(2) [OF inv p(1)] p(2) by (simp add: served_def)
  show "agrees v q" if v: "sup_of s' t' = Some v" "\<not> retired v" "row s' (u_pm v) = Some q" for t' v q
  proof (cases "t' = t")
    case True
    with v u rows sups rest show ?thesis by (auto simp: at_rest_def)
  next
    case False
    then have old: "sup_of s t' = Some v" using v(1) sups by simp
    have "u_pm v \<noteq> i"
    proof
      assume "u_pm v = i"
      with lone_row [OF lone old v(2)] p show False by simp
    qed
    with v(3) rows attendedD(1) [OF inv old v(2)] show ?thesis by simp
  qed
  show "served s' j q" if q: "row s' j = Some q" for j q
  proof (cases "j = i")
    case True
    with q rows sups u show ?thesis by (auto simp: served_def)
  next
    case False
    then have "row s j = Some q" using q rows by simp
    note old = attendedD(2) [OF inv this]
    have "sup_of s' t' = sup_of s t'" if "t' < y_next s" for t' using that sups fresh(1) by auto
    moreover have "t' < y_next s" if "sup_of s t' = Some v" for t' v using lone_sup [OF lone that] by simp
    ultimately show ?thesis using old fresh by (auto simp: served_def split: option.splits)
  qed
qed

text \<open>A new row is at rest, and nobody is at work for its id.\<close>

lemma attended_new_row:
  assumes inv: "attended s" and apart: "\<And>t u. sup_of s t = Some u \<Longrightarrow> u_pm u = pm \<Longrightarrow> retired u"
    and rows: "\<And>j. row s' j = (if j = pm then Some p else row s j)" and p: "p_cmd_tx p = None" "at_rest p"
    and same: "y_sups s' = y_sups s" "y_next s' = y_next s"
  shows "attended s'"
proof (rule attendedI)
  show "agrees u q" if "sup_of s' t = Some u" "\<not> retired u" "row s' (u_pm u) = Some q" for t u q
    using that apart attendedD(1) [OF inv, of t u q] same(1) rows by (cases "u_pm u = pm") auto
  show "served s' j q" if "row s' j = Some q" for j q
    using that attendedD(2) [OF inv, of j q] rows p same by (cases "j = pm") (auto simp: served_def split: option.splits)
qed

lemma sa_row_inserts:
  assumes "s' = sa_row h k cl app fixed n ids s" "takes_id (c_table (y_ctx s)) (SA_row app fixed n ids) = Some pm"
  shows "\<exists>inst. \<forall>j. row s' j = (if j = pm then Some (proc_new (h_env h) (y_now s) pm inst app) else row s j)"
proof (cases fixed)
  case None
  obtain pm' t' where al: "alloc_id (c_table (y_ctx s)) = (pm', t')" by (cases "alloc_id (c_table (y_ctx s))")
  then have "procs t' = procs (c_table (y_ctx s))" using procs_alloc_id [of "c_table (y_ctx s)"] by simp
  with None al assms(2) show ?thesis by (auto simp: assms(1) sa_row_def insert_row_def sys_facts Let_def split: if_splits)
next
  case (Some f)
  with assms(2) show ?thesis
    by (cases f) (auto simp: assms(1) sa_row_def insert_row_def sys_facts Let_def split: if_splits)
qed

lemma attended_call_step:
  assumes inv: "attended s" and lone: "lone s" and room: "ids_apart s" and step: "call_step h k s = Some s'"
  shows "attended s'"
proof -
  obtain cl where cl: "call_of s k = Some cl" using step by (auto simp: call_step_def split: option.splits)
  consider (spawn) kont where "k_pc cl = LN_spawn kont" | (row) app fixed n ids where "k_pc cl = SA_row app fixed n ids"
    | (calm) "\<forall>kont. k_pc cl \<noteq> LN_spawn kont" "\<forall>app fixed n ids. k_pc cl \<noteq> SA_row app fixed n ids" by blast
  then show ?thesis
  proof cases
    case calm
    from attended_calm [OF inv call_step_calm [OF step cl calm]] show ?thesis .
  next
    case (spawn kont)
    then have s': "s' = call_goto k cl (LN_wait (y_next s) kont) (spawn_sup (k_pm cl) (y_next s) (snd (new_ack s)))"
      using step cl by (simp add: call_step_def ln_spawn_def new_ack_def)
    show ?thesis
    proof (cases "\<exists>p. row s (k_pm cl) = Some p \<and> p_cmd_tx p = None")
      case True
      then obtain p where p: "row s (k_pm cl) = Some p" "p_cmd_tx p = None" by blast
      then show ?thesis
        by (intro attended_launch [OF inv lone p, where t = "Suc (y_next s)" and st = Launching
              and u = "\<lparr>u_pm = k_pm cl, u_pc = U_top, u_queue = [], u_first = Some (y_next s), u_child = None\<rparr>"])
          (auto simp: s' spawn_sup_def sys_facts Let_def on_ctx_def)
    next
      case False
      then have "sys_calm s s'"
        by (auto simp: s' spawn_sup_def sys_calm_def sys_facts split: option.split)
      with inv show ?thesis by (rule attended_calm)
    qed
  next
    case (row app fixed n ids)
    then have s': "s' = sa_row h k cl app fixed n ids s" using step cl by (simp add: call_step_def)
    show ?thesis
    proof (cases "takes_id (c_table (y_ctx s)) (SA_row app fixed n ids)")
      case None
      have "sys_calm s s'"
      proof (cases fixed)
        case None
        obtain pm t' where al: "alloc_id (c_table (y_ctx s)) = (pm, t')" by (cases "alloc_id (c_table (y_ctx s))")
        with None \<open>takes_id _ _ = None\<close> show ?thesis by (auto simp: s' sa_row_def sys_calm_def sys_facts Let_def split: if_splits)
      next
        case (Some f)
        with \<open>takes_id _ _ = None\<close> show ?thesis
          by (cases f) (auto simp: s' sa_row_def sys_calm_def sys_facts Let_def split: if_splits)
      qed
      with inv show ?thesis by (rule attended_calm)
    next
      case (Some pm)
      obtain inst where rows: "\<And>j. row s' j = (if j = pm then Some (proc_new (h_env h) (y_now s) pm inst app) else row s j)"
        using sa_row_inserts [OF s' Some] by blast
      have apart: "retired u" if "sup_of s t = Some u" "u_pm u = pm" for t u
        using ids_apartD [OF room cl _ that(1)] Some row that(2) by simp
      have same: "y_sups s' = y_sups s" "y_next s' = y_next s" using sa_row_takes [OF s'] Some by simp_all
      have "p_cmd_tx (proc_new (h_env h) (y_now s) pm inst app) = None" "at_rest (proc_new (h_env h) (y_now s) pm inst app)"
        by (simp_all add: proc_new_def at_rest_def Let_def)
      from attended_new_row [OF inv apart rows this same] show ?thesis .
    qed
  qed
qed

lemma attended_dstep:
  assumes inv: "attended s" and lone: "lone s" and room: "ids_apart s" and step: "dstep h ok s s'"
  shows "attended s'"
  using step
proof cases
  case (sup_moves t ch)
  with inv lone show ?thesis by (rule attended_sup_step)
next
  case (call_moves k)
  with inv lone room show ?thesis by (rule attended_call_step)
next
  case (child_exits t u ch code)
  then show ?thesis by (intro attended_calm [OF inv]) (auto simp: sys_calm_def sup_calm_def sys_facts)
next
  case (chore_moves c)
  have "rel_option row_mild (row s i) (row s' i)" for i
  proof -
    have "rel_option row_kept (row s i) (row s' i)"
      using run_chore_frame(1) [OF chore_moves] by (simp add: table_kept_def)
    then show ?thesis by (rule option.rel_mono_strong) (rule row_kept_mild)
  qed
  then show ?thesis by (intro attended_calm [OF inv]) (simp add: sys_calm_def run_chore_frame [OF chore_moves])
next
  case (clock_moves n)
  then show ?thesis by (intro attended_calm [OF inv]) (simp add: sys_calm_def)
next
  case (outside_moves o')
  then show ?thesis
    by (intro attended_calm [OF inv]; cases o')
      (auto simp: sys_calm_def new_call_def set_call_def sys_facts publish_def split: prod.split)
qed

interpretation attended_inv: layered_invariant ok ids_apart lone attended for ok
proof (unfold_locales, goal_cases)
  case (2 h s s')
  from 2(1) ids_apart_init have "ids_apart s" by (rule reach_room)
  with 2 show ?case by (blast intro: attended_dstep)
qed (rule attended_init)

section \<open>Properties\<close>

text \<open>C5: A pid in the table is never stale, whatever is requested, as long as no start takes the id of a process whose
  supervisor is still at work: it is the pid of the child the row's supervisor owns, or that child has been
  reaped and the supervisor is about to clear the pid.\<close>
theorem pid_is_the_childs:
  assumes "reach h ok ids_apart s" "row s i = Some p" "p_pid p \<noteq> 0"
  shows "\<exists>t u. p_cmd_tx p = Some t \<and> sup_of s t = Some u \<and> u_pm u = i
    \<and> (map_option ch_pid (u_child u) = Some (p_pid p)
       \<or> (u_child u = None \<and> ((\<exists>l e. u_pc u = U_exit l e) \<or> (\<exists>l c. u_pc u = U_killed l c))))"
proof -
  note inv = attended_inv.upper.holds [OF assms(1)]
  have served: "served s i p" using attendedD(2) [OF inv assms(2)] .
  with assms(3) obtain t where t: "p_cmd_tx p = Some t"
    by (cases "p_cmd_tx p") (auto simp: served_def at_rest_def)
  with served assms(3) obtain u where u: "sup_of s t = Some u" "u_pm u = i" "\<not> retired u" by (auto simp: served_def)
  have "agrees u p" using attendedD(1) [OF inv u(1,3)] u(2) assms(2) by simp
  with assms(3) have "map_option ch_pid (u_child u) = Some (p_pid p)
      \<or> (u_child u = None \<and> ((\<exists>l e. u_pc u = U_exit l e) \<or> (\<exists>l c. u_pc u = U_killed l c)))"
    by (cases "u_pc u") (auto simp: runs_as_def at_rest_def)
  with t u show ?thesis by blast
qed

lemma pid_is_the_childs_witness:
  "\<exists>s. run_moves sample_host (\<lambda>_. True) ids_apart (restored_rows @ [MSup 11 ChGo]) sys_init = Some s
    \<and> row_shows s 0 (\<lambda>p. p_pid p = 81 \<and> (\<exists>t u. p_cmd_tx p = Some t \<and> sup_of s t = Some u \<and> u_pm u = 0))"
proof -
  have "case run_moves sample_host (\<lambda>_. True) ids_apart (restored_rows @ [MSup 11 ChGo]) sys_init of
      Some s \<Rightarrow> row_shows s 0 (\<lambda>p. p_pid p = 81) | None \<Rightarrow> False" by code_simp
  then obtain s p where s: "run_moves sample_host (\<lambda>_. True) ids_apart (restored_rows @ [MSup 11 ChGo]) sys_init = Some s"
      "row s 0 = Some p" "p_pid p = 81" by (auto elim: row_showsE split: option.splits)
  from pid_is_the_childs [OF run_reach [OF s(1)] s(2)] s show ?thesis by (auto simp: row_shows_def)
qed

end
