(* ===== verification/Settling.thy ===== *)
theory Settling
  imports Stopping
begin

text \<open>
  \<open>stopping\<close> is not a state a process stays in by accident: in runs without deletions, a row
  shows it without a supervisor at work only while a stop that will correct it is under way.
\<close>

section \<open>Definitions\<close>

fun leaving_pc :: "sup_pc \<Rightarrow> bool" where
  "leaving_pc (U_spawn_ack e) = True"
| "leaving_pc (U_clear ao) = True"
| "leaving_pc _ = False"

definition unattended :: "sys \<Rightarrow> proc \<Rightarrow> bool" where
  "unattended s p =
     (case p_cmd_tx p of
        None \<Rightarrow> True
      | Some t \<Rightarrow> (case sup_of s t of Some u \<Rightarrow> leaving_pc (u_pc u) | None \<Rightarrow> False))"

fun stop_pc :: "call_pc \<Rightarrow> bool" where
  "stop_pc (ST_send c) = True"
| "stop_pc (ST_wait c a) = True"
| "stop_pc (ST_norm c) = True"
| "stop_pc _ = False"

definition stop_pending :: "sys \<Rightarrow> u32 \<Rightarrow> bool" where
  "stop_pending s i = (\<exists>k cl. call_of s k = Some cl \<and> k_pm cl = i \<and> stop_pc (k_pc cl))"

definition settling :: "sys \<Rightarrow> bool" where
  "settling s =
     (\<forall>i p. row s i = Some p \<longrightarrow> p_status p = Stopping \<longrightarrow> unattended s p \<longrightarrow> stop_pending s i)"

lemma unattended_cong:
  "y_sups s' = y_sups s \<Longrightarrow> p_cmd_tx p' = p_cmd_tx p \<Longrightarrow> unattended s' p' = unattended s p"
  by (simp only: unattended_def)

section \<open>Steps\<close>

lemma unattended_at_rest:
  assumes "supervised s" "row s i = Some p" "unattended s p"
  shows "at_rest p"
proof (cases "p_cmd_tx p")
  case None
  with supervised_row [OF assms(1,2)] show ?thesis by (simp add: row_served_def)
next
  case (Some t)
  with assms(3) obtain u where u: "sup_of s t = Some u" "leaving_pc (u_pc u)"
    by (auto simp: unattended_def split: option.splits)
  with supervised_row [OF assms(1,2)] Some have "u_pm u = i" by (auto simp: row_served_def)
  with u assms(2) supervised_sup(3) [OF assms(1) u(1)] show ?thesis
    by (cases "u_pc u") (auto simp: sup_serves_def)
qed

lemma leaving_local:
  assumes "sup_step h t ch s = Some s'" "sup_of s t = Some u" "row s (u_pm u) = Some p" "p_cmd_tx p = Some t"
    "\<not> retired u" "row s' (u_pm u) = Some p'" "p_status p' = Stopping" "unattended s' p'" "sup_no_delete u"
  shows "p_status p = Stopping \<and> leaving_pc (u_pc u)"
  using assms channel_open_row [OF assms(3,4)]
  by (cases "u_pc u")
    (auto simp: sup_step_def sup_ops sys_facts Let_def unattended_def sup_no_delete_def
      go_online_def restart_row_def reset_state_def auto_restart_row_def
      elim!: goE
      split: option.splits choice.splits sup_cmd.splits list.splits if_splits restart_decision.splits sum.splits)

lemma settling_sup_step:
  assumes set: "settling s" and inv: "supervised s" and step: "sup_step h t ch s = Some s'"
  shows "settling s'"
proof -
  obtain u where u: "sup_of s t = Some u" using step by (auto simp: sup_step_def split: option.splits)
  have fr: "\<And>j. j \<noteq> u_pm u \<Longrightarrow> row s' j = row s j" "\<And>t'. t' \<noteq> t \<Longrightarrow> sup_of s' t' = sup_of s t'"
    "y_calls s' = y_calls s"
    using sup_step_frame [OF step u] by (auto simp: sup_frame_def)
  have nd: "sup_no_delete u" and serves: "sup_serves s t u" using supervised_sup [OF inv u] by auto
  have pend: "stop_pending s' i = stop_pending s i" for i by (simp add: stop_pending_def fr(3))
  have old: "stop_pending s i"
    if i: "row s i = Some p" "p_status p = Stopping" "unattended s' p" "p_cmd_tx p \<noteq> Some t" for i p
  proof -
    have "unattended s p" using i(3,4) fr(2) by (auto simp: unattended_def split: option.splits)
    with set i show ?thesis by (auto simp: settling_def)
  qed
  have "stop_pending s i" if i: "row s' i = Some p'" "p_status p' = Stopping" "unattended s' p'" for i p'
  proof (cases "\<not> retired u \<and> i = u_pm u")
    case True
    then obtain p where p: "row s i = Some p" "p_cmd_tx p = Some t" using serves by (auto simp: sup_serves_def)
    with True leaving_local [OF step u] nd i have "p_status p = Stopping \<and> leaving_pc (u_pc u)" by blast
    with p u set show ?thesis by (auto simp: settling_def unattended_def)
  next
    case False
    have row: "row s i = Some p'" using False i(1) fr(1) retired_local [OF step u _ nd] by (cases "retired u") auto
    have "p_cmd_tx p' \<noteq> Some t"
      using supervised_row [OF inv row] u False by (auto simp: row_served_def)
    with row i old show ?thesis by blast
  qed
  then show ?thesis by (simp add: settling_def pend)
qed

lemma call_leaving:
  assumes "call_step h k s = Some s'" "sup_of s' t = Some u'" "leaving_pc (u_pc u')"
  shows "\<exists>u. sup_of s t = Some u \<and> leaving_pc (u_pc u)"
proof -
  obtain cl where cl: "call_of s k = Some cl" using assms(1) by (auto simp: call_step_def split: option.splits)
  show ?thesis
  proof (cases "pc_quiet (k_pc cl)")
    case True
    with call_step_quiet [OF assms(1) cl] assms(2,3) show ?thesis by (auto simp: calls_quiet_def)
  next
    case False
    with assms cl show ?thesis
      by (cases "k_pc cl")
        (auto simp: call_step_def send_step_def send_cmd_def new_ack_def ln_spawn_def spawn_sup_def sys_facts Let_def
          split: option.splits if_splits)
  qed
qed

text \<open>How a row comes to show \<open>stopping\<close> in a step of an operation.\<close>

lemma call_stopping:
  assumes step: "call_step h k s = Some s'" and cl: "call_of s k = Some cl" "call_no_delete (k_pc cl)"
    and row: "row s' j = Some p'" "p_status p' = Stopping"
  shows "(\<exists>p. row s j = Some p \<and> p_status p \<in> {Stopping, Online} \<and> p_cmd_tx p = p_cmd_tx p')
    \<or> (\<exists>cl' c. call_of s' k = Some cl' \<and> k_pm cl' = j \<and> k_pc cl' = ST_send c)"
proof (cases "k_pc cl")
  case (SA_register app fixed n ids pm)
  with step cl have "s' = sa_register h k cl app fixed n ids pm s" by (simp add: call_step_def)
  then have "map_option p_cmd_tx (row s' j) = map_option p_cmd_tx (row s j)"
    "map_option p_status (row s' j) = map_option p_status (row s j)"
    by (auto simp: sa_register_def sys_facts Let_def option.map_comp o_def)
  with row show ?thesis by (cases "row s j") auto
qed (use step cl row in \<open>auto simp: call_step_def call_ops normalize_def reset_state_def send_step_def send_cmd_def
      new_ack_def ln_spawn_def spawn_sup_def sa_row_def insert_row_def alloc_id_def sys_facts Let_def
      split: option.splits if_splits ack.splits launch_cont.splits sum.splits prod.splits\<close>)

lemma normalize_not_stopping: "p_status (normalize p) \<noteq> Stopping"
  by (simp add: normalize_def)

lemma call_stop_stays:
  assumes step: "call_step h k s = Some s'" and cl: "call_of s k = Some cl" "stop_pc (k_pc cl)"
    and row: "row s' (k_pm cl) = Some p'" "p_status p' = Stopping"
  shows "\<exists>cl'. call_of s' k = Some cl' \<and> k_pm cl' = k_pm cl \<and> stop_pc (k_pc cl')"
  using assms normalize_not_stopping
  by (cases "k_pc cl")
    (auto simp: call_step_def st_wait_def st_norm_def send_step_def send_cmd_def new_ack_def sys_facts
      split: option.splits if_splits)

lemma settling_call_step:
  assumes set: "settling s" and inv: "supervised s" and step: "call_step h k s = Some s'"
  shows "settling s'"
proof -
  obtain cl where cl: "call_of s k = Some cl" using step by (auto simp: call_step_def split: option.splits)
  have nd: "call_no_delete (k_pc cl)" using inv cl by (rule supervised_call)
  have "stop_pending s' j" if j: "row s' j = Some p'" "p_status p' = Stopping" "unattended s' p'" for j p'
    using call_stopping [OF step cl nd j(1,2)]
  proof (elim disjE exE conjE)
    fix cl' c
    assume "call_of s' k = Some cl'" "k_pm cl' = j" "k_pc cl' = ST_send c"
    then show ?thesis unfolding stop_pending_def by (intro exI [of _ k]) simp
  next
    fix p
    assume p: "row s j = Some p" "p_status p \<in> {Stopping, Online}" "p_cmd_tx p = p_cmd_tx p'"
    have un: "unattended s p"
      using j(3) p(3) call_leaving [OF step] by (fastforce simp: unattended_def split: option.splits)
    then have "p_status p = Stopping" using unattended_at_rest [OF inv p(1)] p(2) by (auto simp: at_rest_def)
    with set p(1) un have "stop_pending s j" by (auto simp: settling_def)
    then obtain k' cl' where k': "call_of s k' = Some cl'" "k_pm cl' = j" "stop_pc (k_pc cl')"
      unfolding stop_pending_def by blast
    show ?thesis
    proof (cases "k' = k")
      case True
      with k' cl j call_stop_stays [OF step] show ?thesis by (fastforce simp: stop_pending_def)
    next
      case False
      with k' call_step_others [OF step False] show ?thesis by (auto simp: stop_pending_def)
    qed
  qed
  then show ?thesis by (simp add: settling_def)
qed

definition calls_below :: "sys \<Rightarrow> bool" where
  "calls_below s = (\<forall>k. call_of s k \<noteq> None \<longrightarrow> k < y_next s)"

lemma calls_below_dstep:
  assumes below: "calls_below s" and step: "dstep h ok s s'"
  shows "calls_below s'"
  using step
proof cases
  case (sup_moves t ch)
  then obtain u where u: "sup_of s t = Some u" by (auto simp: sup_step_def split: option.splits)
  with sup_step_frame [OF sup_moves u] below show ?thesis by (simp add: calls_below_def sup_frame_def)
next
  case (call_moves k)
  then have "call_of s k \<noteq> None" by (auto simp: call_step_def split: option.splits)
  moreover have "y_next s \<le> y_next s'" using later_call_step [OF call_moves] by (simp add: later_sups_def)
  ultimately have "k' < y_next s'" if "call_of s' k' \<noteq> None" for k'
    using that below call_step_others [OF call_moves, of k'] unfolding calls_below_def
    by (cases "k' = k") (auto dest: order.strict_trans2)
  then show ?thesis by (simp add: calls_below_def)
next
  case (outside_moves o')
  with below show ?thesis
    by (cases o'; auto simp: calls_below_def new_call_def set_call_def sys_facts less_Suc_eq split: prod.splits if_splits)
next
  case (chore_moves c)
  with below show ?thesis by (simp add: calls_below_def run_chore_frame [OF chore_moves])
qed (use below in \<open>auto simp: calls_below_def sys_facts\<close>)

lemma calls_below_init: "calls_below sys_init"
  by (simp add: calls_below_def sys_init_def)

interpretation calls_inv: run_invariant ok room calls_below for ok room
  by unfold_locales (auto intro: calls_below_init calls_below_dstep)

lemma settling_dstep:
  assumes set: "settling s" and inv: "supervised s" and below: "calls_below s" and step: "dstep h no_delete s s'"
  shows "settling s'"
  using step
proof cases
  case (sup_moves t ch)
  with set inv show ?thesis by (blast intro: settling_sup_step)
next
  case (call_moves k)
  with set inv show ?thesis by (blast intro: settling_call_step)
next
  case (child_exits t u ch code)
  then have "unattended s' p = unattended s p" for p
    by (auto simp: unattended_def sys_facts split: option.splits)
  with set child_exits(1) show ?thesis by (auto simp: settling_def sys_facts stop_pending_def)
next
  case (chore_moves c)
  note same = run_chore_frame(2-) [OF chore_moves]
  have "stop_pending s' i" if i: "row s' i = Some p'" "p_status p' = Stopping" "unattended s' p'" for i p'
  proof -
    obtain p where p: "row s i = Some p" "row_kept p p'"
      using table_kept_row(2) [OF run_chore_frame(1) [OF chore_moves] i(1)] by blast
    have "unattended s' p' = unattended s p" using p(2) same(1) by (intro unattended_cong) (simp_all add: row_kept_def)
    with i(2,3) p(2) have "p_status p = Stopping" "unattended s p" by (simp_all add: row_kept_def)
    with set p(1) have "stop_pending s i" by (simp add: settling_def)
    then show ?thesis by (simp add: stop_pending_def same)
  qed
  then show ?thesis by (simp add: settling_def)
next
  case (clock_moves n)
  then have "unattended s' p = unattended s p" for p by (intro unattended_cong) simp_all
  with set clock_moves show ?thesis by (auto simp: settling_def stop_pending_def)
next
  case (outside_moves o')
  show ?thesis
  proof (cases o')
    case OShutdown
    with outside_moves have s': "s' = on_ctx (\<lambda>c. publish EvDaemonKill (c\<lparr>c_shutting_down := True\<rparr>)) s" by simp
    have "unattended s' p = unattended s p" for p by (rule unattended_cong) (simp_all add: s' on_ctx_def)
    with set show ?thesis by (simp add: settling_def stop_pending_def s' sys_facts)
  next
    case rq: (OReq rq)
    obtain pm pc where fp: "first_pc rq = (pm, pc)" by (cases "first_pc rq")
    then have calls: "y_calls s' = hm_put (y_next s) \<lparr>k_pm = pm, k_pc = pc\<rparr> (y_calls s)"
      and rest: "y_ctx s' = y_ctx s" "y_sups s' = y_sups s"
      using outside_moves rq by (simp_all add: new_call_def set_call_def)
    have "call_of s (y_next s) = None" using below by (auto simp: calls_below_def)
    then have "stop_pending s i \<Longrightarrow> stop_pending s' i" for i
      unfolding stop_pending_def calls by (metis hm_get_put option.distinct(1))
    moreover have "unattended s' p = unattended s p" for p
      by (rule unattended_cong) (simp_all add: rest)
    ultimately show ?thesis using set by (simp add: settling_def rest)
  qed
qed

lemma settling_init: "settling sys_init"
  by (simp add: settling_def sys_init_def ctx_default_def table_default_def)

interpretation settling_inv: layered_invariant no_delete id_room supervised settling
  by unfold_locales (auto intro: settling_init settling_dstep calls_inv.holds)

section \<open>Properties\<close>

text \<open>C18: In a run without deletions whose ids stay below \<open>u32::MAX\<close> no process is left \<open>stopping\<close>: when a row shows
  it and has no supervisor, a stop of this process is still under way.\<close>
theorem stopping_is_settled:
  assumes "reach h no_delete id_room s" "row s i = Some p" "p_status p = Stopping" "p_cmd_tx p = None"
  shows "\<exists>k cl. call_of s k = Some cl \<and> k_pm cl = i \<and> stop_pc (k_pc cl)"
  using settling_inv.upper.holds [OF assms(1)] assms(2-4) by (auto simp: settling_def unattended_def stop_pending_def)

text \<open>The stop marks the row while its supervisor, whose child has exited for good, leaves it.\<close>

definition race_moves :: "move list" where
  "race_moves =
     MOut (OReq (RqStart ((app_new ''/srv/a.sh'')\<lparr>ac_autorestart := False\<rparr>) None)) # replicate 7 (MCall 0)
     @ [MSup 4 ChGo, MSup 4 (ChSpawnOk 71), MSup 4 ChGo, MSup 4 ChGo, MExit 4 (Some 0), MSup 4 ChExit, MSup 4 ChGo,
        MSup 4 ChGo, MSup 4 ChGo, MOut (OReq (RqStop 0)), MCall 5, MCall 5, MSup 4 ChGo]"

lemma stopping_is_settled_witness:
  "\<exists>k cl. call_of (sample_state race_moves) k = Some cl \<and> stop_pc (k_pc cl)"
proof -
  have "row_shows (sample_state race_moves) 0 (\<lambda>p. p_status p = Stopping \<and> p_cmd_tx p = None)" by code_simp
  then obtain p where "row (sample_state race_moves) 0 = Some p" "p_status p = Stopping" "p_cmd_tx p = None"
    by (auto elim: row_showsE)
  from stopping_is_settled [OF sample_reach this] show ?thesis by blast
qed

end
