(* ===== verification/Joined.thy ===== *)
theory Joined
  imports Settling
begin

text \<open>
  \<open>for_each_parallel\<close> of \<open>src/daemon/ops.rs\<close> over the transition system of the daemon: one task per id is
  spawned, the daemon goes on, and all of them are joined.  What \<open>dispatch\<close> waits for is what the
  operations have become by then.
\<close>

section \<open>Spawned together\<close>

definition spawn_ops :: "op \<Rightarrow> u32 list \<Rightarrow> sys \<Rightarrow> sys" where
  "spawn_ops o' ids s = fold (\<lambda>i. new_call (op_request o' i)) ids s"

fun op_pc :: "op \<Rightarrow> call_pc" where
  "op_pc OpStop = ST_watch"
| "op_pc OpRestart = RS_lock"
| "op_pc OpDelete = DL_lock"

lemma first_op: "first_pc (op_request o' i) = (i, op_pc o')"
  by (cases o') simp_all

lemma new_op:
  "call_of (new_call (op_request o' i) s) k = (if k = y_next s then Some \<lparr>k_pm = i, k_pc = op_pc o'\<rparr> else call_of s k)"
  "y_next (new_call (op_request o' i) s) = Suc (y_next s)"
  "y_ctx (new_call (op_request o' i) s) = y_ctx s" "y_sups (new_call (op_request o' i) s) = y_sups s"
  by (simp_all add: new_call_def set_call_def first_op)

lemma spawn_ops_simps: "spawn_ops o' [] s = s" "spawn_ops o' (i # js) s = spawn_ops o' js (new_call (op_request o' i) s)"
  by (simp_all add: spawn_ops_def)

lemma spawned:
  "y_ctx (spawn_ops o' js s) = y_ctx s" "y_sups (spawn_ops o' js s) = y_sups s"
  "y_next (spawn_ops o' js s) = y_next s + length js"
  "n < length js \<Longrightarrow> call_of (spawn_ops o' js s) (y_next s + n) = Some \<lparr>k_pm = js ! n, k_pc = op_pc o'\<rparr>"
  "k < y_next s \<Longrightarrow> call_of (spawn_ops o' js s) k = call_of s k"
proof (induction js arbitrary: s n k)
  case (Cons i js)
  { case 1 then show ?case using Cons.IH(1) by (simp add: new_op spawn_ops_simps) }
  { case 2 then show ?case using Cons.IH(2) by (simp add: new_op spawn_ops_simps) }
  { case 3 then show ?case using Cons.IH(3) by (simp add: new_op spawn_ops_simps) }
  { case 4 then show ?case
      using Cons.IH(4) [of "n - 1" "new_call (op_request o' i) s"] Cons.IH(5) [of "y_next s" "new_call (op_request o' i) s"]
      by (cases n) (simp_all add: new_op spawn_ops_simps) }
  { case 5 then show ?case using Cons.IH(5) [of n "new_call (op_request o' i) s"] by (simp add: new_op spawn_ops_simps) }
qed (simp_all add: spawn_ops_simps)

lemma spawned_reach:
  assumes "reach h ok room s" "\<And>i. i \<in> set js \<Longrightarrow> ok (OReq (op_request o' i))"
    and "\<And>s i. room s \<Longrightarrow> i \<in> set js \<Longrightarrow> room (new_call (op_request o' i) s)" "room s"
  shows "reach h ok room (spawn_ops o' js s)"
  using assms
proof (induction js arbitrary: s)
  case (Cons i js)
  let ?s = "new_call (op_request o' i) s"
  have "dstep h ok s (outside_step (OReq (op_request o' i)) s)"
    using Cons.prems(2) by (intro outside_moves) simp
  then have "dstep h ok s ?s" by simp
  moreover have room: "room ?s" using Cons.prems(3,4) by simp
  ultimately have "reach h ok room ?s" using Cons.prems(1) by (blast intro: reach_step)
  then show ?case using Cons room by (simp add: spawn_ops_simps)
qed (simp add: spawn_ops_simps)

text \<open>Any operation is one of before, or a spawned one that has not begun.\<close>

lemma spawned_calls_of:
  assumes "calls_below s" "call_of (spawn_ops o' js s) k = Some cl"
  shows "call_of s k = Some cl \<or> (k_pc cl = op_pc o' \<and> k_pm cl \<in> set js)"
  using assms
proof (induction js arbitrary: s)
  case (Cons i js)
  have "calls_below (new_call (op_request o' i) s)"
    using Cons.prems(1) by (auto simp: calls_below_def new_op less_Suc_eq split: if_splits)
  from Cons.IH [OF this] Cons.prems(2)
  have "call_of (new_call (op_request o' i) s) k = Some cl \<or> (k_pc cl = op_pc o' \<and> k_pm cl \<in> set js)"
    by (simp add: spawn_ops_simps)
  then show ?case by (auto simp: new_op split: if_splits)
qed (simp add: spawn_ops_simps)

lemma spawned_calls:
  assumes "calls_below s" "call_of (spawn_ops o' js s) k = Some cl"
  shows "call_of s k = Some cl \<or> k_pc cl = op_pc o'"
  using spawned_calls_of [OF assms] by blast

section \<open>All joined\<close>

text \<open>The calls made in \<open>s\<close> are numbered from \<open>y_next s\<close> on.\<close>

fun is_done :: "call_pc \<Rightarrow> bool" where
  "is_done (C_done r) = True"
| "is_done _ = False"

definition calls_joined :: "nat \<Rightarrow> sys \<Rightarrow> sys \<Rightarrow> bool" where
  "calls_joined n s s' =
     list_all (\<lambda>k. case call_of s' k of Some cl \<Rightarrow> is_done (k_pc cl) | None \<Rightarrow> False) [y_next s..<y_next s + n]"

lemma calls_joinedD: "calls_joined n s s' \<Longrightarrow> m < n \<Longrightarrow> \<exists>cl. call_of s' (y_next s + m) = Some cl \<and> is_done (k_pc cl)"
  unfolding calls_joined_def list_all_iff by (fastforce split: option.splits)

definition outcome_of :: "sys \<Rightarrow> nat \<Rightarrow> joined" where
  "outcome_of s k =
     (case call_of s k of
        Some cl \<Rightarrow>
          (case k_pc cl of
             C_done (Inl e) \<Rightarrow> Finished (Inl e)
           | C_done (Inr _) \<Rightarrow> Finished (Inr ())
           | _ \<Rightarrow> Panicked [])
      | None \<Rightarrow> Panicked [])"

definition awaiting :: "rpc_env \<Rightarrow> sys \<Rightarrow> sys \<Rightarrow> rpc_env" where
  "awaiting e s s' =
     e\<lparr>re_each := (\<lambda>o' ids c. (map (outcome_of s') [y_next s..<y_next s + length ids], y_ctx s'))\<rparr>"

lemma join_all_fine: "list_all (\<lambda>j. j = Finished (Inr ())) js \<Longrightarrow> join_all None js = Inr ()"
  by (induction js) auto

lemma run_each_awaiting:
  assumes "\<And>n. n < length ids \<Longrightarrow> \<exists>cl r. call_of s' (y_next s + n) = Some cl \<and> k_pc cl = C_done (Inr r)"
  shows "run_each (awaiting e s s') o' ids c = (Inr (), y_ctx s')"
proof -
  have "outcome_of s' k = Finished (Inr ())" if "k \<in> set [y_next s..<y_next s + length ids]" for k
  proof -
    obtain n where "k = y_next s + n" "n < length ids" using \<open>k \<in> _\<close> le_Suc_ex by force
    with assms [of n] show ?thesis by (auto simp: outcome_of_def)
  qed
  then have "join_all None (map (outcome_of s') [y_next s..<y_next s + length ids]) = Inr ()"
    by (intro join_all_fine) (simp add: list_all_iff)
  then show ?thesis by (simp add: run_each_def awaiting_def)
qed

end
