(* ===== verification/Quiet.thy ===== *)
theory Quiet
  imports Supervision
begin

text \<open>
  A stopped process stays stopped.  Nothing in the daemon starts or touches a process without a
  supervisor unless an operation on it is under way or is asked for: supervisors write their own
  rows only, and an operation only the row it is about.
\<close>

section \<open>The rows an operation may touch\<close>

text \<open>\<open>start_app\<close> works on the row it has just inserted; before that, and once an operation has
  returned, it works on none.\<close>

definition works_on :: "call \<Rightarrow> u32 \<Rightarrow> bool" where
  "works_on cl i =
     (case k_pc cl of
        C_done r \<Rightarrow> False
      | SA_begin app fixed \<Rightarrow> False
      | SA_clash app fixed \<Rightarrow> False
      | SA_row app fixed n ids \<Rightarrow> False
      | SA_publish app fixed n ids pm \<Rightarrow> False
      | SA_register app fixed n ids pm \<Rightarrow> i = pm \<or> i = k_pm cl
      | _ \<Rightarrow> i = k_pm cl)"

definition at_peace :: "u32 \<Rightarrow> sys \<Rightarrow> bool" where
  "at_peace i s = list_all (\<lambda>(k, cl). \<not> works_on cl i) (y_calls s)"

lemma at_peace_call: "at_peace i s \<Longrightarrow> call_of s k = Some cl \<Longrightarrow> \<not> works_on cl i"
  by (auto simp: at_peace_def list_all_iff hm_get_def dest!: map_of_SomeD)

text \<open>Requests that do not name the process.\<close>

fun spares :: "u32 \<Rightarrow> outside \<Rightarrow> bool" where
  "spares i (OReq (RqStop pm)) = (pm \<noteq> i)"
| "spares i (OReq (RqRestart pm)) = (pm \<noteq> i)"
| "spares i o' = no_delete o'"

lemma spares_no_delete: "spares i o' \<Longrightarrow> no_delete o'"
  by (cases "(i, o')" rule: spares.cases) auto

lemma dstep_mono:
  assumes "dstep h ok s s'" "\<And>o'. ok o' \<Longrightarrow> ok' o'"
  shows "dstep h ok' s s'"
  using assms(1) by cases (use assms(2) in \<open>auto intro: dstep.intros\<close>)

section \<open>A quiet row\<close>

definition quiet :: "u32 \<Rightarrow> proc \<Rightarrow> sys \<Rightarrow> bool" where
  "quiet i p s =
     ((\<exists>q. row s i = Some q \<and> row_kept p q) \<and> p_cmd_tx p = None \<and> (\<forall>k cl. call_of s k = Some cl \<longrightarrow> \<not> works_on cl i))"

lemma quiet_sup_step:
  assumes inv: "supervised s" and q: "quiet i p s" and step: "sup_step h t ch s = Some s'"
  shows "quiet i p s'"
proof -
  obtain u where u: "sup_of s t = Some u" using step by (auto simp: sup_step_def split: option.splits)
  have fr: "sup_frame t (u_pm u) s s'" using step u by (rule sup_step_frame)
  have "row s' i = row s i"
  proof (cases "u_pm u = i")
    case True
    with supervised_sup(3) [OF inv u] q have "retired u"
      by (auto simp: sup_serves_def quiet_def row_kept_def split: if_splits)
    with retired_local [OF step u] supervised_sup(2) [OF inv u] show ?thesis by blast
  qed (use fr in \<open>auto simp: sup_frame_def\<close>)
  with fr q show ?thesis by (auto simp: quiet_def sup_frame_def)
qed

lemma call_step_spares_row:
  assumes "call_step h k s = Some s'" "call_of s k = Some cl" "call_no_delete (k_pc cl)" "\<not> works_on cl i"
    and "\<forall>app fixed n ids. k_pc cl \<noteq> SA_row app fixed n ids"
  shows "row s' i = row s i \<and> (\<exists>cl'. y_calls s' = hm_put k cl' (y_calls s) \<and> \<not> works_on cl' i)"
  using assms
  by (cases "k_pc cl")
    (auto simp: works_on_def call_step_def call_ops send_step_def send_cmd_def ln_spawn_def spawn_sup_def
      sys_facts new_ack_def Let_def
      split: option.splits if_splits ack.splits launch_cont.splits sum.splits prod.splits)

lemma call_step_idle:
  assumes inv: "supervised s" and room: "id_room s" and step: "call_step h k s = Some s'"
    and cl: "call_of s k = Some cl" "\<not> works_on cl i" and row: "row s i \<noteq> None"
  shows "row s' i = row s i \<and> (\<exists>cl'. y_calls s' = hm_put k cl' (y_calls s) \<and> \<not> works_on cl' i)"
proof -
  have nd: "call_no_delete (k_pc cl)" using inv cl(1) by (rule supervised_call)
  show ?thesis
  proof (cases "\<exists>app fixed n ids. k_pc cl = SA_row app fixed n ids")
    case False
    with call_step_spares_row [OF step cl(1) nd cl(2)] show ?thesis by blast
  next
    case True
    then obtain app fixed n ids where pc: "k_pc cl = SA_row app fixed n ids" by blast
    with step cl have s': "s' = sa_row h k cl app fixed n ids s" by (simp add: call_step_def)
    have below: "ids_below (c_table (y_ctx s))" using inv by (simp add: supervised_def)
    have "row s' i = row s i"
    proof (rule sa_row_cases [OF below room, of fixed h k cl app n ids])
      show "fixed_fits fixed" using nd pc by simp
    qed (use row in \<open>auto simp: s' sys_facts insert_row_def\<close>)
    moreover have "\<exists>cl'. y_calls s' = hm_put k cl' (y_calls s) \<and> \<not> works_on cl' i"
      using row ids_below_alloc [OF below]
      by (auto simp: s' sa_row_def works_on_def sys_facts Let_def split: option.splits prod.splits if_splits)
    ultimately show ?thesis by blast
  qed
qed

lemma quiet_call_step:
  assumes inv: "supervised s" and room: "id_room s" and q: "quiet i p s" and step: "call_step h k s = Some s'"
  shows "quiet i p s'"
proof -
  obtain cl where cl: "call_of s k = Some cl" using step by (auto simp: call_step_def split: option.splits)
  have "row s' i = row s i \<and> (\<exists>cl'. y_calls s' = hm_put k cl' (y_calls s) \<and> \<not> works_on cl' i)"
    using q cl by (intro call_step_idle [OF inv room step cl]) (auto simp: quiet_def)
  with q show ?thesis by (auto simp: quiet_def split: if_splits)
qed

lemma quiet_dstep:
  assumes inv: "supervised s" and room: "id_room s" and q: "quiet i p s" and step: "dstep h (spares i) s s'"
  shows "quiet i p s'"
  using step
proof cases
  case (sup_moves t ch)
  with inv q show ?thesis by (blast intro: quiet_sup_step)
next
  case (call_moves k)
  with inv room q show ?thesis by (blast intro: quiet_call_step)
next
  case (child_exits t u ch code)
  with q show ?thesis by (simp add: quiet_def sys_facts)
next
  case (chore_moves c)
  have "\<exists>q. row s' i = Some q \<and> row_kept p q"
    using q table_kept_row(1) [OF run_chore_frame(1) [OF chore_moves]] row_kept_trans
    unfolding quiet_def by blast
  with q show ?thesis by (simp add: quiet_def run_chore_frame [OF chore_moves])
next
  case (clock_moves n)
  with q show ?thesis by (simp add: quiet_def)
next
  case (outside_moves o')
  show ?thesis
  proof (cases o')
    case (OReq rq)
    have "\<not> works_on \<lparr>k_pm = fst (first_pc rq), k_pc = snd (first_pc rq)\<rparr> i"
      using outside_moves(2) unfolding OReq by (cases rq) (auto simp: works_on_def)
    with q outside_moves OReq show ?thesis
      by (auto simp: quiet_def new_call_def set_call_def split: prod.splits if_splits)
  next
    case OShutdown
    with q outside_moves show ?thesis by (simp add: quiet_def sys_facts)
  qed
qed

lemma quiet_run:
  assumes "run_moves h (spares i) id_room mvs s = Some s'" "reach h no_delete id_room s" "quiet i p s"
  shows "quiet i p s' \<and> reach h no_delete id_room s'"
  using assms
proof (induction mvs arbitrary: s)
  case (Cons mv mvs)
  then obtain s1 where s1: "do_move h (spares i) mv s = Some s1" "id_room s1" "run_moves h (spares i) id_room mvs s1 = Some s'"
    by (auto split: option.splits if_splits)
  then have step: "dstep h (spares i) s s1" using dstep_iff_do_move by blast
  have "quiet i p s1"
    using Cons.prems step supervision_inv.holds reach_room id_room_init by (blast intro: quiet_dstep)
  moreover have "reach h no_delete id_room s1"
    using Cons.prems(2) dstep_mono [OF step spares_no_delete] s1(2) by (rule reach_step)
  ultimately show ?case using Cons.IH s1(3) by blast
qed simp

text \<open>C21: In a run without deletions whose ids stay below \<open>u32::MAX\<close>, once a process has no supervisor and no operation
  on it is under way, nothing but a request
  that names it brings it back: whatever the other processes, operations, children and the clock do
  (new processes may be started, others stopped and restarted, the worker ticks, logs are written),
  its row stays, without supervisor or pid and with the same status and configuration, and no
  supervisor of it owns a child.\<close>
theorem stopped_process_stays_down:
  assumes "reach h no_delete id_room s" "row s i = Some p" "p_cmd_tx p = None" "at_peace i s"
    and "run_moves h (spares i) id_room mvs s = Some s'"
  shows "(\<exists>q. row s' i = Some q \<and> p_cmd_tx q = None \<and> p_pid q = 0 \<and> p_status q = p_status p \<and> p_config q = p_config p)
    \<and> (\<forall>t u. sup_of s' t = Some u \<and> u_pm u = i \<longrightarrow> u_child u = None)"
proof -
  have "quiet i p s" using assms(2-4) at_peace_call by (auto simp: quiet_def)
  with quiet_run [OF assms(5,1)] have q: "quiet i p s'" and r: "reach h no_delete id_room s'" by auto
  have "p_pid p = 0" using reach_row_served [OF assms(1,2)] assms(3) by (simp add: row_served_def at_rest_def)
  moreover have "u_child u = None" if "sup_of s' t = Some u" "u_pm u = i" for t u
    using reach_sup_serves [OF r that(1)] q that(2) by (auto simp: sup_serves_def quiet_def row_kept_def split: if_splits)
  ultimately show ?thesis using q by (auto simp: quiet_def row_kept_def)
qed

text \<open>The start and the stop of the sample run return, too.\<close>

abbreviation sample_settled :: sys where
  "sample_settled \<equiv> sample_state (start_moves @ stop_moves @ end_moves @ replicate 4 (MCall 0) @ [MCall 5])"

definition other_moves :: "move list" where
  "other_moves = MOut (OReq (RqStart (app_new ''/srv/b.sh'') None)) # replicate 7 (MCall 7)
     @ [MChore (ChRequest sample_rpc (M_reset All)), MChore ChReopen]"

text \<open>Process 0 is stopped, then another application is started and all counters are reset.\<close>

lemma stopped_process_stays_down_witness:
  "case run_moves sample_host (spares 0) id_room other_moves sample_settled of
     Some s' \<Rightarrow> row_shows s' 0 (\<lambda>q. p_cmd_tx q = None \<and> p_pid q = 0) \<and> row s' 1 \<noteq> None | None \<Rightarrow> False"
proof -
  have "row_shows sample_settled 0 (\<lambda>p. p_cmd_tx p = None)" by code_simp
  then obtain p where p: "row sample_settled 0 = Some p" "p_cmd_tx p = None" by (auto elim: row_showsE)
  have un: "at_peace 0 sample_settled" by code_simp
  have "case run_moves sample_host (spares 0) id_room other_moves sample_settled of
     Some s' \<Rightarrow> row_shows s' 1 (\<lambda>_. True) | None \<Rightarrow> False" by code_simp
  then obtain s' where s': "run_moves sample_host (spares 0) id_room other_moves sample_settled = Some s'"
      "row_shows s' 1 (\<lambda>_. True)" by (auto split: option.splits)
  have "row_shows s' 0 (\<lambda>q. p_cmd_tx q = None \<and> p_pid q = 0)"
    using stopped_process_stays_down [OF sample_reach p un s'(1)] by (auto simp: row_shows_def)
  with s' show ?thesis by (auto elim: row_showsE)
qed

end
