(* ===== verification/Halting.thy ===== *)
theory Halting
  imports Joined Quiet
begin

text \<open>
  What a stop achieves when nothing can start the process meanwhile.  The supervisors at work for a
  process are then those there were, each stop knows which one it may be, and when it returns
  there is none.  The condition comes as an interface: a state predicate that the allowed requests keep and
  that leaves no launch between its look at the row and the registration of its supervisor, for the
  processes in question.
\<close>

section \<open>Supervisors at work\<close>

text \<open>Supervisor \<open>t\<close> is at work for process \<open>i\<close>.\<close>

definition staffed :: "sys \<Rightarrow> u32 \<Rightarrow> nat \<Rightarrow> bool" where
  "staffed s i t = (\<exists>u. sup_of s t = Some u \<and> u_pm u = i \<and> \<not> retired u)"

lemma staffed_row:
  assumes "supervised s" "staffed s i t"
  shows "\<exists>p. row s i = Some p \<and> p_cmd_tx p = Some t"
  using assms supervised_sup(3) by (fastforce simp: staffed_def sup_serves_def)

lemma staffed_sup_step:
  assumes inv: "supervised s" and step: "sup_step h t ch s = Some s'" and st: "staffed s' i t'"
  shows "staffed s i t'"
proof -
  obtain u where u: "sup_of s t = Some u" using step by (auto simp: sup_step_def split: option.splits)
  show ?thesis
  proof (cases "t' = t")
    case False
    with sup_step_frame [OF step u] st show ?thesis by (auto simp: sup_frame_def staffed_def)
  next
    case True
    note nd = supervised_sup(2) [OF inv u] and serves = supervised_sup(3) [OF inv u]
    have "\<not> retired u" using retired_local [OF step u] nd st True by (auto simp: staffed_def)
    moreover from this obtain p where "row s (u_pm u) = Some p" "p_cmd_tx p = Some t" "agrees u p"
      using serves by (auto simp: sup_serves_def)
    ultimately have "still_serves t (u_pm u) s' \<or> has_left t (u_pm u) s' \<or> left_behind t (u_pm u) s'"
      using sup_local [OF step u] nd by blast
    with st True u \<open>\<not> retired u\<close> show ?thesis
      by (auto simp: staffed_def still_serves_def has_left_def left_behind_def)
  qed
qed

lemma staffed_mild:
  assumes "rel_option sup_mild (sup_of s t) (sup_of s' t)" "staffed s' i t"
  shows "staffed s i t"
  using assms by (cases "sup_of s t") (auto simp: staffed_def sup_mild_def option_rel_Some1)

text \<open>A row without a channel that does not show \<open>stopping\<close>.\<close>

definition settled_row :: "sys \<Rightarrow> u32 \<Rightarrow> bool" where
  "settled_row s i = (\<forall>p. row s i = Some p \<longrightarrow> p_cmd_tx p = None \<longrightarrow> p_status p \<noteq> Stopping)"

lemma settled_call_step:
  assumes step: "call_step h k s = Some s'" and cl: "call_of s k = Some cl" "call_no_delete (k_pc cl)"
    and row: "row s' j = Some p'" "p_status p' = Stopping" "p_cmd_tx p' = None"
  shows "\<exists>p. row s j = Some p \<and> p_status p \<in> {Stopping, Online} \<and> p_cmd_tx p = None"
proof (cases "k_pc cl")
  case (SA_register app fixed n ids pm)
  with step cl have "s' = sa_register h k cl app fixed n ids pm s" by (simp add: call_step_def)
  then have "map_option p_cmd_tx (row s' j) = map_option p_cmd_tx (row s j)"
    "map_option p_status (row s' j) = map_option p_status (row s j)"
    by (auto simp: sa_register_def sys_facts Let_def option.map_comp o_def)
  with row show ?thesis by (cases "row s j") auto
qed (use step cl row in \<open>auto simp: call_step_def call_ops normalize_def reset_state_def send_step_def send_cmd_def
      new_ack_def ln_spawn_def spawn_sup_def sa_row_def insert_row_def alloc_id_def sys_facts Let_def
      split: option.splits if_splits ack.splits launch_cont.splits sum.splits prod.splits\<close>)

lemma settled_dstep:
  assumes inv: "supervised s" and none: "\<And>t. \<not> staffed s i t" and step: "dstep h no_delete s s'" and set: "settled_row s i"
  shows "settled_row s' i"
  using step
proof cases
  case (sup_moves t ch)
  then obtain u where u: "sup_of s t = Some u" by (auto simp: sup_step_def split: option.splits)
  have "row s' i = row s i"
  proof (cases "u_pm u = i")
    case True
    with none [of t] u have "retired u" by (auto simp: staffed_def)
    with retired_local [OF sup_moves u] supervised_sup(2) [OF inv u] show ?thesis by blast
  qed (use sup_step_frame [OF sup_moves u] in \<open>auto simp: sup_frame_def\<close>)
  with set show ?thesis by (simp add: settled_row_def)
next
  case (call_moves k)
  then obtain cl where cl: "call_of s k = Some cl" by (auto simp: call_step_def split: option.splits)
  have "p_status p \<noteq> Online" if "row s i = Some p" "p_cmd_tx p = None" for p
    using supervised_row [OF inv that(1)] that(2) by (auto simp: row_served_def at_rest_def)
  with set settled_call_step [OF call_moves cl supervised_call [OF inv cl]] show ?thesis
    by (fastforce simp: settled_row_def)
next
  case (chore_moves c)
  show ?thesis
    using table_kept_row(2) [OF run_chore_frame(1) [OF chore_moves]] set
    unfolding settled_row_def row_kept_def by metis
next
  case (outside_moves o')
  with set show ?thesis
    by (cases o') (auto simp: settled_row_def new_call_def set_call_def sys_facts publish_def split: prod.splits)
qed (use set in \<open>auto simp: settled_row_def sys_facts\<close>)

section \<open>A stop under way\<close>

text \<open>What a stop of process \<open>i\<close> knows: from the lock on it addresses the one supervisor there may be,
  and when it is done there is none.\<close>

fun stop_knows :: "sys \<Rightarrow> u32 \<Rightarrow> call_pc \<Rightarrow> bool" where
  "stop_knows s i ST_watch = True"
| "stop_knows s i ST_lock = True"
| "stop_knows s i (ST_send c) = (\<forall>t. staffed s i t \<longrightarrow> t = c)"
| "stop_knows s i (ST_wait c a) = (\<forall>t. staffed s i t \<longrightarrow> t = c)"
| "stop_knows s i (ST_norm c) = (\<forall>t. staffed s i t \<longrightarrow> t = c)"
| "stop_knows s i (C_done r) = (r = Inr [] \<and> (\<forall>t. \<not> staffed s i t) \<and> settled_row s i)"
| "stop_knows s i _ = False"

definition stopping_call :: "sys \<Rightarrow> nat \<Rightarrow> u32 \<Rightarrow> bool" where
  "stopping_call s k i = (\<exists>cl. call_of s k = Some cl \<and> k_pm cl = i \<and> stop_knows s i (k_pc cl))"

lemma stop_knows_fewer:
  assumes "stop_knows s i pc" "\<And>t. staffed s' i t \<Longrightarrow> staffed s i t"
    and "(\<And>t. \<not> staffed s i t) \<Longrightarrow> settled_row s i \<Longrightarrow> settled_row s' i"
  shows "stop_knows s' i pc"
  using assms by (cases pc) auto

text \<open>One step of the stop itself: what it knows afterwards holds of the state after it.\<close>

lemma stop_knows_step:
  assumes inv: "supervised s" and owed: "stops_owed s" and step: "call_step h k s = Some s'"
    and cl: "call_of s k = Some cl" "stop_knows s (k_pm cl) (k_pc cl)"
    and fewer: "\<And>t. staffed s' (k_pm cl) t \<Longrightarrow> staffed s (k_pm cl) t"
  shows "\<exists>cl'. call_of s' k = Some cl' \<and> k_pm cl' = k_pm cl \<and> stop_knows s' (k_pm cl) (k_pc cl')"
proof (cases "k_pc cl")
  case (ST_norm c)
  have "stop_agrees s (k_pc cl)" using owed cl(1) unfolding stops_owed_def by blast
  then have "sup_of s c = None" by (simp add: ST_norm)
  with cl ST_norm have "\<not> staffed s (k_pm cl) t" for t by (auto simp: staffed_def)
  then have "\<not> staffed s' (k_pm cl) t" for t using fewer by blast
  with step cl ST_norm show ?thesis
    by (auto simp: call_step_def st_norm_def sys_facts settled_row_def normalize_not_stopping)
next
  case ST_lock
  have "t = c" if "staffed s (k_pm cl) t" "row s (k_pm cl) = Some p" "p_cmd_tx p = Some c" for t p c
    using staffed_row [OF inv that(1)] that by auto
  moreover have "\<not> staffed s (k_pm cl) t" if "row s (k_pm cl) = None \<or> (\<exists>p. row s (k_pm cl) = Some p \<and> p_cmd_tx p = None)" for t
    using staffed_row [OF inv] that by fastforce
  ultimately show ?thesis using step cl ST_lock fewer
    by (fastforce simp: call_step_def st_lock_def sys_facts settled_row_def split: option.splits)
next
  case ST_watch
  with step cl show ?thesis by (auto simp: call_step_def st_watch_def sys_facts)
next
  case (ST_send c)
  with step cl obtain cl' where "call_of s' k = Some cl'" "k_pm cl' = k_pm cl" "k_pc cl' = ST_norm c \<or> (\<exists>a. k_pc cl' = ST_wait c a)"
    by (auto simp: call_step_def send_step_def send_cmd_def new_ack_def sys_facts split: option.splits if_splits)
  with cl ST_send fewer show ?thesis by auto
next
  case (ST_wait c a)
  with step cl have "call_of s' k = Some (cl\<lparr>k_pc := ST_norm c\<rparr>)"
    by (auto simp: call_step_def st_wait_def sys_facts split: if_splits)
  with cl ST_wait fewer show ?thesis by auto
qed (use step cl in \<open>auto simp: call_step_def\<close>)

section \<open>The interface\<close>

locale halting =
  fixes ok :: "outside \<Rightarrow> bool" and barred :: "sys \<Rightarrow> bool" and at :: "u32 \<Rightarrow> bool"
  assumes deletes_none: "ok o' \<Longrightarrow> no_delete o'"
    and stays_barred: "reach h no_delete id_room s \<Longrightarrow> barred s \<Longrightarrow> dstep h ok s s' \<Longrightarrow> barred s'"
    and no_spawn: "barred s \<Longrightarrow> call_of s k = Some cl \<Longrightarrow> k_pc cl = LN_spawn kont \<Longrightarrow> \<not> at (k_pm cl)"
begin

lemma staffed_call:
  assumes bar: "barred s" "at i" and inv: "supervised s" and step: "call_step h k s = Some s'" and st: "staffed s' i t"
  shows "staffed s i t"
proof -
  obtain cl where cl: "call_of s k = Some cl" using step by (auto simp: call_step_def split: option.splits)
  have nd: "call_no_delete (k_pc cl)" using inv cl by (rule supervised_call)
  show ?thesis
  proof (cases "\<exists>kont. k_pc cl = LN_spawn kont")
    case True
    with no_spawn [OF bar(1) cl] bar(2) have "k_pm cl \<noteq> i" by auto
    with True step cl st show ?thesis
      by (auto simp: call_step_def ln_spawn_def spawn_sup_def new_ack_def staffed_def sys_facts Let_def
          split: option.splits if_splits)
  next
    case False
    show ?thesis
    proof (cases "pc_quiet (k_pc cl)")
      case True
      with call_step_quiet [OF step cl] st show ?thesis by (simp add: calls_quiet_def staffed_def)
    next
      case unquiet: False
      with False have "sys_mild s s'" using call_step_mild [OF step cl nd] by (cases "k_pc cl") auto
      with st show ?thesis by (auto simp: sys_mild_def intro: staffed_mild)
    qed
  qed
qed

lemma staffed_step:
  assumes bar: "barred s" "at i" and inv: "supervised s" and step: "dstep h ok s s'" and st: "staffed s' i t"
  shows "staffed s i t"
  using step
proof cases
  case (sup_moves t' ch)
  with inv st show ?thesis by (blast intro: staffed_sup_step)
next
  case (call_moves k)
  with bar inv st show ?thesis by (blast intro: staffed_call)
next
  case (child_exits t' u ch code)
  with st show ?thesis by (auto simp: staffed_def sys_facts split: if_splits)
next
  case (chore_moves c)
  with st show ?thesis by (simp add: staffed_def run_chore_frame [OF chore_moves])
next
  case (clock_moves n)
  with st show ?thesis by (simp add: staffed_def)
next
  case (outside_moves o')
  with st show ?thesis
    by (cases o') (auto simp: staffed_def new_call_def set_call_def sys_facts split: prod.splits)
qed

lemma stopping_step:
  assumes bar: "barred s" "at i" and inv: "supervised s" and owed: "stops_owed s" and below: "calls_below s"
    and step: "dstep h ok s s'" and call: "stopping_call s k i"
  shows "stopping_call s' k i"
proof -
  obtain cl where cl: "call_of s k = Some cl" "k_pm cl = i" "stop_knows s i (k_pc cl)"
    using call by (auto simp: stopping_call_def)
  note fewer = staffed_step [OF bar inv step]
  have "dstep h no_delete s s'" using step deletes_none by (rule dstep_mono)
  then have later: "stop_knows s i pc \<Longrightarrow> stop_knows s' i pc" for pc
    using settled_dstep [OF inv] fewer by (blast intro: stop_knows_fewer)
  have same: "stopping_call s' k i" if "call_of s' k = call_of s k"
    using that cl later by (auto simp: stopping_call_def)
  from step show ?thesis
  proof cases
    case (sup_moves t ch)
    then obtain u where u: "sup_of s t = Some u" by (auto simp: sup_step_def split: option.splits)
    show ?thesis using sup_step_frame [OF sup_moves u] by (intro same) (simp add: sup_frame_def)
  next
    case (call_moves k')
    show ?thesis
    proof (cases "k' = k")
      case False
      then show ?thesis using call_step_others [OF call_moves] by (intro same) auto
    next
      case True
      with call_moves have "call_step h k s = Some s'" by simp
      from stop_knows_step [OF inv owed this cl(1)] cl(2,3) fewer show ?thesis by (auto simp: stopping_call_def)
    qed
  next
    case (child_exits t u ch code)
    then show ?thesis by (intro same) (simp add: sys_facts)
  next
    case (chore_moves c)
    then show ?thesis by (intro same) (simp add: run_chore_frame)
  next
    case (clock_moves n)
    then show ?thesis by (intro same) simp
  next
    case (outside_moves o')
    have "k < y_next s" using below cl(1) by (auto simp: calls_below_def)
    then show ?thesis using outside_moves
      by (intro same; cases o') (auto simp: new_call_def set_call_def sys_facts split: prod.splits)
  qed
qed

lemma runs:
  assumes "run_moves h ok id_room mvs s = Some s'" "reach h no_delete id_room s" "barred s"
  shows "reach h no_delete id_room s' \<and> barred s' \<and> (\<forall>i t. at i \<longrightarrow> staffed s' i t \<longrightarrow> staffed s i t)
    \<and> (\<forall>k i. at i \<longrightarrow> stopping_call s k i \<longrightarrow> stopping_call s' k i)"
  using assms
proof (induction mvs arbitrary: s)
  case (Cons mv mvs)
  then obtain s1 where s1: "do_move h ok mv s = Some s1" "id_room s1" "run_moves h ok id_room mvs s1 = Some s'"
    by (auto split: option.splits if_splits)
  then have step: "dstep h ok s s1" using dstep_iff_do_move by blast
  note r = Cons.prems(2) and bar = Cons.prems(3)
  have inv: "supervised s" "stops_owed s" "calls_below s"
    using supervision_inv.holds [OF r] stops_inv.upper.holds [OF r] calls_inv.holds [OF r] by auto
  have "reach h no_delete id_room s1"
    using r dstep_mono [OF step deletes_none] s1(2) by (rule reach_step)
  with Cons.IH [OF s1(3)] stays_barred [OF r bar step] staffed_step [OF bar _ inv(1) step]
    stopping_step [OF bar _ inv step]
  show ?case by blast
qed simp

end

section \<open>Stops that are spawned together\<close>

lemma spawned_stops_reach:
  assumes "reach h no_delete id_room s"
  shows "reach h no_delete id_room (spawn_ops OpStop js s)"
  using reach_room [OF assms id_room_init]
  by (intro spawned_reach [OF assms]) (simp_all add: id_room_def new_op del: op_request.simps, simp)

context halting
begin

lemma joined_stops:
  assumes "run_moves h ok id_room mvs (spawn_ops OpStop js s) = Some s'"
    and "reach h no_delete id_room s" "barred (spawn_ops OpStop js s)"
    and "calls_joined (length js) s s'" "n < length js" "at (js ! n)"
  shows "call_of s' (y_next s + n) = Some \<lparr>k_pm = js ! n, k_pc = C_done (Inr [])\<rparr>
    \<and> (\<forall>t. \<not> staffed s' (js ! n) t) \<and> settled_row s' (js ! n)"
proof -
  have "stopping_call (spawn_ops OpStop js s) (y_next s + n) (js ! n)"
    using spawned(4) [OF assms(5), of OpStop s] by (simp add: stopping_call_def)
  with runs [OF assms(1) spawned_stops_reach [OF assms(2)] assms(3)] assms(6)
  have "stopping_call s' (y_next s + n) (js ! n)" by blast
  moreover obtain cl where cl: "call_of s' (y_next s + n) = Some cl" "is_done (k_pc cl)"
    using calls_joinedD [OF assms(4,5)] by blast
  ultimately show ?thesis by (cases cl; cases "k_pc cl") (auto simp: stopping_call_def)
qed

end

end
