(* ===== verification/Wellformed.thy ===== *)
theory Wellformed
  imports Daemon "HOL-Library.Multiset"
begin

text \<open>
  The process table in every run, deletions, resurrections and shutdowns included: its keys are distinct and every
  row is filed under the id it carries.  This is what \<open>resolve\<close>, \<open>snapshots\<close>, the sampler and \<open>scale\<close> take
  for granted when they move between keys and the ids inside rows.
\<close>

section \<open>Updates\<close>

named_theorems wf_rules \<open>what each update keeps of the table\<close>

abbreviation wf_ctx :: "ctx \<Rightarrow> bool" where
  "wf_ctx c \<equiv> wf_table (c_table c)"

lemma wf_row: "wf_ctx c \<Longrightarrow> row_of c i = Some p \<Longrightarrow> p_pm_id p = i"
  by (simp add: wf_table_def)

lemmas [wf_rules] = wf_with_row wf_put_row wf_del_row

lemma wf_set_dead [wf_rules]: "wf_ctx c \<Longrightarrow> wf_ctx (set_dead i st code c)"
  by (simp add: set_dead_def wf_with_row)

lemma wf_clear_cmd_tx [wf_rules]: "wf_ctx c \<Longrightarrow> wf_ctx (clear_cmd_tx i c)"
  by (simp add: clear_cmd_tx_def wf_with_row)

lemma wf_remove_row [wf_rules]: "wf_ctx c \<Longrightarrow> wf_ctx (remove_row i c)"
  by (simp add: remove_row_def remove_file_fold_table wf_del_row Let_def split: option.split)

lemma wf_cron_register [wf_rules]: "wf_ctx c \<Longrightarrow> wf_ctx (cron_register h i n c)"
  using wf_row by (auto simp: cron_register_def intro!: wf_put_row split: option.split)

lemma wf_health_register [wf_rules]: "wf_ctx c \<Longrightarrow> wf_ctx (health_register i n c)"
  using wf_row by (auto simp: health_register_def intro!: wf_put_row split: option.split)

lemma wf_insert_row [wf_rules]: "wf_table t \<Longrightarrow> wf_table (insert_row ev now pm inst app t)"
  by (simp add: insert_row_def wf_table_put)

lemma wf_alloc [wf_rules]: "wf_table t \<Longrightarrow> alloc_id t = (i, t') \<Longrightarrow> wf_table t'"
  using wf_alloc_id [of t] by simp

section \<open>Steps\<close>

lemma wf_sup_step:
  assumes step: "sup_step h t ch s = Some s'" and wf: "wf_ctx (y_ctx s)"
  shows "wf_ctx (y_ctx s')"
proof -
  obtain u where u: "sup_of s t = Some u" using step by (auto simp: sup_step_def split: option.splits)
  show ?thesis using step u wf wf_row [OF wf]
    by (cases "u_pc u")
      (auto simp: sup_step_def sup_ops sys_facts wf_rules Let_def go_online_def restart_row_def reset_state_def auto_restart_row_def
        elim!: goE
        split: option.splits choice.splits sup_cmd.splits list.splits if_splits restart_decision.splits sum.splits)
qed

lemma wf_call_step:
  assumes step: "call_step h k s = Some s'" and wf: "wf_ctx (y_ctx s)"
  shows "wf_ctx (y_ctx s')"
proof -
  obtain cl where cl: "call_of s k = Some cl" using step by (auto simp: call_step_def split: option.splits)
  show ?thesis
  proof (cases "k_pc cl")
    case (SA_row app fixed n ids)
    with step cl have "s' = sa_row h k cl app fixed n ids s" by (simp add: call_step_def)
    then show ?thesis using wf
      by (auto simp: sa_row_def sys_facts wf_rules Let_def split: option.split prod.split)
  qed (use step cl wf wf_row [OF wf] in \<open>auto simp: call_step_def call_ops dl_lock_def dl_wait_def dl_remove_def dl_unwatch_def
      ln_spawn_def spawn_sup_def send_step_def send_cmd_def new_ack_def normalize_def reset_state_def sys_facts wf_rules Let_def
      split: option.splits if_splits ack.splits launch_cont.splits sum.splits prod.splits\<close>)
qed

text \<open>Chores keep the keys in their places.\<close>

lemma keys_sample: "map fst (procs (c_table (snd (sample force now gap raced probe c)))) = map fst (procs (c_table c))"
  by (auto simp: sample_def Let_def comp_def case_prod_beta)

lemma good_reset: "hm_good (procs (c_table c)) \<Longrightarrow> hm_good (procs (c_table (reset_rows now ids c)))"
  unfolding reset_rows_def
  by (induction ids arbitrary: c) (auto simp: with_row_def put_row_def split: option.split)

lemma table_truncate: "c_table (fold (truncate_file opens) fs c) = c_table c"
  by (induction fs arbitrary: c) (auto simp: truncate_file_def)

lemma table_save: "c_table (snd (save cd ev fails c)) = c_table c"
  by (auto simp: save_def Let_def split: option.split prod.split)

lemma good_sample: "hm_good (procs (c_table (snd (sample force now gap raced probe c)))) = hm_good (procs (c_table c))"
  by (simp add: hm_good_def keys_sample)

lemma good_dispatch:
  assumes "on_the_spot m" "hm_good (procs (c_table c))"
  shows "hm_good (procs (c_table (snd (fst (dispatch e m c)))))"
proof (cases m)
  case M_save
  then show ?thesis using assms(2) table_save [of "re_codec e" "re_vars e" "re_fails e" c]
    by (auto simp: dispatch_def split: sum.split prod.split)
qed (use assms in \<open>auto simp: dispatch_def Let_def on_target_def shown_def fresh_sample_def good_sample good_reset table_truncate
      split: sum.split option.split\<close>)

lemma good_chore:
  assumes "do_chore ch now c = Some (c', sigs)" "hm_good (procs (c_table c))"
  shows "hm_good (procs (c_table c'))"
proof (cases ch)
  case (ChRequest e m)
  with assms good_dispatch [of m c "e\<lparr>re_now := now\<rparr>"] show ?thesis
    by (auto split: if_splits prod.splits)
next
  case (ChTick ev tty can_rename can_open gap probe)
  have "hm_good (procs (c_table (snd (worker_tick ev tty can_rename can_open now gap probe c))))"
    using assms(2) good_sample [of True now gap False probe c]
    by (auto simp: worker_tick_def split: prod.split)
  with ChTick assms show ?thesis by auto
qed (use assms in \<open>auto simp: publish_def\<close>)

lemma wf_chore:
  assumes "run_chore ch s = Some s'" "wf_ctx (y_ctx s)"
  shows "wf_ctx (y_ctx s')"
proof -
  obtain c' sigs where c': "do_chore ch (y_now s) (y_ctx s) = Some (c', sigs)" "y_ctx s' = c'"
    using assms(1) by (auto simp: run_chore_def split: option.splits)
  have "p_pm_id p = i" if "row s' i = Some p" for i p
    using table_kept_row(2) [OF run_chore_frame(1) [OF assms(1)] that] wf_row [OF assms(2)]
    by (auto simp: row_kept_def)
  moreover have "hm_good (procs (c_table c'))"
    using good_chore [OF c'(1)] assms(2) by (simp add: wf_table_def)
  ultimately show ?thesis using c'(2) by (simp add: wf_table_def)
qed

lemma wf_dstep:
  assumes wf: "wf_ctx (y_ctx s)" and step: "dstep h ok s s'"
  shows "wf_ctx (y_ctx s')"
  using step
proof cases
  case (outside_moves o')
  with wf show ?thesis by (cases o') (auto simp: new_call_def set_call_def sys_facts publish_def split: prod.split)
qed (use wf wf_sup_step wf_call_step wf_chore in \<open>auto simp: sys_facts\<close>)

interpretation table_inv: run_invariant ok room "\<lambda>s. wf_ctx (y_ctx s)" for ok room
  by unfold_locales (auto intro: wf_dstep simp: sys_init_def ctx_default_def)

section \<open>Targets and snapshots\<close>

lemma resolved_rows:
  assumes "wf_ctx c" "resolve c tg = Inr ids"
  shows "sorted ids" "\<And>i. i \<in> set ids \<Longrightarrow> row_of c i \<noteq> None"
proof -
  have ids: "ids = table_resolve (c_table c) tg"
    using assms(2) by (cases tg) (auto simp: resolve_def Let_def split: if_splits)
  then show "sorted ids" by (simp add: sorted_table_resolve)
  show "row_of c i \<noteq> None" if "i \<in> set ids" for i
    using that set_table_resolve [OF assms(1)] by (auto simp: ids)
qed

lemma snapshots_of_rows:
  assumes "wf_ctx c" "sorted ids" "\<And>i. i \<in> set ids \<Longrightarrow> row_of c i \<noteq> None"
  shows "snapshots c ids we = map (\<lambda>i. snapshot_of we (the (row_of c i))) ids"
    and "map s_pm_id (snapshots c ids we) = ids"
proof -
  have rows: "List.map_filter (row_of c) ids = map (\<lambda>i. the (row_of c i)) ids"
    using assms(3)
  proof (induction ids)
    case (Cons i ids)
    then obtain p where "row_of c i = Some p" by auto
    with Cons show ?case by simp
  qed simp
  have key: "s_pm_id (snapshot_of we (the (row_of c i))) = i" if "i \<in> set ids" for i
    using assms(3) [OF that] wf_row [OF assms(1)] by (auto simp: snapshot_of_def)
  then have keys: "map s_pm_id (map (\<lambda>i. snapshot_of we (the (row_of c i))) ids) = ids"
    by (simp add: map_idI)
  then show s: "snapshots c ids we = map (\<lambda>i. snapshot_of we (the (row_of c i))) ids"
    using assms(2) sort_key_id_if_sorted [of s_pm_id "map (\<lambda>i. snapshot_of we (the (row_of c i))) ids"]
    by (simp add: snapshots_def rows comp_def)
  show "map s_pm_id (snapshots c ids we) = ids" using keys by (simp add: s)
qed

section \<open>Properties\<close>

lemma listed_rows:
  assumes "wf_ctx c"
  shows "q \<in> set (all_snapshots c) \<longleftrightarrow> (\<exists>i p. row_of c i = Some p \<and> q = snapshot_of False p)"
proof -
  have good: "distinct (map fst (procs (c_table c)))" using assms by (simp add: wf_table_def hm_good_def)
  then have rows: "snd ` set (procs (c_table c)) = {p. \<exists>i. row_of c i = Some p}"
    by (force simp: hm_get_def image_iff)
  have "set (all_snapshots c) = snapshot_of False ` snd ` set (procs (c_table c))"
    by (simp only: all_snapshots_def hm_rows_def set_sort set_map)
  then show ?thesis unfolding rows by auto
qed

text \<open>C20: In every run, whatever is started, stopped, restarted, deleted, restored or scaled in whatever
  order, the list request shows each process of the table exactly once, by ascending id, as its row is,
  and nothing else.\<close>
theorem list_shows_each_process_once:
  assumes "reach h ok room s"
  shows "sorted (map s_pm_id (all_snapshots (y_ctx s))) \<and> distinct (map s_pm_id (all_snapshots (y_ctx s)))
    \<and> (\<forall>q. q \<in> set (all_snapshots (y_ctx s)) \<longleftrightarrow> (\<exists>p. row s (s_pm_id q) = Some p \<and> q = snapshot_of False p))"
proof -
  let ?c = "y_ctx s"
  have wf: "wf_ctx ?c" using assms by (rule table_inv.holds)
  then have good: "distinct (map fst (procs (c_table ?c)))" by (simp add: wf_table_def hm_good_def)
  have "p_pm_id (snd r) = fst r" if "r \<in> set (procs (c_table ?c))" for r
    using that wf_row [OF wf, of "fst r" "snd r"] good by (simp add: hm_get_def)
  then have ids: "map p_pm_id (map snd (procs (c_table ?c))) = map fst (procs (c_table ?c))" by simp
  have "mset (map s_pm_id (all_snapshots ?c)) = mset (map fst (procs (c_table ?c)))"
    unfolding ids [symmetric] by (simp add: all_snapshots_def hm_rows_def snapshot_of_def image_mset.compositionality comp_def)
  from mset_eq_imp_distinct_iff [OF this] good have "distinct (map s_pm_id (all_snapshots ?c))" by blast
  moreover have "sorted (map s_pm_id (all_snapshots ?c))" by (simp add: all_snapshots_def)
  moreover have "q \<in> set (all_snapshots ?c) \<longleftrightarrow> (\<exists>p. row s (s_pm_id q) = Some p \<and> q = snapshot_of False p)" for q
  proof -
    have "s_pm_id (snapshot_of False p) = i" if "row s i = Some p" for i p
      using wf_row [OF wf that] by (simp add: snapshot_of_def)
    then show ?thesis unfolding listed_rows [OF wf] by metis
  qed
  ultimately show ?thesis by blast
qed

text \<open>Two processes are started, the first is deleted.\<close>

definition churn :: "move list" where
  "churn =
     MOut (OReq (RqStart ((app_new ''/srv/a.sh'')\<lparr>ac_autostart := False\<rparr>) None)) # replicate 6 (MCall 0)
     @ MOut (OReq (RqStart ((app_new ''/srv/b.sh'')\<lparr>ac_autostart := False\<rparr>) None)) # replicate 6 (MCall 3)
     @ MOut (OReq (RqDelete 0)) # replicate 3 (MCall 6)"

lemma list_shows_each_process_once_witness:
  "\<exists>s. run_moves sample_host (\<lambda>_. True) (\<lambda>_. True) churn sys_init = Some s
    \<and> row s 0 = None \<and> (\<exists>q. q \<in> set (all_snapshots (y_ctx s)) \<and> s_pm_id q = 1)"
proof -
  have "case run_moves sample_host (\<lambda>_. True) (\<lambda>_. True) churn sys_init of
      Some s \<Rightarrow> row s 0 = None \<and> row_shows s 1 (\<lambda>_. True) | None \<Rightarrow> False" by code_simp
  then obtain s p where s: "run_moves sample_host (\<lambda>_. True) (\<lambda>_. True) churn sys_init = Some s" "row s 0 = None"
      "row s 1 = Some p" by (auto elim: row_showsE split: option.splits)
  have r: "reach sample_host (\<lambda>_. True) (\<lambda>_. True) s" using s(1) by (rule run_reach)
  have "p_pm_id p = 1" using wf_row [OF table_inv.holds [OF r] s(3)] .
  with list_shows_each_process_once [OF r] s(3) have "snapshot_of False p \<in> set (all_snapshots (y_ctx s))"
    by (simp add: snapshot_of_def)
  with s(1,2) \<open>p_pm_id p = 1\<close> show ?thesis by (auto simp: snapshot_of_def)
qed

end
