(* ===== verification/Awaited.thy ===== *)
theory Awaited
  imports Halting Wellformed
begin

text \<open>
  A \<open>stop\<close> request from the wire to the processes and back: \<open>dispatch\<close> resolves the target, spawns one
  \<open>stop_one\<close> per id, waits for all of them while the daemon goes on, and answers with the rows as they are
  then.  The daemon in between is the transition system of \<open>Daemon\<close>; what \<open>dispatch\<close> waits for is what the
  stops have become in it.
\<close>

section \<open>Nothing starts these processes\<close>

definition may_launch :: "call \<Rightarrow> u32 \<Rightarrow> bool" where
  "may_launch cl i = (works_on cl i \<and> k_pc cl \<noteq> ST_watch \<and> k_pc cl \<noteq> ST_lock \<and> \<not> stop_pc (k_pc cl))"

definition no_launch_for :: "u32 list \<Rightarrow> sys \<Rightarrow> bool" where
  "no_launch_for ids s = list_all (\<lambda>(k, cl). list_all (\<lambda>i. \<not> may_launch cl i) ids) (y_calls s)"

text \<open>Requests that may come in meanwhile.\<close>

fun leaves_down :: "u32 list \<Rightarrow> outside \<Rightarrow> bool" where
  "leaves_down ids (OReq (RqRestart pm)) = (pm \<notin> set ids)"
| "leaves_down ids o' = no_delete o'"

definition unlaunched :: "u32 list \<Rightarrow> sys \<Rightarrow> bool" where
  "unlaunched ids s =
     ((\<forall>i \<in> set ids. row s i \<noteq> None) \<and> (\<forall>k cl. call_of s k = Some cl \<longrightarrow> (\<forall>i \<in> set ids. \<not> may_launch cl i)))"

lemma unlaunched_row: "unlaunched ids s \<Longrightarrow> i \<in> set ids \<Longrightarrow> row s i \<noteq> None"
  by (simp add: unlaunched_def)

lemma unlaunched_call: "unlaunched ids s \<Longrightarrow> call_of s k = Some cl \<Longrightarrow> i \<in> set ids \<Longrightarrow> \<not> may_launch cl i"
  unfolding unlaunched_def by blast

lemma unlaunchedI:
  assumes "\<And>i. i \<in> set ids \<Longrightarrow> row s i \<noteq> None"
    and "\<And>k cl i. call_of s k = Some cl \<Longrightarrow> i \<in> set ids \<Longrightarrow> \<not> may_launch cl i"
  shows "unlaunched ids s"
  using assms unfolding unlaunched_def by blast

lemma leaves_down_no_delete: "leaves_down ids o' \<Longrightarrow> no_delete o'"
  by (cases "(ids, o')" rule: leaves_down.cases) auto

lemma sup_step_row_stays:
  assumes inv: "supervised s" and step: "sup_step h t ch s = Some s'" and row: "row s i \<noteq> None"
  shows "row s' i \<noteq> None"
proof -
  obtain u where u: "sup_of s t = Some u" using step by (auto simp: sup_step_def split: option.splits)
  note nd = supervised_sup(2) [OF inv u] and serves = supervised_sup(3) [OF inv u]
  show ?thesis
  proof (cases "u_pm u = i \<and> \<not> retired u")
    case True
    with serves obtain p where "row s (u_pm u) = Some p" "p_cmd_tx p = Some t" "agrees u p"
      by (auto simp: sup_serves_def)
    with True sup_local [OF step u] nd
    have "still_serves t (u_pm u) s' \<or> has_left t (u_pm u) s' \<or> left_behind t (u_pm u) s'" by blast
    with True show ?thesis by (auto simp: still_serves_def has_left_def left_behind_def)
  next
    case False
    then have "row s' i = row s i"
      using sup_step_frame [OF step u] retired_local [OF step u _ nd] by (auto simp: sup_frame_def)
    with row show ?thesis by simp
  qed
qed

text \<open>A stop works on its row only, and goes on to be a stop until it returns.\<close>

lemma stop_goes_on:
  assumes step: "call_step h k s = Some s'" and cl: "call_of s k = Some cl"
    and stop: "k_pc cl = ST_watch \<or> k_pc cl = ST_lock \<or> stop_pc (k_pc cl)"
  shows "(\<forall>cl'. call_of s' k = Some cl' \<longrightarrow> \<not> may_launch cl' i) \<and> (row s i \<noteq> None \<longrightarrow> row s' i \<noteq> None)"
  using assms
  by (cases "k_pc cl")
    (auto simp: call_step_def st_watch_def st_lock_def st_wait_def st_norm_def send_step_def send_cmd_def new_ack_def
      may_launch_def works_on_def sys_facts split: option.splits if_splits)

lemma unlaunched_call_step:
  assumes un: "unlaunched ids s" and inv: "supervised s" and room: "id_room s" and step: "call_step h k s = Some s'"
  shows "unlaunched ids s'"
proof -
  obtain cl where cl: "call_of s k = Some cl" using step by (auto simp: call_step_def split: option.splits)
  have each: "row s' i \<noteq> None \<and> (\<forall>cl'. call_of s' k = Some cl' \<longrightarrow> \<not> may_launch cl' i)" if i: "i \<in> set ids" for i
  proof (cases "works_on cl i")
    case True
    with unlaunched_call [OF un cl i] have "k_pc cl = ST_watch \<or> k_pc cl = ST_lock \<or> stop_pc (k_pc cl)"
      by (auto simp: may_launch_def)
    from stop_goes_on [OF step cl this, of i] unlaunched_row [OF un i] show ?thesis by blast
  next
    case False
    from call_step_idle [OF inv room step cl False unlaunched_row [OF un i]] unlaunched_row [OF un i]
    show ?thesis by (auto simp: may_launch_def)
  qed
  show ?thesis
  proof (rule unlaunchedI)
    fix k' cl' i assume k': "call_of s' k' = Some cl'" "i \<in> set ids"
    show "\<not> may_launch cl' i"
    proof (cases "k' = k")
      case True
      with each [OF k'(2)] k'(1) show ?thesis by blast
    next
      case False
      with call_step_others [OF step False] k' unlaunched_call [OF un _ k'(2)] show ?thesis by auto
    qed
  qed (use each in blast)
qed

lemma unlaunched_dstep:
  assumes un: "unlaunched ids s" and inv: "supervised s" and room: "id_room s" and step: "dstep h (leaves_down ids) s s'"
  shows "unlaunched ids s'"
  using step
proof cases
  case (sup_moves t ch)
  then obtain u where u: "sup_of s t = Some u" by (auto simp: sup_step_def split: option.splits)
  then have "y_calls s' = y_calls s" using sup_step_frame [OF sup_moves u] by (simp add: sup_frame_def)
  with un sup_step_row_stays [OF inv sup_moves] show ?thesis by (simp add: unlaunched_def)
next
  case (call_moves k)
  with un inv room show ?thesis by (blast intro: unlaunched_call_step)
next
  case (child_exits t u ch code)
  with un show ?thesis by (simp add: unlaunched_def sys_facts)
next
  case (chore_moves c)
  have "row s' i \<noteq> None" if "row s i \<noteq> None" for i
    using that table_kept_row(1) [OF run_chore_frame(1) [OF chore_moves]] by blast
  with un show ?thesis by (simp add: unlaunched_def run_chore_frame [OF chore_moves])
next
  case (clock_moves n)
  with un show ?thesis by (simp add: unlaunched_def)
next
  case (outside_moves o')
  show ?thesis
  proof (cases o')
    case (OReq rq)
    have new: "\<not> may_launch \<lparr>k_pm = fst (first_pc rq), k_pc = snd (first_pc rq)\<rparr> i" if "i \<in> set ids" for i
      using outside_moves(2) that unfolding OReq by (cases rq) (auto simp: may_launch_def works_on_def)
    have calls: "call_of s' k = (if k = y_next s then Some \<lparr>k_pm = fst (first_pc rq), k_pc = snd (first_pc rq)\<rparr> else call_of s k)"
      and ctx: "y_ctx s' = y_ctx s" for k
      using outside_moves OReq by (auto simp: new_call_def set_call_def split: prod.split)
    show ?thesis
    proof (rule unlaunchedI)
      show "\<not> may_launch cl i" if "call_of s' k = Some cl" "i \<in> set ids" for k cl i
        using that new unlaunched_call [OF un] by (auto simp: calls split: if_splits)
    qed (use un ctx in \<open>simp add: unlaunched_row\<close>)
  next
    case OShutdown
    with un outside_moves show ?thesis by (simp add: unlaunched_def sys_facts publish_def)
  qed
qed

interpretation spared: halting "leaves_down ids" "unlaunched ids" "\<lambda>i. i \<in> set ids" for ids
proof (unfold_locales, goal_cases)
  case (1 o')
  then show ?case by (rule leaves_down_no_delete)
next
  case (2 h s s')
  then show ?case using supervision_inv.holds reach_room id_room_init by (blast intro: unlaunched_dstep)
next
  case (3 s k cl kont)
  with unlaunched_call [OF 3(1,2)] show ?case by (auto simp: may_launch_def works_on_def)
qed

lemma unlaunched_spawned:
  assumes r: "reach h no_delete id_room s" and rows: "\<And>i. i \<in> set ids \<Longrightarrow> row s i \<noteq> None" and free: "no_launch_for ids s"
  shows "unlaunched ids (spawn_ops OpStop ids s)"
proof (rule unlaunchedI)
  show "row (spawn_ops OpStop ids s) i \<noteq> None" if "i \<in> set ids" for i
    using rows [OF that] by (simp add: spawned)
  show "\<not> may_launch cl i" if cl: "call_of (spawn_ops OpStop ids s) k = Some cl" "i \<in> set ids" for k cl i
    using spawned_calls [OF calls_inv.holds [OF r] cl(1)]
  proof
    assume "call_of s k = Some cl"
    with free cl(2) show ?thesis by (auto simp: no_launch_for_def list_all_iff hm_get_def dest!: map_of_SomeD)
  qed (simp add: may_launch_def)
qed

section \<open>The reply\<close>

lemma unstaffed_row:
  assumes r: "reach h no_delete id_room s" and row: "row s i = Some p" and none: "\<And>t. \<not> staffed s i t" and set: "settled_row s i"
  shows "p_pid p = 0 \<and> (c_shutting_down (y_ctx s) \<or> p_status p \<in> {Stopped, Errored})"
proof (cases "p_cmd_tx p")
  case None
  with reach_row_served [OF r row] row set show ?thesis by (auto simp: row_served_def at_rest_def settled_row_def)
next
  case (Some t)
  with reach_row_served [OF r row] none show ?thesis by (auto simp: row_served_def staffed_def)
qed

section \<open>Properties\<close>

text \<open>C2: The reply to a stop request tells the truth: it lists exactly the processes the target named, by
  ascending id, each without a pid and stopped or errored (at a shutdown a row may keep its last
  status), and no supervisor of them owns a child, whatever else ran while the request was
  served, provided no start or restart of one of them was under way or came in.  The run is one without deletions,
  before and meanwhile, whose ids stay below \<open>u32::MAX\<close>.\<close>
theorem stop_reply_shows_them_down:
  assumes "reach h no_delete id_room s" "resolve (y_ctx s) tg = Inr ids" "no_launch_for ids s"
    and "run_moves h (leaves_down ids) id_room mvs (spawn_ops OpStop ids s) = Some s'" "calls_joined (length ids) s s'"
  shows "\<exists>ps. fst (dispatch (awaiting e s s') (M_stop tg) (y_ctx s)) = (Inr (V_snapshots ps), y_ctx s')
    \<and> map s_pm_id ps = ids
    \<and> (\<forall>q \<in> set ps. s_pid q = 0 \<and> (c_shutting_down (y_ctx s') \<or> s_status q \<in> {Stopped, Errored}))
    \<and> (\<forall>t u. sup_of s' t = Some u \<and> u_pm u \<in> set ids \<longrightarrow> u_child u = None)"
proof -
  note r = assms(1) and run = assms(4)
  have named: "sorted ids" "\<And>i. i \<in> set ids \<Longrightarrow> row s i \<noteq> None"
    using resolved_rows [OF table_inv.holds [OF r] assms(2)] by blast+
  have un: "unlaunched ids (spawn_ops OpStop ids s)" using r named(2) assms(3) by (rule unlaunched_spawned)
  have r': "reach h no_delete id_room s'" and un': "unlaunched ids s'"
    using spared.runs [OF run spawned_stops_reach [OF r] un] by blast+
  have rows: "\<And>i. i \<in> set ids \<Longrightarrow> row s' i \<noteq> None" using un' by (rule unlaunched_row)
  have wf: "wf_ctx (y_ctx s')" using r' by (rule table_inv.holds)
  have stopped: "call_of s' (y_next s + n) = Some \<lparr>k_pm = ids ! n, k_pc = C_done (Inr [])\<rparr>
      \<and> (\<forall>t. \<not> staffed s' (ids ! n) t) \<and> settled_row s' (ids ! n)" if "n < length ids" for n
    using spared.joined_stops [OF run r un assms(5) that] that by simp
  then have joined: "run_each (awaiting e s s') OpStop ids (y_ctx s) = (Inr (), y_ctx s')"
    by (intro run_each_awaiting) fastforce
  have down: "(\<forall>t. \<not> staffed s' i t) \<and> settled_row s' i" if "i \<in> set ids" for i
    using that stopped by (auto simp: in_set_conv_nth)
  let ?ps = "snapshots (y_ctx s') ids False"
  have "fst (dispatch (awaiting e s s') (M_stop tg) (y_ctx s)) = (Inr (V_snapshots ?ps), y_ctx s')"
    using joined by (simp add: dispatch_def on_target_def assms(2) shown_def)
  moreover have "map s_pm_id ?ps = ids" using wf named(1) rows by (rule snapshots_of_rows)
  moreover have "s_pid q = 0 \<and> (c_shutting_down (y_ctx s') \<or> s_status q \<in> {Stopped, Errored})" if q: "q \<in> set ?ps" for q
  proof -
    have "q \<in> set (map (\<lambda>i. snapshot_of False (the (row s' i))) ids)"
      using q snapshots_of_rows(1) [OF wf named(1) rows, of False] by simp
    then obtain i where "i \<in> set ids" "q = snapshot_of False (the (row s' i))" by auto
    moreover from this rows obtain p where "row s' i = Some p" by blast
    ultimately have i: "i \<in> set ids" "row s' i = Some p" "q = snapshot_of False p" by simp_all
    with unstaffed_row [OF r' i(2)] down show ?thesis by (auto simp: snapshot_of_def)
  qed
  moreover have "u_child u = None" if u: "sup_of s' t = Some u" "u_pm u \<in> set ids" for t u
  proof -
    have "retired u" using down [OF u(2)] u(1) by (auto simp: staffed_def)
    with reach_sup_serves [OF r' u(1)] show ?thesis by (simp add: sup_serves_def)
  qed
  ultimately show ?thesis by blast
qed

text \<open>Process 0 is online and its start has returned.  While it is being stopped another application is started.\<close>

abbreviation sample_running :: sys where
  "sample_running \<equiv> sample_state (start_moves @ replicate 4 (MCall 0))"

definition meanwhile :: "move list" where
  "meanwhile =
     MOut (OReq (RqStart (app_new ''/srv/b.sh'') None)) # replicate 3 (MCall 5)
     @ [MSup 4 ChCmd, MCall 6, MSup 4 ChGo, MSup 4 ChGo, MCall 6, MExit 4 (Some 0), MSup 4 ChExit, MCall 6, MSup 4 ChGo]
     @ [MSup 4 ChGo, MSup 4 ChGo, MCall 5, MCall 5]"

lemma stop_reply_shows_them_down_witness:
  "\<exists>s' ps. run_moves sample_host (leaves_down [0]) id_room meanwhile (spawn_ops OpStop [0] sample_running) = Some s'
    \<and> fst (dispatch (awaiting sample_rpc sample_running s') (M_stop All) (y_ctx sample_running))
      = (Inr (V_snapshots ps), y_ctx s')
    \<and> map s_pm_id ps = [0] \<and> row s' 1 \<noteq> None"
proof -
  have named: "resolve (y_ctx sample_running) All = Inr [0]" by code_simp
  have free: "no_launch_for [0] sample_running" by code_simp
  have "case run_moves sample_host (leaves_down [0]) id_room meanwhile (spawn_ops OpStop [0] sample_running) of
      Some s' \<Rightarrow> calls_joined (length [0 :: u32]) sample_running s' \<and> row_shows s' 1 (\<lambda>_. True) | None \<Rightarrow> False" by code_simp
  then obtain s' where s': "run_moves sample_host (leaves_down [0]) id_room meanwhile (spawn_ops OpStop [0] sample_running) = Some s'"
      "calls_joined (length [0 :: u32]) sample_running s'" "row s' 1 \<noteq> None" by (auto elim: row_showsE split: option.splits)
  from stop_reply_shows_them_down [OF sample_reach named free s'(1,2), of sample_rpc]
  obtain ps where "fst (dispatch (awaiting sample_rpc sample_running s') (M_stop All) (y_ctx sample_running))
      = (Inr (V_snapshots ps), y_ctx s')" "map s_pm_id ps = [0]" by metis
  with s'(1,3) show ?thesis by metis
qed

end
