(* ===== verification/Removal.thy ===== *)
theory Removal
  imports Joined Deletion Wellformed Quiet
begin

text \<open>
  What a delete promises, in every run: when \<open>delete_one\<close> has returned the process's row is gone, whether the
  supervisor removed it, the operation itself, or somebody else, and it stays gone unless a start is given
  its id.  For the wire: a delete request removes exactly what its target named, and answers with what was there.
\<close>

section \<open>A channel leads to a supervisor of its row\<close>

definition tx_right :: "sys \<Rightarrow> bool" where
  "tx_right s = (\<forall>i p t u. row s i = Some p \<longrightarrow> p_cmd_tx p = Some t \<longrightarrow> sup_of s t = Some u \<longrightarrow> u_pm u = i)"

text \<open>A supervisor that is older than a step was there before it, for the same id.\<close>

lemma old_sup:
  assumes step: "dstep h ok s s'" and u': "sup_of s' t = Some u'" "t < y_next s"
  shows "\<exists>u. sup_of s t = Some u \<and> u_pm u' = u_pm u"
proof -
  have loose: ?thesis if "sys_loose s s'" using looseD(2) [OF that u'(1)] by blast
  show ?thesis
    using step
  proof cases
    case (sup_moves t0 ch)
    then obtain u where u: "sup_of s t0 = Some u" by (auto simp: sup_step_def split: option.splits)
    show ?thesis
    proof (cases "t = t0")
      case True
      with sup_step_loose_sup [OF sup_moves u] u u' show ?thesis by blast
    next
      case False
      with sup_step_frame [OF sup_moves u] u' show ?thesis by (auto simp: sup_frame_def)
    qed
  next
    case (call_moves k)
    then obtain cl where cl: "call_of s k = Some cl" by (auto simp: call_step_def split: option.splits)
    consider (spawn) kont where "k_pc cl = LN_spawn kont" | (row) app fixed n ids where "k_pc cl = SA_row app fixed n ids"
      | (loose) "\<forall>kont. k_pc cl \<noteq> LN_spawn kont" "\<forall>app fixed n ids. k_pc cl \<noteq> SA_row app fixed n ids" by blast
    then show ?thesis
    proof cases
      case loose
      with call_step_loose [OF call_moves cl] show ?thesis by (intro \<open>sys_loose s s' \<Longrightarrow> _\<close>)
    next
      case (spawn kont)
      with call_moves cl u' show ?thesis
        by (auto simp: call_step_def ln_spawn_def new_ack_def spawn_sup_def sys_facts Let_def split: option.splits if_splits)
    next
      case (row app fixed n ids)
      then have "s' = sa_row h k cl app fixed n ids s" using call_moves cl by (simp add: call_step_def)
      from sa_row_takes [OF this] u' \<open>sys_loose s s' \<Longrightarrow> _\<close> show ?thesis
        by (cases "takes_id (c_table (y_ctx s)) (SA_row app fixed n ids)") auto
    qed
  next
    case (child_exits t u ch code)
    with u' show ?thesis by (auto simp: sys_facts split: if_splits)
  next
    case (chore_moves c)
    with u' show ?thesis by (simp add: run_chore_frame)
  next
    case (clock_moves n)
    with u' show ?thesis by simp
  next
    case (outside_moves o')
    with u' show ?thesis by (cases o') (auto simp: new_call_def set_call_def sys_facts split: prod.splits)
  qed
qed

lemma tx_right_dstep:
  assumes inv: "tx_right s" and below: "tx_below s" and step: "dstep h ok s s'"
  shows "tx_right s'"
proof -
  have old: "u_pm u' = i" if "row s i = Some p" "p_cmd_tx p = Some t" "sup_of s' t = Some u'" for i p t u'
  proof -
    have "t < y_next s" using below that(1,2) by (auto simp: tx_below_def)
    from old_sup [OF step that(3) this] inv that(1,2) show ?thesis by (auto simp: tx_right_def)
  qed
  have "u_pm u' = i" if new: "row s' i = Some p" "p_cmd_tx p = Some t" "sup_of s' t = Some u'" for i p t u'
    using step
  proof cases
    case (sup_moves t0 ch)
    from sup_step_tx [OF this new(1,2)] old new(3) show ?thesis by blast
  next
    case (call_moves k)
    then obtain cl where cl: "call_of s k = Some cl" by (auto simp: call_step_def split: option.splits)
    show ?thesis
    proof (cases "\<exists>kont. k_pc cl = LN_spawn kont")
      case False
      with call_step_tx [OF call_moves cl _ new(1,2)] old new(3) show ?thesis by blast
    next
      case True
      then obtain kont where kont: "k_pc cl = LN_spawn kont" by blast
      from launch_tx [OF call_moves cl this new(1,2)] show ?thesis
      proof
        assume "i = k_pm cl \<and> t = Suc (y_next s) \<and> t < y_next s'"
        with call_moves cl kont new(3) below show ?thesis
          by (auto simp: call_step_def ln_spawn_def new_ack_def spawn_sup_def sys_facts Let_def split: option.splits if_splits)
      qed (use old new(3) in blast)
    qed
  next
    case (child_exits t u ch code)
    with old new show ?thesis by (simp add: sys_facts)
  next
    case (chore_moves c)
    obtain q where q: "row s i = Some q" "row_kept q p"
      using table_kept_row(2) [OF run_chore_frame(1) [OF chore_moves] new(1)] by blast
    then have "p_cmd_tx q = Some t" using new(2) by (simp add: row_kept_def)
    with q(1) old new(3) show ?thesis by blast
  next
    case (clock_moves n)
    with old new show ?thesis by simp
  next
    case (outside_moves o')
    with old new show ?thesis
      by (cases o') (auto simp: new_call_def set_call_def sys_facts publish_def split: prod.splits)
  qed
  then show ?thesis unfolding tx_right_def by blast
qed

lemma tx_right_init: "tx_right sys_init"
  by (simp add: tx_right_def sys_init_def)

interpretation channel_inv: layered_invariant ok room stops_owed tx_right for ok room
proof (unfold_locales, goal_cases)
  case (2 h s s')
  then have "tx_below s" unfolding stops_owed_def tx_below_def by blast
  with 2 show ?case by (blast intro: tx_right_dstep)
qed (rule tx_right_init)

section \<open>Rows come only from starts\<close>

definition untaken :: "u32 \<Rightarrow> sys \<Rightarrow> bool" where
  "untaken i s = list_all (\<lambda>k. case call_of s k of
     Some cl \<Rightarrow> takes_id (c_table (y_ctx s)) (k_pc cl) \<noteq> Some i | None \<Rightarrow> True) (map fst (y_calls s))"

lemma untakenD: "untaken i s \<Longrightarrow> call_of s k = Some cl \<Longrightarrow> takes_id (c_table (y_ctx s)) (k_pc cl) \<noteq> Some i"
  unfolding untaken_def list_all_entries by blast

lemma sup_step_no_row:
  assumes "sup_step h t ch s = Some s'" "sup_of s t = Some u" "row s (u_pm u) = None"
  shows "row s' (u_pm u) = None"
  using assms
  by (cases "u_pc u")
    (auto simp: sup_step_def sup_ops sys_facts Let_def elim!: goE
      split: option.splits choice.splits sup_cmd.splits list.splits if_splits restart_decision.splits sum.splits)

lemma call_step_no_row:
  assumes step: "call_step h k s = Some s'" and free: "untaken i s" and none: "row s i = None"
  shows "row s' i = None"
proof -
  obtain cl where cl: "call_of s k = Some cl" using step by (auto simp: call_step_def split: option.splits)
  have loose: "row s' i = None" if "sys_loose s s'"
    using looseD(1) [OF that] none by (cases "row s' i") fastforce+
  consider (spawn) kont where "k_pc cl = LN_spawn kont" | (row) app fixed n ids where "k_pc cl = SA_row app fixed n ids"
    | (loose) "\<forall>kont. k_pc cl \<noteq> LN_spawn kont" "\<forall>app fixed n ids. k_pc cl \<noteq> SA_row app fixed n ids" by blast
  then show ?thesis
  proof cases
    case loose
    with call_step_loose [OF step cl] show ?thesis by (blast intro: \<open>sys_loose s s' \<Longrightarrow> _\<close>)
  next
    case (spawn kont)
    with step cl none show ?thesis
      by (auto simp: call_step_def ln_spawn_def new_ack_def spawn_sup_def sys_facts Let_def split: option.splits if_splits)
  next
    case (row app fixed n ids)
    then have "s' = sa_row h k cl app fixed n ids s" using step cl by (simp add: call_step_def)
    note takes = sa_row_takes [OF this]
    have "takes_id (c_table (y_ctx s)) (SA_row app fixed n ids) \<noteq> Some i"
      using untakenD [OF free cl] row by simp
    with takes none \<open>sys_loose s s' \<Longrightarrow> _\<close> show ?thesis
      by (cases "takes_id (c_table (y_ctx s)) (SA_row app fixed n ids)") auto
  qed
qed

lemma dstep_no_row:
  assumes step: "dstep h ok s s'" and free: "untaken i s" and none: "row s i = None"
  shows "row s' i = None"
  using step
proof cases
  case (sup_moves t ch)
  then obtain u where u: "sup_of s t = Some u" by (auto simp: sup_step_def split: option.splits)
  show ?thesis
  proof (cases "u_pm u = i")
    case True
    with sup_step_no_row [OF sup_moves u] none show ?thesis by simp
  next
    case False
    with sup_step_frame [OF sup_moves u] none show ?thesis by (auto simp: sup_frame_def)
  qed
next
  case (call_moves k)
  from this free none show ?thesis by (rule call_step_no_row)
next
  case (chore_moves c)
  with table_kept_row(2) [OF run_chore_frame(1) [OF chore_moves], of i] none show ?thesis by (cases "row s' i") fastforce+
next
  case (outside_moves o')
  with none show ?thesis
    by (cases o') (auto simp: new_call_def set_call_def sys_facts publish_def split: prod.split)
qed (use none in \<open>auto simp: sys_facts\<close>)

section \<open>The delete a supervisor still owes\<close>

fun command_in_hand :: "sup_pc \<Rightarrow> sup_cmd option" where
  "command_in_hand (U_kill_mark l c) = Some c"
| "command_in_hand (U_kill_signal l c) = Some c"
| "command_in_hand (U_kill_wait l c n) = Some c"
| "command_in_hand (U_killed l c) = Some c"
| "command_in_hand (U_delay_cmd l e c) = Some c"
| "command_in_hand _ = None"

definition owes_delete :: "sup \<Rightarrow> nat \<Rightarrow> bool" where
  "owes_delete u a = (CmdDelete a \<in> set (u_queue u) \<or> command_in_hand (u_pc u) = Some (CmdDelete a))"

lemma owes_delete_ack: "owes_delete u a \<Longrightarrow> a \<in> set (sup_acks u)"
  by (cases "u_pc u") (force simp: owes_delete_def sup_acks_def)+

text \<open>Its next step removes the row, still owes it, or ends the supervisor with the answer dropped.\<close>

lemma delete_goes_on:
  assumes "sup_step h t ch s = Some s'" "sup_of s t = Some u" "owes_delete u a" "sup_of s' t = Some u'"
  shows "owes_delete u' a \<or> row s' (u_pm u) = None"
  using assms
  by (cases "u_pc u")
    (auto simp: sup_step_def sup_ops sys_facts Let_def owes_delete_def elim!: goE
      split: option.splits choice.splits sup_cmd.splits list.splits if_splits restart_decision.splits sum.splits)

lemma delete_dropped:
  assumes "sup_step h t ch s = Some s'" "sup_of s t = Some u" "owes_delete u a" "sup_of s' t = None"
    and "distinct (sup_acks u)" "ack_of s a = Some AkPending"
  shows "ack_of s' a = Some AkDropped"
proof -
  have "a \<in> cmd_ack ` set (u_queue u)" if "CmdDelete a \<in> set (u_queue u)" using that by force
  with assms show ?thesis
  by (cases "u_pc u")
    (auto simp: sup_step_def sup_ops sys_facts ack_facts Let_def owes_delete_def sup_acks_def elim!: goE
      split: option.splits choice.splits sup_cmd.splits list.splits if_splits restart_decision.splits sum.splits)
qed

lemma next_dstep:
  assumes "dstep h ok s s'"
  shows "y_next s \<le> y_next s'"
  using assms
proof cases
  case (sup_moves t ch)
  with later_sup_step show ?thesis by (simp add: later_sups_def)
next
  case (call_moves k)
  with later_call_step show ?thesis by (simp add: later_sups_def)
next
  case (chore_moves c)
  then show ?thesis by (simp add: run_chore_frame)
next
  case (outside_moves o')
  then show ?thesis by (cases o') (auto simp: new_call_def set_call_def sys_facts split: prod.splits)
qed (simp_all add: sys_facts)

section \<open>A delete under way\<close>

fun delete_agrees :: "sys \<Rightarrow> u32 \<Rightarrow> call_pc \<Rightarrow> bool" where
  "delete_agrees s i DL_lock = True"
| "delete_agrees s i (DL_send c nm) = (c < y_next s \<and> (\<forall>u. sup_of s c = Some u \<longrightarrow> u_pm u = i))"
| "delete_agrees s i (DL_wait c a nm) =
     (row s i = None \<or> ack_of s a = Some AkDropped
      \<or> (ack_of s a = Some AkPending \<and> (\<exists>u. sup_of s c = Some u \<and> u_pm u = i \<and> owes_delete u a)))"
| "delete_agrees s i (DL_remove nm) = True"
| "delete_agrees s i (DL_unwatch nm) = (row s i = None)"
| "delete_agrees s i (C_done r) = (r = Inr [] \<and> row s i = None)"
| "delete_agrees s i _ = False"

lemma acks_old_call_step:
  assumes step: "call_step h k s = Some s'" and old: "ack_of s a = Some v" and below: "a < y_next s"
  shows "ack_of s' a = Some v"
proof -
  obtain cl where "call_of s k = Some cl" using step by (auto simp: call_step_def split: option.splits)
  with assms show ?thesis
    by (cases "k_pc cl")
      (auto simp: call_step_def call_ops dl_lock_def dl_wait_def dl_remove_def dl_unwatch_def call_goto_def set_call_def on_ctx_def
        send_step_def send_cmd_def new_ack_def ln_spawn_def spawn_sup_def sa_row_def set_sup_def ack_set_ack sys_facts Let_def
        split: option.splits if_splits ack.splits launch_cont.splits sum.splits prod.splits)
qed

lemma owes_old_call_step:
  assumes step: "call_step h k s = Some s'" and u: "sup_of s t = Some u" "t < y_next s" "owes_delete u a"
  shows "\<exists>u'. sup_of s' t = Some u' \<and> u_pm u' = u_pm u \<and> owes_delete u' a"
proof -
  obtain cl where cl: "call_of s k = Some cl" using step by (auto simp: call_step_def split: option.splits)
  have quiet: ?thesis if "calls_quiet s s'" using that u by (auto simp: calls_quiet_def)
  show ?thesis
    using step cl u call_step_quiet [OF step cl] quiet
    by (cases "k_pc cl")
      (auto simp: call_step_def send_step_def send_cmd_def new_ack_def ln_spawn_def spawn_sup_def owes_delete_def sys_facts Let_def
        split: option.splits if_splits)
qed

lemma delete_waits_sup_step:
  assumes own: "acks_owned s" and step: "sup_step h t ch s = Some s'" and ag: "delete_agrees s i (DL_wait c a nm)"
    and free: "untaken i s"
  shows "delete_agrees s' i (DL_wait c a nm)"
proof -
  obtain u0 where u0: "sup_of s t = Some u0" using step by (auto simp: sup_step_def split: option.splits)
  note kept = sup_step_acks [OF step u0 acks_owned_at(1,2) [OF own]]
  consider (gone) "row s i = None" | (dropped) "ack_of s a = Some AkDropped"
    | (owed) u where "ack_of s a = Some AkPending" "sup_of s c = Some u" "u_pm u = i" "owes_delete u a"
    using ag by auto
  then show ?thesis
  proof cases
    case gone
    have "dstep h (\<lambda>_. True) s s'" using step by (rule sup_moves)
    from dstep_no_row [OF this free gone] show ?thesis by simp
  next
    case dropped
    then have "a \<notin> set (acks_at s t)" using acks_owned_at(2) [OF own] by fastforce
    with kept dropped show ?thesis by (simp add: acks_kept_def)
  next
    case owed
    have at_c: "a \<in> set (acks_at s c)" using owes_delete_ack [OF owed(4)] owed(2) by (simp add: acks_at_def)
    show ?thesis
    proof (cases "c = t")
      case False
      then have "a \<notin> set (acks_at s t)" using own at_c unfolding acks_owned_def by blast
      with kept have "ack_of s' a = ack_of s a" by (simp add: acks_kept_def)
      moreover have "sup_of s' c = sup_of s c" using sup_step_frame [OF step u0] False by (simp add: sup_frame_def)
      ultimately show ?thesis using owed by auto
    next
      case True
      then have u: "sup_of s t = Some u" using owed(2) by simp
      have dist: "distinct (sup_acks u)" using acks_owned_at(1) [OF own, of t] u by (simp add: acks_at_def)
      show ?thesis
      proof (cases "sup_of s' t")
        case None
        from delete_dropped [OF step u owed(4) None dist owed(1)] show ?thesis by simp
      next
        case (Some u')
        have pm: "u_pm u' = i" using sup_step_loose_sup [OF step u Some] owed(3) by simp
        from delete_goes_on [OF step u owed(4) Some] show ?thesis
        proof
          assume owes: "owes_delete u' a"
          then have "a \<in> set (acks_at s' t)" using owes_delete_ack Some by (simp add: acks_at_def)
          with kept have "ack_of s' a = Some AkPending" by (simp add: acks_kept_def)
          with owes Some pm True show ?thesis by auto
        next
          assume "row s' (u_pm u) = None"
          with owed(3) show ?thesis by simp
        qed
      qed
    qed
  qed
qed

lemma delete_agrees_dstep:
  assumes own: "acks_owned s" and free: "untaken i s" and step: "dstep h ok s s'" and ag: "delete_agrees s i pc"
  shows "delete_agrees s' i pc"
proof -
  have gone: "row s i = None \<Longrightarrow> row s' i = None" using dstep_no_row [OF step free] .
  have below: "t < y_next s" if "sup_of s t \<noteq> None" for t using own that by (simp add: acks_owned_def)
  have acks: "b < y_next s" if "ack_of s b = Some v" for b v using own that by (simp add: acks_owned_def)
  show ?thesis
  proof (cases pc)
    case (DL_send c nm)
    with ag old_sup [OF step] next_dstep [OF step] show ?thesis by fastforce
  next
    case (DL_wait c a nm)
    have same: ?thesis if "y_acks s' = y_acks s" "\<And>u. sup_of s c = Some u \<Longrightarrow> owes_delete u a \<Longrightarrow>
        \<exists>u'. sup_of s' c = Some u' \<and> u_pm u' = u_pm u \<and> owes_delete u' a"
      using ag gone that unfolding DL_wait delete_agrees.simps by metis
    from step show ?thesis
    proof cases
      case (sup_moves t ch)
      with own ag free show ?thesis unfolding DL_wait by (blast intro: delete_waits_sup_step)
    next
      case (call_moves k)
      with ag gone show ?thesis
        unfolding DL_wait delete_agrees.simps
        using acks_old_call_step [OF call_moves] owes_old_call_step [OF call_moves] acks below by (metis option.distinct(1))
    next
      case (child_exits t u ch code)
      then show ?thesis by (intro same) (auto simp: set_sup_def owes_delete_def)
    next
      case (chore_moves ch)
      then show ?thesis by (intro same) (simp_all add: run_chore_frame)
    next
      case (clock_moves n)
      then show ?thesis by (intro same) simp_all
    next
      case (outside_moves o')
      then show ?thesis
        by (intro same; cases o') (auto simp: new_call_def set_call_def on_ctx_def split: prod.splits)
    qed
  qed (use ag gone in auto)
qed

lemma delete_call_step:
  assumes own: "acks_owned s" "tx_right s" "tx_below s" and free: "untaken i s" and step: "call_step h k s = Some s'"
    and cl: "call_of s k = Some cl" "k_pm cl = i" "delete_agrees s i (k_pc cl)"
  shows "\<exists>cl'. call_of s' k = Some cl' \<and> k_pm cl' = i \<and> delete_agrees s' i (k_pc cl')"
proof (cases "k_pc cl")
  case DL_lock
  have c: "c < y_next s \<and> (\<forall>u. sup_of s c = Some u \<longrightarrow> u_pm u = i)" if "row s i = Some p" "p_cmd_tx p = Some c" for p c
    using own(2,3) that unfolding tx_right_def tx_below_def by blast
  show ?thesis
  proof (cases "row s i")
    case None
    with step cl DL_lock show ?thesis by (auto simp: call_step_def dl_lock_def sys_facts)
  next
    case (Some p)
    then show ?thesis
    proof (cases "p_cmd_tx p")
      case None
      with Some step cl DL_lock show ?thesis by (auto simp: call_step_def dl_lock_def sys_facts)
    next
      case (Some c)
      have "s' = call_goto k cl (DL_send c (p_name p)) (on_ctx (put_row i (p\<lparr>p_status := Stopping\<rparr>)) s)"
        using \<open>row s i = Some p\<close> Some step cl DL_lock by (simp add: call_step_def dl_lock_def)
      with c [OF \<open>row s i = Some p\<close> Some] cl(2) show ?thesis by (simp add: sys_facts)
    qed
  qed
next
  case (DL_send c nm)
  then have "send_step k cl c CmdDelete (\<lambda>a. DL_wait c a nm) (DL_remove nm) s = Some s'"
    using step cl by (simp add: call_step_def)
  with cl DL_send show ?thesis
    by (auto simp: send_step_def send_cmd_def new_ack_def owes_delete_def set_sup_def call_goto_def set_call_def
        split: option.splits if_splits)
next
  case (DL_wait c a nm)
  have "dl_wait k cl c a nm s = Some s'" using step cl DL_wait by (simp add: call_step_def)
  moreover have "row s i = None" if "ack_of s a \<noteq> Some AkPending" "ack_of s a \<noteq> Some AkDropped"
    using cl(3) that by (simp add: DL_wait)
  ultimately show ?thesis using cl(2)
    by (auto simp: dl_wait_def sys_facts split: option.splits ack.splits)
next
  case (DL_remove nm)
  with step cl show ?thesis by (auto simp: call_step_def dl_remove_def sys_facts)
next
  case (DL_unwatch nm)
  with step cl show ?thesis by (auto simp: call_step_def dl_unwatch_def sys_facts)
qed (use step cl in \<open>auto simp: call_step_def\<close>)

definition deleting_call :: "sys \<Rightarrow> nat \<Rightarrow> u32 \<Rightarrow> bool" where
  "deleting_call s k i = (\<exists>cl. call_of s k = Some cl \<and> k_pm cl = i \<and> delete_agrees s i (k_pc cl))"

lemma deleting_dstep:
  assumes r: "reach h ok room s" and free: "untaken i s" and step: "dstep h ok' s s'" and call: "deleting_call s k i"
  shows "deleting_call s' k i"
proof -
  have own: "acks_owned s" and right: "tx_right s" using r by (rule acks_inv.holds, rule channel_inv.upper.holds)
  have below: "tx_below s" using stops_inv.upper.holds [OF r] unfolding stops_owed_def tx_below_def by blast
  obtain cl where cl: "call_of s k = Some cl" "k_pm cl = i" "delete_agrees s i (k_pc cl)"
    using call by (auto simp: deleting_call_def)
  have same: ?thesis if "call_of s' k = call_of s k"
    using that cl delete_agrees_dstep [OF own free step cl(3)] by (auto simp: deleting_call_def)
  from step show ?thesis
  proof cases
    case (sup_moves t ch)
    then obtain u where u: "sup_of s t = Some u" by (auto simp: sup_step_def split: option.splits)
    show ?thesis using sup_step_frame [OF sup_moves u] by (intro same) (simp add: sup_frame_def)
  next
    case (call_moves k')
    show ?thesis
    proof (cases "k' = k")
      case False
      then show ?thesis using call_step_others [OF call_moves] by (intro same) auto
    next
      case True
      with delete_call_step [OF own right below free _ cl] call_moves show ?thesis by (auto simp: deleting_call_def)
    qed
  next
    case (child_exits t u ch code)
    then show ?thesis by (intro same) (simp add: sys_facts)
  next
    case (chore_moves c)
    then show ?thesis by (intro same) (simp add: run_chore_frame)
  next
    case (clock_moves n)
    then show ?thesis by (intro same) simp
  next
    case (outside_moves o')
    have "k < y_next s" using calls_inv.holds [OF r] cl(1) by (auto simp: calls_below_def)
    then show ?thesis using outside_moves
      by (intro same; cases o') (auto simp: new_call_def set_call_def sys_facts split: prod.splits)
  qed
qed

section \<open>Runs\<close>

definition ids_untaken :: "u32 list \<Rightarrow> sys \<Rightarrow> bool" where
  "ids_untaken ids s = list_all (\<lambda>i. untaken i s) ids"

abbreviation any_run :: "host \<Rightarrow> sys \<Rightarrow> bool" where
  "any_run h \<equiv> reach h (\<lambda>_. True) (\<lambda>_. True)"

lemma run_moves_any: "run_moves h ok room mvs s = Some s' \<Longrightarrow> run_moves h ok (\<lambda>_. True) mvs s = Some s'"
  by (induction mvs arbitrary: s) (auto split: option.splits if_splits)

lemma deleting_run:
  assumes "run_moves h (\<lambda>_. True) (ids_untaken ids) mvs s = Some s'" "any_run h s" "ids_untaken ids s"
    and "i \<in> set ids" "deleting_call s k i"
  shows "deleting_call s' k i"
  using assms
proof (induction mvs arbitrary: s)
  case (Cons mv mvs)
  then obtain s1 where s1: "do_move h (\<lambda>_. True) mv s = Some s1" "ids_untaken ids s1"
      "run_moves h (\<lambda>_. True) (ids_untaken ids) mvs s1 = Some s'"
    by (auto split: option.splits if_splits)
  then have step: "dstep h (\<lambda>_. True) s s1" using dstep_iff_do_move by blast
  have "untaken i s" using Cons.prems(3,4) by (simp add: ids_untaken_def list_all_iff)
  from deleting_dstep [OF Cons.prems(2) this step Cons.prems(5)] have "deleting_call s1 k i" .
  moreover have "any_run h s1" using Cons.prems(2) step by (rule reach_step) simp
  ultimately show ?case using Cons.IH [OF s1(3)] s1(2) Cons.prems(4) by blast
qed simp

lemma untaken_spawned:
  assumes "any_run h s" "ids_untaken ids s"
  shows "ids_untaken ids (spawn_ops OpDelete js s)"
proof -
  have "takes_id (c_table (y_ctx s)) (k_pc cl) \<noteq> Some i"
    if "i \<in> set ids" "call_of (spawn_ops OpDelete js s) k = Some cl" for i k cl
  proof -
    have "untaken i s" using assms(2) that(1) by (simp add: ids_untaken_def list_all_iff)
    with spawned_calls [OF calls_inv.holds [OF assms(1)] that(2)] show ?thesis by (auto dest: untakenD)
  qed
  then show ?thesis
    unfolding ids_untaken_def list_all_iff [of _ ids] untaken_def list_all_entries by (simp add: spawned)
qed

section \<open>Other rows stay\<close>

fun deleting_pc :: "call_pc \<Rightarrow> bool" where
  "deleting_pc DL_lock = True"
| "deleting_pc (DL_send c nm) = True"
| "deleting_pc (DL_wait c a nm) = True"
| "deleting_pc (DL_remove nm) = True"
| "deleting_pc (DL_unwatch nm) = True"
| "deleting_pc _ = False"

definition told_to_delete :: "sup \<Rightarrow> bool" where
  "told_to_delete u =
     (list_ex is_delete (u_queue u) \<or> (case command_in_hand (u_pc u) of Some c \<Rightarrow> is_delete c | None \<Rightarrow> False))"

text \<open>No delete of process \<open>i\<close> is under way: no operation of that kind works on it, and no supervisor of it has
  been told.\<close>

definition undeleted :: "u32 \<Rightarrow> sys \<Rightarrow> bool" where
  "undeleted i s =
     (list_all (\<lambda>k. case call_of s k of Some cl \<Rightarrow> k_pm cl = i \<longrightarrow> \<not> deleting_pc (k_pc cl) | None \<Rightarrow> True) (map fst (y_calls s))
      \<and> list_all (\<lambda>t. case sup_of s t of Some u \<Rightarrow> u_pm u = i \<longrightarrow> \<not> told_to_delete u | None \<Rightarrow> True) (map fst (y_sups s)))"

lemma undeleted_iff:
  "undeleted i s \<longleftrightarrow>
     (\<forall>k cl. call_of s k = Some cl \<longrightarrow> k_pm cl = i \<longrightarrow> \<not> deleting_pc (k_pc cl))
     \<and> (\<forall>t u. sup_of s t = Some u \<longrightarrow> u_pm u = i \<longrightarrow> \<not> told_to_delete u)"
  unfolding undeleted_def list_all_entries ..

lemma undeletedD:
  assumes "undeleted i s"
  shows "call_of s k = Some cl \<Longrightarrow> k_pm cl = i \<Longrightarrow> \<not> deleting_pc (k_pc cl)"
    and "sup_of s t = Some u \<Longrightarrow> u_pm u = i \<Longrightarrow> \<not> told_to_delete u"
  using assms unfolding undeleted_iff by blast+

text \<open>A delete sends its command to a supervisor of its process.\<close>

definition sends_right :: "sys \<Rightarrow> bool" where
  "sends_right s =
     (\<forall>k cl c nm. call_of s k = Some cl \<longrightarrow> k_pc cl = DL_send c nm \<longrightarrow>
        c < y_next s \<and> (\<forall>u. sup_of s c = Some u \<longrightarrow> u_pm u = k_pm cl))"

lemma new_delete_send:
  assumes "call_step h k s = Some s'" "call_of s k = Some cl" "call_of s' k = Some cl'" "k_pc cl' = DL_send c nm"
  shows "k_pm cl' = k_pm cl \<and> y_next s' = y_next s \<and> y_sups s' = y_sups s
    \<and> (k_pc cl = DL_send c nm \<or> (\<exists>p. row s (k_pm cl) = Some p \<and> p_cmd_tx p = Some c))"
  using assms
  by (cases "k_pc cl")
    (auto simp: call_step_def call_ops dl_lock_def dl_wait_def dl_remove_def dl_unwatch_def
      send_step_def send_cmd_def ln_spawn_def spawn_sup_def sa_row_def sys_facts new_ack_def Let_def
      split: option.splits if_splits ack.splits launch_cont.splits sum.splits prod.splits)

lemma sends_right_dstep:
  assumes inv: "sends_right s" and chan: "tx_right s" "tx_below s" and step: "dstep h ok s s'"
  shows "sends_right s'"
proof -
  have old: "c < y_next s' \<and> (\<forall>u. sup_of s' c = Some u \<longrightarrow> u_pm u = k_pm cl)"
    if "call_of s k = Some cl" "k_pc cl = DL_send c nm" for k cl c nm
  proof -
    have c: "c < y_next s" "\<And>u. sup_of s c = Some u \<Longrightarrow> u_pm u = k_pm cl"
      using inv that unfolding sends_right_def by blast+
    from old_sup [OF step _ c(1)] c(2) have "u_pm u = k_pm cl" if "sup_of s' c = Some u" for u using that by metis
    with c(1) next_dstep [OF step] show ?thesis by (metis less_le_trans)
  qed
  have "c < y_next s' \<and> (\<forall>u. sup_of s' c = Some u \<longrightarrow> u_pm u = k_pm cl')"
    if cl': "call_of s' k = Some cl'" "k_pc cl' = DL_send c nm" for k cl' c nm
    using step
  proof cases
    case (sup_moves t ch)
    then obtain u where u: "sup_of s t = Some u" by (auto simp: sup_step_def split: option.splits)
    with sup_step_frame [OF sup_moves u] cl' show ?thesis by (intro old) (simp_all add: sup_frame_def)
  next
    case (call_moves k')
    show ?thesis
    proof (cases "k' = k")
      case False
      with call_step_others [OF call_moves, of k] cl' show ?thesis by (intro old) auto
    next
      case True
      then obtain cl where cl: "call_of s k = Some cl" using call_moves by (auto simp: call_step_def split: option.splits)
      from call_moves True have st: "call_step h k s = Some s'" by simp
      note new = new_delete_send [OF st cl cl']
      then show ?thesis
      proof (cases "k_pc cl = DL_send c nm")
        case True
        from old [OF cl this] new show ?thesis by simp
      next
        case False
        with new obtain p where p: "row s (k_pm cl) = Some p" "p_cmd_tx p = Some c" by blast
        with chan have "c < y_next s" "\<And>u. sup_of s c = Some u \<Longrightarrow> u_pm u = k_pm cl"
          unfolding tx_right_def tx_below_def by blast+
        with new show ?thesis by simp
      qed
    qed
  next
    case (child_exits t u ch code)
    with cl' show ?thesis by (intro old) (simp_all add: sys_facts)
  next
    case (chore_moves c)
    with cl' show ?thesis by (intro old) (simp_all add: run_chore_frame)
  next
    case (clock_moves n)
    with cl' show ?thesis by (intro old) simp_all
  next
    case (outside_moves o')
    have "call_of s k = Some cl'"
      using outside_moves cl' by (cases o'; cases "case o' of OReq rq \<Rightarrow> rq")
        (auto simp: new_call_def set_call_def sys_facts split: prod.splits if_splits)
    with cl' show ?thesis by (intro old)
  qed
  then show ?thesis unfolding sends_right_def by blast
qed

interpretation sends_inv: run_invariant ok room sends_right for ok room
proof (unfold_locales, goal_cases)
  case 1
  show ?case by (simp add: sends_right_def sys_init_def)
next
  case (2 h s s')
  have "tx_right s" "tx_below s"
    using channel_inv.upper.holds [OF 2(1)] stops_inv.upper.holds [OF 2(1)] unfolding stops_owed_def tx_below_def by blast+
  with 2 show ?case by (blast intro: sends_right_dstep)
qed

lemma undeleted_sup_step:
  assumes "sup_step h t ch s = Some s'" "sup_of s t = Some u" "\<not> told_to_delete u"
  shows "(row s (u_pm u) \<noteq> None \<longrightarrow> row s' (u_pm u) \<noteq> None)
    \<and> (\<forall>u'. sup_of s' t = Some u' \<longrightarrow> \<not> told_to_delete u')"
  using assms
  by (cases "u_pc u")
    (auto simp: sup_step_def sup_ops sys_facts Let_def told_to_delete_def elim!: goE
      split: option.splits choice.splits sup_cmd.splits list.splits if_splits restart_decision.splits sum.splits)

lemma undeleted_call_row:
  assumes "call_step h k s = Some s'" "call_of s k = Some cl" "k_pm cl = i \<longrightarrow> \<not> deleting_pc (k_pc cl)" "row s i \<noteq> None"
  shows "row s' i \<noteq> None"
proof (cases "k_pc cl")
  case (SA_register app fixed n ids pm)
  have "hm_get (procs (c_table (health_register pm m (cron_register h pm n c)))) i \<noteq> None \<longleftrightarrow> hm_get (procs (c_table c)) i \<noteq> None" for m n c
    using health_register_facts(1) [of pm m "cron_register h pm n c" i] cron_register_facts(1) [of h pm n c i]
    by (metis option.map_disc_iff)
  with SA_register assms show ?thesis
    by (auto simp: call_step_def sa_register_def sys_facts Let_def simp del: cron_register_row health_register_row split: if_splits)
next
  case (SA_row app fixed n ids)
  obtain pm t' where al: "alloc_id (c_table (y_ctx s)) = (pm, t')" by (cases "alloc_id (c_table (y_ctx s))")
  then have "procs t' = procs (c_table (y_ctx s))" using procs_alloc_id [of "c_table (y_ctx s)"] by simp
  with SA_row al assms show ?thesis
    by (auto simp: call_step_def sa_row_def insert_row_def sys_facts Let_def split: option.splits if_splits)
qed (use assms in \<open>auto simp: call_step_def call_ops dl_lock_def dl_wait_def dl_remove_def dl_unwatch_def
      send_step_def send_cmd_def ln_spawn_def spawn_sup_def sys_facts new_ack_def Let_def
      split: option.splits if_splits ack.splits launch_cont.splits sum.splits prod.splits\<close>)

lemma call_step_sup_after:
  assumes "call_step h k s = Some s'" "call_of s k = Some cl" "sup_of s' t = Some u'"
  shows "sup_of s t = Some u'
    \<or> (\<exists>u c. sup_of s t = Some u \<and> u_queue u' = u_queue u @ [c] \<and> u_pm u' = u_pm u \<and> u_pc u' = u_pc u \<and> (is_delete c \<longrightarrow> (\<exists>nm. k_pc cl = DL_send t nm)))
    \<or> (u_queue u' = [] \<and> u_pc u' = U_top)"
proof (cases "pc_quiet (k_pc cl)")
  case True
  with call_step_quiet [OF assms(1,2)] assms(3) show ?thesis by (simp add: calls_quiet_def)
next
  case False
  with assms show ?thesis
    by (cases "k_pc cl")
      (auto simp: call_step_def send_step_def send_cmd_def new_ack_def ln_spawn_def spawn_sup_def sys_facts Let_def
        split: option.splits if_splits)
qed

lemma undeleted_call_sups:
  assumes "call_step h k s = Some s'" "call_of s k = Some cl"
    and "\<And>c nm u. k_pc cl = DL_send c nm \<Longrightarrow> sup_of s c = Some u \<Longrightarrow> u_pm u \<noteq> i"
    and "\<And>t u. sup_of s t = Some u \<Longrightarrow> u_pm u = i \<Longrightarrow> \<not> told_to_delete u"
    and "sup_of s' t = Some u'" "u_pm u' = i"
  shows "\<not> told_to_delete u'"
  using call_step_sup_after [OF assms(1,2,5)]
proof (elim disjE exE conjE)
  fix u c assume u: "sup_of s t = Some u" "u_queue u' = u_queue u @ [c]" "u_pc u' = u_pc u" "u_pm u' = u_pm u"
    and del: "is_delete c \<longrightarrow> (\<exists>nm. k_pc cl = DL_send t nm)"
  have pm: "u_pm u = i" using u(4) assms(6) by simp
  have "\<not> is_delete c" using del assms(3) [OF _ u(1)] pm by blast
  then show ?thesis using assms(4) [OF u(1) pm] by (simp add: u(2,3) told_to_delete_def)
next
  assume "sup_of s t = Some u'"
  from assms(4) [OF this assms(6)] show ?thesis .
qed (simp add: told_to_delete_def)

lemma deleting_call_old:
  assumes "call_step h k s = Some s'" "call_of s k = Some cl" "call_of s' k = Some cl'" "deleting_pc (k_pc cl')"
  shows "deleting_pc (k_pc cl) \<and> k_pm cl' = k_pm cl"
  using assms
  by (cases "k_pc cl")
    (auto simp: call_step_def call_ops dl_lock_def dl_wait_def dl_remove_def dl_unwatch_def
      send_step_def send_cmd_def ln_spawn_def spawn_sup_def sa_row_def sys_facts new_ack_def Let_def
      split: option.splits if_splits ack.splits launch_cont.splits sum.splits prod.splits)

lemma undeleted_dstep:
  assumes right: "sends_right s" and step: "dstep h (\<lambda>o'. o' \<noteq> OReq (RqDelete i)) s s'" and un: "undeleted i s"
  shows "undeleted i s' \<and> (row s i \<noteq> None \<longrightarrow> row s' i \<noteq> None)"
proof -
  note callD = undeletedD(1) [OF un] and supD = undeletedD(2) [OF un]
  have same: ?thesis if "y_calls s' = y_calls s" "y_sups s' = y_sups s" "row s i \<noteq> None \<longrightarrow> row s' i \<noteq> None"
    using that un by (simp add: undeleted_def)
  from step show ?thesis
  proof cases
    case (sup_moves t ch)
    then obtain u where u: "sup_of s t = Some u" by (auto simp: sup_step_def split: option.splits)
    note fr = sup_step_frame [OF sup_moves u, unfolded sup_frame_def]
    have pm: "u_pm u' = u_pm u" if "sup_of s' t = Some u'" for u' using sup_step_loose_sup [OF sup_moves u that] by simp
    have own: "\<And>v. sup_of s' t = Some v \<Longrightarrow> \<not> told_to_delete v" "row s i \<noteq> None \<Longrightarrow> row s' i \<noteq> None" if "u_pm u = i"
      using undeleted_sup_step [OF sup_moves u supD [OF u that]] unfolding that by blast+
    have "\<not> told_to_delete v" if v: "sup_of s' t' = Some v" "u_pm v = i" for t' v
    proof (cases "t' = t")
      case True
      with v(1) have "sup_of s' t = Some v" by simp
      with pm v(2) own(1) show ?thesis by metis
    next
      case False
      with fr v supD show ?thesis by simp
    qed
    moreover have "row s i \<noteq> None \<longrightarrow> row s' i \<noteq> None"
    proof (cases "u_pm u = i")
      case True
      with own(2) show ?thesis by blast
    next
      case False
      with fr show ?thesis by simp
    qed
    moreover have "y_calls s' = y_calls s" using fr by simp
    ultimately show ?thesis using callD unfolding undeleted_iff by simp
  next
    case (call_moves k)
    then obtain cl where cl: "call_of s k = Some cl" by (auto simp: call_step_def split: option.splits)
    have notmine: "k_pm cl = i \<longrightarrow> \<not> deleting_pc (k_pc cl)" using callD [OF cl] by blast
    have elsewhere: "u_pm u \<noteq> i" if "k_pc cl = DL_send c nm" "sup_of s c = Some u" for c nm u
    proof -
      have "u_pm u = k_pm cl" using right cl that unfolding sends_right_def by blast
      with notmine that(1) show ?thesis by auto
    qed
    have sups: "\<not> told_to_delete u'" if "sup_of s' t = Some u'" "u_pm u' = i" for t u'
      using elsewhere supD that by (rule undeleted_call_sups [OF call_moves cl])
    have "\<not> deleting_pc (k_pc cl')" if "call_of s' k' = Some cl'" "k_pm cl' = i" for k' cl'
    proof (cases "k' = k")
      case True
      with deleting_call_old [OF call_moves cl] that notmine show ?thesis by auto
    next
      case False
      with call_step_others [OF call_moves False] that callD show ?thesis by auto
    qed
    with sups undeleted_call_row [OF call_moves cl notmine] show ?thesis unfolding undeleted_iff by blast
  next
    case (child_exits t u ch code)
    then show ?thesis using callD supD by (auto simp: undeleted_iff sys_facts told_to_delete_def split: if_splits)
  next
    case (chore_moves c)
    then show ?thesis
      using table_kept_row(1) [OF run_chore_frame(1) [OF chore_moves], of i]
      by (intro same) (simp_all add: run_chore_frame, blast)
  next
    case (clock_moves n)
    then show ?thesis by (intro same) simp_all
  next
    case (outside_moves o')
    show ?thesis
    proof (cases o')
      case (OReq rq)
      have "\<not> (fst (first_pc rq) = i \<and> deleting_pc (snd (first_pc rq)))"
        using outside_moves(2) unfolding OReq by (cases rq) auto
      with OReq outside_moves show ?thesis
        using callD supD by (auto simp: undeleted_iff new_call_def set_call_def split: prod.splits if_splits)
    next
      case OShutdown
      with outside_moves show ?thesis by (intro same) (auto simp: sys_facts publish_def)
    qed
  qed
qed

lemma undeleted_run:
  assumes "run_moves h ok room mvs s = Some s'" "reach h ok room s" "undeleted i s" "row s i \<noteq> None"
    and "MOut (OReq (RqDelete i)) \<notin> set mvs"
  shows "row s' i \<noteq> None"
  using assms
proof (induction mvs arbitrary: s)
  case (Cons mv mvs)
  then obtain s1 where s1: "do_move h ok mv s = Some s1" "room s1" "run_moves h ok room mvs s1 = Some s'"
    by (auto split: option.splits if_splits)
  then have "run_moves h ok room [mv] s = Some s1" by simp
  then have r: "reach h ok room s1" using Cons.prems(2) by (rule run_moves_reach)
  have "do_move h (\<lambda>o'. o' \<noteq> OReq (RqDelete i)) mv s = Some s1"
    using s1(1) Cons.prems(5) by (cases mv) (auto simp: do_move_def split: if_splits)
  then have "dstep h (\<lambda>o'. o' \<noteq> OReq (RqDelete i)) s s1" using dstep_iff_do_move by blast
  from undeleted_dstep [OF sends_inv.holds [OF Cons.prems(2)] this Cons.prems(3)] Cons.prems(4,5) Cons.IH [OF s1(3) r]
  show ?case by simp
qed simp

lemma undeleted_spawned:
  assumes "reach h ok room s" "undeleted i s" "i \<notin> set ids"
  shows "undeleted i (spawn_ops OpDelete ids s)"
proof -
  have "\<not> deleting_pc (k_pc cl)" if "call_of (spawn_ops OpDelete ids s) k = Some cl" "k_pm cl = i" for k cl
    using spawned_calls_of [OF calls_inv.holds [OF assms(1)] that(1)] that(2) undeletedD(1) [OF assms(2)] assms(3) by auto
  with undeletedD(2) [OF assms(2)] show ?thesis unfolding undeleted_iff by (simp add: spawned)
qed

section \<open>Properties\<close>

text \<open>C3: A delete request removes what it names and nothing else: when all its operations have returned, the rows are
  gone, and the reply lists exactly these processes as their rows were when the request came, whether a
  process was running, waiting, stopped, being restarted or being deleted by another request, provided no start
  was given one of the ids meanwhile.  Every other row is still there, unless a delete of it was under way or came in.\<close>
theorem delete_request_removes_rows:
  assumes "any_run h s" "resolve (y_ctx s) tg = Inr ids" "ids_untaken ids s"
    and "run_moves h (\<lambda>_. True) (ids_untaken ids) mvs (spawn_ops OpDelete ids s) = Some s'" "calls_joined (length ids) s s'"
  shows "fst (dispatch (awaiting e s s') (M_delete tg) (y_ctx s))
      = (Inr (V_snapshots (map (\<lambda>i. snapshot_of False (the (row s i))) ids)), y_ctx s')
    \<and> map (\<lambda>i. s_pm_id (snapshot_of False (the (row s i)))) ids = ids
    \<and> (\<forall>i \<in> set ids. row s i \<noteq> None \<and> row s' i = None)
    \<and> (\<forall>j. row s j \<noteq> None \<and> j \<notin> set ids \<and> undeleted j s \<and> MOut (OReq (RqDelete j)) \<notin> set mvs \<longrightarrow> row s' j \<noteq> None)"
proof -
  have r: "any_run h (spawn_ops OpDelete ids s)" using assms(1) by (intro spawned_reach) simp_all
  note free = untaken_spawned [OF assms(1,3), of ids]
  have returned: "call_of s' (y_next s + n) = Some \<lparr>k_pm = ids ! n, k_pc = C_done (Inr [])\<rparr> \<and> row s' (ids ! n) = None"
    if n: "n < length ids" for n
  proof -
    have "deleting_call (spawn_ops OpDelete ids s) (y_next s + n) (ids ! n)"
      using spawned(4) [OF n, of OpDelete s] by (simp add: deleting_call_def)
    with n have "deleting_call s' (y_next s + n) (ids ! n)" by (intro deleting_run [OF assms(4) r free]) simp_all
    moreover obtain cl where cl: "call_of s' (y_next s + n) = Some cl" "is_done (k_pc cl)"
      using calls_joinedD [OF assms(5) n] by blast
    ultimately show ?thesis by (cases cl; cases "k_pc cl") (auto simp: deleting_call_def)
  qed
  then have gone: "row s' i = None" if "i \<in> set ids" for i using that by (auto simp: in_set_conv_nth)
  have wf: "wf_ctx (y_ctx s)" using assms(1) by (rule table_inv.holds)
  note rows = resolved_rows [OF wf assms(2)]
  note shown = snapshots_of_rows [OF wf rows, of False]
  have "run_each (awaiting e s s') OpDelete ids (y_ctx s) = (Inr (), y_ctx s')"
    using returned by (intro run_each_awaiting) fastforce
  then have "fst (dispatch (awaiting e s s') (M_delete tg) (y_ctx s)) = (Inr (V_snapshots (snapshots (y_ctx s) ids False)), y_ctx s')"
    by (simp add: dispatch_def on_target_def assms(2))
  moreover have "row s' j \<noteq> None"
    if "row s j \<noteq> None" "j \<notin> set ids" "undeleted j s" "MOut (OReq (RqDelete j)) \<notin> set mvs" for j
  proof -
    have run: "run_moves h (\<lambda>_. True) (\<lambda>_. True) mvs (spawn_ops OpDelete ids s) = Some s'" using assms(4) by (rule run_moves_any)
    have "row (spawn_ops OpDelete ids s) j \<noteq> None" using that(1) by (simp add: spawned)
    from undeleted_run [OF run r undeleted_spawned [OF assms(1) that(3,2)] this that(4)] show ?thesis .
  qed
  moreover have "map (\<lambda>i. s_pm_id (snapshot_of False (the (row s i)))) ids = ids"
    using shown by (metis (no_types, lifting) list.map_comp o_apply map_eq_conv)
  ultimately show ?thesis using gone rows(2) shown(1) by simp
qed

text \<open>A running process is deleted while a stop of it comes in.\<close>

definition removal :: "move list" where
  "removal =
     [MCall 5, MCall 5, MOut (OReq (RqStop 0)), MCall 7, MSup 4 ChCmd, MSup 4 ChGo, MCall 7, MSup 4 ChGo, MExit 4 (Some 0),
      MSup 4 ChExit, MSup 4 ChGo, MSup 4 ChGo, MSup 4 ChGo, MCall 5]"

lemma reach_weaken:
  assumes "reach h ok room s"
  shows "any_run h s"
  using assms
proof (induction rule: reach.induct)
  case reach_init
  show ?case by (rule reach.reach_init)
next
  case (reach_step s s')
  have "dstep h (\<lambda>_. True) s s'" using reach_step.hyps(2) by (rule dstep_mono) simp
  with reach_step.IH show ?case by (rule reach.reach_step) simp
qed

lemma delete_request_removes_rows_witness:
  "\<exists>s' ps. run_moves sample_host (\<lambda>_. True) (ids_untaken [0]) removal (spawn_ops OpDelete [0] sample_online) = Some s'
    \<and> fst (dispatch (awaiting sample_rpc sample_online s') (M_delete All) (y_ctx sample_online)) = (Inr (V_snapshots ps), y_ctx s')
    \<and> map s_pm_id ps = [0] \<and> row s' 0 = None"
proof -
  have named: "resolve (y_ctx sample_online) All = Inr [0]" by code_simp
  have free: "ids_untaken [0] sample_online" by code_simp
  have r: "any_run sample_host sample_online" using sample_reach by (rule reach_weaken)
  have "case run_moves sample_host (\<lambda>_. True) (ids_untaken [0]) removal (spawn_ops OpDelete [0] sample_online) of
      Some s' \<Rightarrow> calls_joined (length [0 :: u32]) sample_online s' | None \<Rightarrow> False" by code_simp
  then obtain s' where s': "run_moves sample_host (\<lambda>_. True) (ids_untaken [0]) removal (spawn_ops OpDelete [0] sample_online) = Some s'"
      "calls_joined (length [0 :: u32]) sample_online s'" by (auto split: option.splits)
  from delete_request_removes_rows [OF r named free s', of sample_rpc] s'(1) show ?thesis by (simp; metis)
qed

end
