(* ===== verification/Serve.thy ===== *)
theory Serve
  imports Batch
begin

text \<open>
  \<open>src/daemon/mod.rs\<close>: the daemon's start, its main loop and its end.  Whether the lock on the pid
  file is free, and what wakes the loop, are arguments.
\<close>

section \<open>Start\<close>

definition parse_i32 :: "string \<Rightarrow> int option" where
  "parse_i32 s =
     (case s of
        c # r \<Rightarrow>
          if c = CHR ''-'' then
            (if r \<noteq> [] \<and> list_all is_digit r \<and> digits_val r \<le> 2 ^ 31 then Some (- int (digits_val r)) else None)
          else map_option int (parse_uint (2 ^ 31) s)
      | [] \<Rightarrow> None)"

text \<open>The pid files that point at a live process: leftovers of a daemon that died.\<close>

definition warn_orphans :: "(int \<Rightarrow> bool) \<Rightarrow> (string \<times> string option) list \<Rightarrow> (string \<times> int) list" where
  "warn_orphans alive entries =
     List.map_filter (\<lambda>(path, content).
       case Option.bind content (\<lambda>s. parse_i32 (trim s)) of
         Some pid \<Rightarrow> if alive pid then Some (path, pid) else None
       | None \<Rightarrow> None) entries"

text \<open>\<open>run\<close>: without the lock another daemon is running and this one ends; with it, a socket that
  is there is stale, and the pid file gets the pid.\<close>

definition daemon_start :: "env_vars \<Rightarrow> bool \<Rightarrow> u32 \<Rightarrow> (string, string) hmap \<Rightarrow> (string, string) hmap option" where
  "daemon_start ev locked pid files =
     (if \<not> locked then None
      else Some (hm_put (daemon_pid_file ev) (show_word pid) (hm_del (rpc_sock ev) files)))"

definition serve_ctx :: "(string, string) hmap \<Rightarrow> ctx" where
  "serve_ctx files = ctx_default\<lparr>c_files := files\<rparr>"

section \<open>The loop\<close>

datatype wakeup = WkAccept | WkAcceptFailed | WkTerm | WkInt | WkUsr2 | WkHup | WkKill

text \<open>The connections taken, the context, and whether the loop was left.\<close>

fun serve_loop :: "wakeup list \<Rightarrow> ctx \<Rightarrow> nat \<times> ctx \<times> bool" where
  "serve_loop [] c = (0, c, False)"
| "serve_loop (WkAccept # ws) c = (case serve_loop ws c of (n, c', b) \<Rightarrow> (Suc n, c', b))"
| "serve_loop (WkAcceptFailed # ws) c = serve_loop ws c"
| "serve_loop (WkTerm # ws) c = (0, c, True)"
| "serve_loop (WkInt # ws) c = (0, c, True)"
| "serve_loop (WkUsr2 # ws) c = serve_loop ws (c\<lparr>c_log_generation := c_log_generation c + 1\<rparr>)"
| "serve_loop (WkHup # ws) c = serve_loop ws c"
| "serve_loop (WkKill # ws) c = (0, c, True)"

section \<open>Shutdown\<close>

text \<open>\<open>graceful_shutdown\<close> up to the wait for its stop tasks, and after it.\<close>

definition shutdown_begin ::
    "codec \<Rightarrow> env_vars \<Rightarrow> (disk_op \<Rightarrow> nat option) \<Rightarrow> ctx \<Rightarrow> request list \<times> ctx" where
  "shutdown_begin cd ev fails c =
     (let c1 = publish EvDaemonKill (c\<lparr>c_shutting_down := True\<rparr>);
          c2 = snd (save cd ev fails c1)
      in (map (RqStop \<circ> fst) (hm_rows (procs (c_table c2))), c2))"

definition shutdown_end :: "env_vars \<Rightarrow> ctx \<Rightarrow> ctx" where
  "shutdown_end ev c =
     c\<lparr>c_files := hm_del (daemon_pid_file ev) (hm_del (rpc_sock ev) (c_files c))\<rparr>"

section \<open>A restart of the daemon brings the table back\<close>

lemma save_table: "c_table (snd (save cd ev fails c)) = c_table c"
  by (auto simp: save_def Let_def split: option.split prod.split)

lemma paths_differ: "dump_file ev \<notin> {rpc_sock ev, daemon_pid_file ev}" "dump_backup_file ev \<notin> {rpc_sock ev, daemon_pid_file ev}"
  by (auto simp: dump_file_def dump_backup_file_def rpc_sock_def daemon_pid_file_def path_join_inj starts_with_def)

lemma load_dump_same:
  "hm_get d (dump_file ev) = hm_get d' (dump_file ev) \<Longrightarrow> hm_get d (dump_backup_file ev) = hm_get d' (dump_backup_file ev) \<Longrightarrow>
     load_dump cd ev d = load_dump cd ev d'"
  by (simp only: load_dump_def)

lemma load_dump_shutdown_end: "load_dump cd ev (c_files (shutdown_end ev c)) = load_dump cd ev (c_files c)"
  using paths_differ [of ev] by (intro load_dump_same) (auto simp: shutdown_end_def)

lemma load_dump_daemon_start: "daemon_start ev True pid files = Some files' \<Longrightarrow> load_dump cd ev files' = load_dump cd ev files"
  using paths_differ [of ev] by (intro load_dump_same) (auto simp: daemon_start_def)

lemma save_ok:
  assumes "cd_enc cd (dump_entries (c_table c)) = Some json" "cd_dec cd json = Some (dump_entries (c_table c))"
    and "dump_entries (c_table c) \<noteq> []" "\<And>x. fails x = None"
  shows "load_dump cd ev (c_files (snd (save cd ev fails c))) = Inr (dump_entries (c_table c))"
proof -
  let ?d = "fold apply_op (backup_ops cd ev (c_files c)) (c_files c)"
  have "c_files (snd (save cd ev fails c)) = hm_put (dump_file ev) json (hm_del (dump_tmp ev) (hm_put (dump_tmp ev) json ?d))"
    using assms by (simp add: save_def Let_def run_ops_ok replace_ops_def)
  with assms(2) show ?thesis by (simp add: load_dump_main)
qed

text \<open>C29: A daemon that shuts down stops every process it has, and the next daemon started finds in the
  dump exactly the processes that were there when the shutdown began, running or not, as long as
  the stops leave the dump and its backup alone.\<close>
theorem shutdown_then_start_keeps_table:
  assumes "cd_enc cd (dump_entries (c_table c)) = Some json" "cd_dec cd json = Some (dump_entries (c_table c))"
    and "dump_entries (c_table c) \<noteq> []" "\<And>x. fails x = None"
    and "shutdown_begin cd ev fails c = (stops, c1)"
    and "\<And>f. f \<in> {dump_file ev, dump_backup_file ev} \<Longrightarrow> hm_get (c_files c2) f = hm_get (c_files c1) f"
    and "daemon_start ev True pid (c_files (shutdown_end ev c2)) = Some files"
  shows "load_dump cd ev (c_files (serve_ctx files)) = Inr (dump_entries (c_table c))
    \<and> set stops = {RqStop i | i. i \<in> set (map fst (hm_rows (procs (c_table c))))} \<and> c_shutting_down c1"
proof -
  let ?c = "publish EvDaemonKill (c\<lparr>c_shutting_down := True\<rparr>)"
  have c1: "c1 = snd (save cd ev fails ?c)" "stops = map (RqStop \<circ> fst) (hm_rows (procs (c_table c)))"
    using assms(5) by (auto simp: shutdown_begin_def save_table)
  have "c_shutting_down (snd (save cd ev fails x)) = c_shutting_down x" for x
    by (auto simp: save_def Let_def split: option.split prod.split)
  then have "c_shutting_down c1" by (simp add: c1 publish_def)
  moreover have "load_dump cd ev (c_files c1) = Inr (dump_entries (c_table c))"
    using save_ok [of cd ?c json fails ev] assms(1-4) by (simp add: c1)
  ultimately show ?thesis
    using load_dump_daemon_start [OF assms(7), of cd] load_dump_shutdown_end [of cd ev c2] c1(2)
      load_dump_same [of "c_files c2" ev "c_files c1" cd] assms(6)
    by (auto simp: serve_ctx_def)
qed

lemma shutdown_then_start_keeps_table_witness:
  "\<exists>files. load_dump sample_codec (\<lambda>_. None) (c_files (serve_ctx files)) = Inr (dump_entries sample_table)"
proof -
  let ?c = "ctx_default\<lparr>c_table := sample_table\<rparr>" and ?ev = "\<lambda>_. None"
  obtain stops c1 where b: "shutdown_begin sample_codec ?ev (\<lambda>_. None) ?c = (stops, c1)"
    by (cases "shutdown_begin sample_codec ?ev (\<lambda>_. None) ?c")
  obtain files where f: "daemon_start ?ev True 7 (c_files (shutdown_end ?ev c1)) = Some files"
    by (simp add: daemon_start_def)
  have "dump_entries sample_table \<noteq> []" by (simp add: dump_entries_def sample_table_def hm_rows_def)
  then have "load_dump sample_codec ?ev (c_files (serve_ctx files)) = Inr (dump_entries (c_table ?c))"
    using shutdown_then_start_keeps_table [OF _ _ _ _ b _ f, of "''new''"] by (simp add: sample_codec_def)
  then show ?thesis by auto
qed

end
