(* ===== verification/Shutdown.thy ===== *)
theory Shutdown
  imports Halting Serve
begin

text \<open>
  \<open>graceful_shutdown\<close> of \<open>src/daemon/mod.rs\<close> over the whole daemon: the flag is set, a stop is started
  for every process in the table, all of them are awaited, and the daemon exits.  When is no child
  left then?
\<close>

section \<open>The shutdown\<close>

definition shutdown_ids :: "sys \<Rightarrow> u32 list" where
  "shutdown_ids s = map fst (hm_rows (procs (c_table (y_ctx s))))"

text \<open>The stops are spawned together; each then runs as a task of its own.\<close>

definition stop_all :: "sys \<Rightarrow> sys" where
  "stop_all s = fold (\<lambda>i. new_call (RqStop i)) (shutdown_ids s) s"

text \<open>They are all joined.\<close>

definition stops_joined :: "sys \<Rightarrow> sys \<Rightarrow> bool" where
  "stops_joined s s' = calls_joined (length (shutdown_ids s)) s s'"

text \<open>A launch that has looked at the flag and not yet registered its supervisor.\<close>

fun past_check :: "call_pc \<Rightarrow> bool" where
  "past_check (LN_check kont) = True"
| "past_check (LN_spawn kont) = True"
| "past_check _ = False"

definition no_launch_past_check :: "sys \<Rightarrow> bool" where
  "no_launch_past_check s = list_all (\<lambda>(k, cl). \<not> past_check (k_pc cl)) (y_calls s)"

lemma no_launch_past_checkD: "no_launch_past_check s \<Longrightarrow> call_of s k = Some cl \<Longrightarrow> \<not> past_check (k_pc cl)"
  by (auto simp: no_launch_past_check_def list_all_iff hm_get_def dest!: map_of_SomeD)

section \<open>Once the flag is set\<close>

definition closing :: "sys \<Rightarrow> bool" where
  "closing s = (c_shutting_down (y_ctx s) \<and> (\<forall>k cl. call_of s k = Some cl \<longrightarrow> \<not> past_check (k_pc cl)))"

lemma call_step_closing:
  assumes "call_step h k s = Some s'" "call_of s k = Some cl" "c_shutting_down (y_ctx s)" "\<not> past_check (k_pc cl)"
    "call_no_delete (k_pc cl)"
  shows "c_shutting_down (y_ctx s') \<and> (\<exists>cl'. y_calls s' = hm_put k cl' (y_calls s) \<and> \<not> past_check (k_pc cl'))"
  using assms
  by (cases "k_pc cl")
    (auto simp: call_step_def call_ops send_step_def send_cmd_def sa_row_def sys_facts new_ack_def Let_def
      split: option.splits if_splits ack.splits launch_cont.splits sum.splits prod.splits)

lemma closing_dstep:
  assumes cls: "closing s" and inv: "supervised s" and step: "dstep h no_delete s s'"
  shows "closing s'"
  using step
proof cases
  case (sup_moves t ch)
  then obtain u where "sup_of s t = Some u" by (auto simp: sup_step_def split: option.splits)
  with sup_step_frame [OF sup_moves] cls show ?thesis by (auto simp: closing_def sup_frame_def)
next
  case (call_moves k)
  then obtain cl where cl: "call_of s k = Some cl" by (auto simp: call_step_def split: option.splits)
  with cls have "c_shutting_down (y_ctx s)" "\<not> past_check (k_pc cl)" by (auto simp: closing_def)
  from call_step_closing [OF call_moves cl this supervised_call [OF inv cl]] cls show ?thesis
    by (auto simp: closing_def split: if_splits)
next
  case (child_exits t u ch code)
  with cls show ?thesis by (simp add: closing_def sys_facts)
next
  case (chore_moves c)
  with cls show ?thesis by (simp add: closing_def run_chore_frame [OF chore_moves] run_chore_frame(1) [OF chore_moves, unfolded table_kept_def])
next
  case (clock_moves n)
  with cls show ?thesis by (simp add: closing_def)
next
  case (outside_moves o')
  show ?thesis
  proof (cases o')
    case (OReq rq)
    have "\<not> past_check (snd (first_pc rq))" by (cases rq) auto
    with cls outside_moves OReq show ?thesis
      by (auto simp: closing_def new_call_def set_call_def split: prod.splits if_splits)
  next
    case OShutdown
    with cls outside_moves show ?thesis by (simp add: closing_def sys_facts publish_def)
  qed
qed

text \<open>No supervisor is started any more, for any process.\<close>

interpretation closed: halting no_delete closing "\<lambda>_. True"
proof (unfold_locales, goal_cases)
  case (2 h s s')
  then show ?case using supervision_inv.holds closing_dstep by blast
next
  case (3 s k cl kont)
  then have "\<not> past_check (k_pc cl)" unfolding closing_def by blast
  with 3 show ?case by simp
qed

lemma stop_all_spawns: "stop_all s = spawn_ops OpStop (shutdown_ids s) s"
  by (simp add: stop_all_def spawn_ops_def)

lemma closing_stop_all:
  assumes "closing s" "reach h no_delete id_room s"
  shows "closing (stop_all s)"
  using assms(1) spawned_calls [OF calls_inv.holds [OF assms(2)], of OpStop "shutdown_ids s"]
  by (fastforce simp: closing_def stop_all_spawns spawned)

section \<open>Properties\<close>

text \<open>C7: In a run without deletions whose ids stay below \<open>u32::MAX\<close> a graceful shutdown leaves no child: if no launch is
  past its look at the flag when the flag is set, then, whatever runs and whatever other requests (starts, stops,
  restarts) still come in, once the stops of the processes that are in the table have been joined no
  supervisor owns a child.\<close>
theorem shutdown_leaves_no_child:
  assumes "reach h no_delete id_room s" "no_launch_past_check s"
    and "run_moves h no_delete id_room mvs (outside_step OShutdown s) = Some s1"
    and "run_moves h no_delete id_room mvs' (stop_all s1) = Some s2" "stops_joined s1 s2"
  shows "\<forall>t u. sup_of s2 t = Some u \<longrightarrow> u_child u = None"
proof -
  let ?s0 = "outside_step OShutdown s"
  have "dstep h no_delete s ?s0" by (rule outside_moves) simp
  then have r0: "reach h no_delete id_room ?s0"
    using assms(1) reach_room [OF assms(1) id_room_init] by (auto intro: reach_step simp: id_room_def sys_facts)
  have c0: "closing ?s0"
    using no_launch_past_checkD [OF assms(2)] by (auto simp: closing_def sys_facts publish_def)
  have r1: "reach h no_delete id_room s1" "closing s1" using closed.runs [OF assms(3) r0 c0] by auto
  have c2: "closing (spawn_ops OpStop (shutdown_ids s1) s1)"
    using closing_stop_all [OF r1(2,1)] by (simp add: stop_all_spawns)
  note run = assms(4) [unfolded stop_all_spawns]
  note all = closed.runs [OF run spawned_stops_reach [OF r1(1)] c2]
  have none: "\<not> staffed s2 i t" for i t
  proof
    assume st: "staffed s2 i t"
    then have "staffed s1 i t" using all by (fastforce simp: staffed_def spawned)
    from staffed_row [OF supervision_inv.holds [OF r1(1)] this] have "row s1 i \<noteq> None" by auto
    then have "i \<in> set (shutdown_ids s1)" by (simp add: shutdown_ids_def hm_get_def hm_rows_def map_of_eq_None_iff)
    then obtain n where n: "n < length (shutdown_ids s1)" "shutdown_ids s1 ! n = i" by (auto simp: in_set_conv_nth)
    from closed.joined_stops [OF run r1(1) c2 assms(5) [unfolded stops_joined_def] n(1)] n(2) st show False by blast
  qed
  have r3: "reach h no_delete id_room s2" using all by blast
  show ?thesis
  proof (intro allI impI)
    fix t u assume u: "sup_of s2 t = Some u"
    with none [of "u_pm u" t] have "retired u" by (auto simp: staffed_def)
    then show "u_child u = None" using reach_sup_serves [OF r3 u] by (simp add: sup_serves_def)
  qed
qed

text \<open>The sample process is online; a shutdown stops it, and its child exits.\<close>

definition sample_closed :: sys where
  "sample_closed = outside_step OShutdown sample_online"

definition closing_moves :: "move list" where
  "closing_moves =
     replicate 3 (MCall 5) @ [MSup 4 ChCmd, MSup 4 ChGo, MSup 4 ChGo, MExit 4 (Some 0), MSup 4 ChExit, MSup 4 ChGo,
       MSup 4 ChGo, MSup 4 ChGo, MCall 5, MCall 5]"

lemma shutdown_leaves_no_child_witness:
  "sup_shows sample_closed 4 (\<lambda>u. u_child u \<noteq> None) \<and>
    (case run_moves sample_host no_delete id_room closing_moves (stop_all sample_closed) of
       Some s \<Rightarrow> stops_joined sample_closed s \<and> (\<forall>t u. sup_of s t = Some u \<longrightarrow> u_child u = None)
     | None \<Rightarrow> False)"
proof -
  have nolaunch: "no_launch_past_check sample_online" by code_simp
  have "case run_moves sample_host no_delete id_room closing_moves (stop_all sample_closed) of
      Some s \<Rightarrow> stops_joined sample_closed s | None \<Rightarrow> False" by code_simp
  then obtain s where s: "run_moves sample_host no_delete id_room closing_moves (stop_all sample_closed) = Some s"
      "stops_joined sample_closed s" by (auto split: option.splits)
  have start: "run_moves sample_host no_delete id_room [] (outside_step OShutdown sample_online) = Some sample_closed"
    by (simp add: sample_closed_def)
  have "sup_shows sample_closed 4 (\<lambda>u. u_child u \<noteq> None)" by code_simp
  with shutdown_leaves_no_child [OF sample_reach nolaunch start s] s show ?thesis by simp
qed

text \<open>A start has looked at the flag; the shutdown begins and stops the process, which has no supervisor yet;
  the start goes on.\<close>

definition late_start :: "move list" where
  "late_start = MOut (OReq (RqStart (app_new ''/srv/a.sh'') None)) # replicate 5 (MCall 0)"

definition late_moves :: "move list" where
  "late_moves = [MCall 3, MCall 3, MCall 0, MCall 0, MSup 5 ChGo, MSup 5 (ChSpawnOk 71)]"

definition late_closed :: sys where
  "late_closed = outside_step OShutdown (sample_state late_start)"

text \<open>C16: Without that condition a child can be left: a start that has looked at the flag just before it is set
  spawns its child after the stop of its process has found nothing to stop; all stops are joined,
  the daemon exits, and the child runs on.\<close>
theorem shutdown_can_leave_a_child:
  "\<exists>s. run_moves sample_host no_delete id_room late_moves (stop_all late_closed) = Some s \<and> stops_joined late_closed s
    \<and> sup_shows s 5 (\<lambda>u. map_option ch_exit (u_child u) = Some None)"
proof -
  have "case run_moves sample_host no_delete id_room late_moves (stop_all late_closed) of
      Some s \<Rightarrow> stops_joined late_closed s \<and> sup_shows s 5 (\<lambda>u. map_option ch_exit (u_child u) = Some None)
    | None \<Rightarrow> False" by code_simp
  then show ?thesis by (auto split: option.splits)
qed

end
