(* ===== verification/Singleton.thy ===== *)
theory Singleton
  imports Serve
begin

text \<open>
  \<open>src/daemon/mod.rs\<close>, \<open>run\<close>, \<open>serve\<close> and \<open>graceful_shutdown\<close> as several daemons run them at once:
  every client that finds no daemon spawns one, and the exclusive lock on the pid file decides which
  of them serves.  A lock belongs to the file that was opened, its inode, and not to the path: a daemon
  that stops removes the path while it still holds the lock.
\<close>

section \<open>The machine\<close>

text \<open>Where a daemon is; the number is the inode of the pid file it has opened.  A daemon that has ended has
  no state, and none of its locks.\<close>

datatype boot_pc =
    B_open
  | B_lock nat
  | B_unlink nat
  | B_write nat
  | B_bind nat
  | B_serve nat
  | B_unsock nat
  | B_unpid nat
  | B_exit nat

record machine =
  m_pid_path :: "nat option"
  m_text :: "(nat, string) hmap"
  m_lock :: "(nat, u32) hmap"
  m_sock :: "u32 option"
  m_boots :: "(u32, boot_pc) hmap"
  m_next :: nat

definition machine_init :: machine where
  "machine_init = \<lparr>m_pid_path = None, m_text = [], m_lock = [], m_sock = None, m_boots = [], m_next = 0\<rparr>"

abbreviation boot_of :: "machine \<Rightarrow> u32 \<Rightarrow> boot_pc option" where
  "boot_of m d \<equiv> hm_get (m_boots m) d"

definition at_boot :: "u32 \<Rightarrow> boot_pc \<Rightarrow> machine \<Rightarrow> machine" where
  "at_boot d pc m = m\<lparr>m_boots := hm_put d pc (m_boots m)\<rparr>"

fun boot_inode :: "boot_pc \<Rightarrow> nat option" where
  "boot_inode B_open = None"
| "boot_inode (B_lock i) = Some i"
| "boot_inode (B_unlink i) = Some i"
| "boot_inode (B_write i) = Some i"
| "boot_inode (B_bind i) = Some i"
| "boot_inode (B_serve i) = Some i"
| "boot_inode (B_unsock i) = Some i"
| "boot_inode (B_unpid i) = Some i"
| "boot_inode (B_exit i) = Some i"

text \<open>The process ends: the kernel drops its lock.  A socket it has bound stays where it is.\<close>

definition boot_gone :: "u32 \<Rightarrow> boot_pc \<Rightarrow> machine \<Rightarrow> machine" where
  "boot_gone d pc m =
     m\<lparr>m_boots := hm_del d (m_boots m),
       m_lock := (case boot_inode pc of
                    Some i \<Rightarrow> if hm_get (m_lock m) i = Some d then hm_del i (m_lock m) else m_lock m
                  | None \<Rightarrow> m_lock m)\<rparr>"

section \<open>\<open>run\<close> and \<open>serve\<close>\<close>

text \<open>Opening creates the file where there is none, and does not truncate it.\<close>

definition boot_open :: "u32 \<Rightarrow> machine \<Rightarrow> machine" where
  "boot_open d m =
     (case m_pid_path m of
        Some i \<Rightarrow> at_boot d (B_lock i) m
      | None \<Rightarrow>
          at_boot d (B_lock (m_next m))
            (m\<lparr>m_pid_path := Some (m_next m), m_text := hm_put (m_next m) [] (m_text m), m_next := Suc (m_next m)\<rparr>))"

text \<open>Losing the race: another daemon is running, this one exits.\<close>

definition boot_lock :: "u32 \<Rightarrow> nat \<Rightarrow> machine \<Rightarrow> machine" where
  "boot_lock d i m =
     (if hm_get (m_lock m) i \<noteq> None then boot_gone d (B_lock i) m
      else at_boot d (B_unlink i) (m\<lparr>m_lock := hm_put i d (m_lock m)\<rparr>))"

definition boot_unlink :: "u32 \<Rightarrow> nat \<Rightarrow> machine \<Rightarrow> machine" where
  "boot_unlink d i m = at_boot d (B_write i) (m\<lparr>m_sock := None\<rparr>)"

definition boot_write :: "u32 \<Rightarrow> nat \<Rightarrow> machine \<Rightarrow> machine" where
  "boot_write d i m = at_boot d (B_bind i) (m\<lparr>m_text := hm_put i (show_word d) (m_text m)\<rparr>)"

text \<open>Binding fails if the socket is there, and the daemon exits with an error.\<close>

definition boot_bind :: "u32 \<Rightarrow> nat \<Rightarrow> machine \<Rightarrow> machine" where
  "boot_bind d i m =
     (if m_sock m \<noteq> None then boot_gone d (B_bind i) m
      else at_boot d (B_serve i) (m\<lparr>m_sock := Some d\<rparr>))"

section \<open>The end of \<open>graceful_shutdown\<close>\<close>

definition boot_unsock :: "u32 \<Rightarrow> nat \<Rightarrow> machine \<Rightarrow> machine" where
  "boot_unsock d i m = at_boot d (B_unpid i) (m\<lparr>m_sock := None\<rparr>)"

definition boot_unpid :: "u32 \<Rightarrow> nat \<Rightarrow> machine \<Rightarrow> machine" where
  "boot_unpid d i m = at_boot d (B_exit i) (m\<lparr>m_pid_path := None\<rparr>)"

text \<open>A daemon's next step; serving is left only when it is told to.\<close>

definition boot_step :: "u32 \<Rightarrow> machine \<Rightarrow> machine option" where
  "boot_step d m =
     (case boot_of m d of
        None \<Rightarrow> None
      | Some B_open \<Rightarrow> Some (boot_open d m)
      | Some (B_lock i) \<Rightarrow> Some (boot_lock d i m)
      | Some (B_unlink i) \<Rightarrow> Some (boot_unlink d i m)
      | Some (B_write i) \<Rightarrow> Some (boot_write d i m)
      | Some (B_bind i) \<Rightarrow> Some (boot_bind d i m)
      | Some (B_serve i) \<Rightarrow> None
      | Some (B_unsock i) \<Rightarrow> Some (boot_unsock d i m)
      | Some (B_unpid i) \<Rightarrow> Some (boot_unpid d i m)
      | Some (B_exit i) \<Rightarrow> Some (boot_gone d (B_exit i) m))"

section \<open>Runs\<close>

text \<open>A client spawns a daemon; a daemon moves; a signal or \<open>kill\<close> stops one that serves; one dies.\<close>

datatype boot_move = BSpawn u32 | BStep u32 | BStop u32 | BCrash u32

fun do_boot :: "boot_move \<Rightarrow> machine \<Rightarrow> machine option" where
  "do_boot (BSpawn d) m = (if boot_of m d = None then Some (at_boot d B_open m) else None)"
| "do_boot (BStep d) m = boot_step d m"
| "do_boot (BStop d) m =
     (case boot_of m d of Some (B_serve i) \<Rightarrow> Some (at_boot d (B_unsock i) m) | _ \<Rightarrow> None)"
| "do_boot (BCrash d) m = (case boot_of m d of Some pc \<Rightarrow> Some (boot_gone d pc m) | None \<Rightarrow> None)"

fun run_boot :: "(machine \<Rightarrow> bool) \<Rightarrow> boot_move list \<Rightarrow> machine \<Rightarrow> machine option" where
  "run_boot room [] m = Some m"
| "run_boot room (b # bs) m =
     (case do_boot b m of
        None \<Rightarrow> None
      | Some m' \<Rightarrow> if room m' then run_boot room bs m' else None)"

definition serving :: "machine \<Rightarrow> u32 \<Rightarrow> bool" where
  "serving m d = (\<exists>i. boot_of m d = Some (B_serve i))"

text \<open>No daemon is about to lock a pid file whose path is already removed.\<close>

definition no_stale_open :: "machine \<Rightarrow> bool" where
  "no_stale_open m =
     list_all (\<lambda>(d, pc). case pc of B_lock i \<Rightarrow> m_pid_path m = Some i | _ \<Rightarrow> True) (m_boots m)"

lemma no_stale_openD: "no_stale_open m \<Longrightarrow> boot_of m d = Some (B_lock i) \<Longrightarrow> m_pid_path m = Some i"
  by (auto simp: no_stale_open_def list_all_iff hm_get_def dest!: map_of_SomeD)

section \<open>The invariant\<close>

text \<open>From the lock on to the removal of the pid file.\<close>

fun in_charge :: "boot_pc \<Rightarrow> nat option" where
  "in_charge (B_unlink i) = Some i"
| "in_charge (B_write i) = Some i"
| "in_charge (B_bind i) = Some i"
| "in_charge (B_serve i) = Some i"
| "in_charge (B_unsock i) = Some i"
| "in_charge (B_unpid i) = Some i"
| "in_charge _ = None"

fun pc_fits :: "u32 \<Rightarrow> boot_pc \<Rightarrow> machine \<Rightarrow> bool" where
  "pc_fits d (B_write i) m = (m_sock m = None)"
| "pc_fits d (B_bind i) m = (m_sock m = None \<and> hm_get (m_text m) i = Some (show_word d))"
| "pc_fits d (B_serve i) m = (m_sock m = Some d \<and> hm_get (m_text m) i = Some (show_word d))"
| "pc_fits d (B_unsock i) m = (m_sock m = Some d \<and> hm_get (m_text m) i = Some (show_word d))"
| "pc_fits d (B_unpid i) m = (m_sock m = None \<and> hm_get (m_text m) i = Some (show_word d))"
| "pc_fits d _ m = True"

definition one_in_charge :: "machine \<Rightarrow> bool" where
  "one_in_charge m =
     ((\<forall>d pc i. boot_of m d = Some pc \<longrightarrow> in_charge pc = Some i \<longrightarrow>
          hm_get (m_lock m) i = Some d \<and> m_pid_path m = Some i \<and> pc_fits d pc m)
      \<and> (\<forall>d i. boot_of m d = Some (B_exit i) \<longrightarrow> hm_get (m_lock m) i = Some d \<and> m_pid_path m \<noteq> Some i)
      \<and> (\<forall>i. m_pid_path m = Some i \<longrightarrow> i < m_next m)
      \<and> (\<forall>i d. hm_get (m_lock m) i = Some d \<longrightarrow> i < m_next m))"

lemma in_charge_inode: "in_charge pc = Some i \<Longrightarrow> boot_inode pc = Some i"
  by (cases pc) auto

lemma one_in_chargeD:
  assumes "one_in_charge m" "boot_of m d = Some pc" "in_charge pc = Some i"
  shows "hm_get (m_lock m) i = Some d" "m_pid_path m = Some i" "pc_fits d pc m"
  using assms by (auto simp: one_in_charge_def)

lemma one_in_charge_alone:
  assumes "one_in_charge m" "boot_of m d = Some pc" "in_charge pc = Some i" "boot_of m d' = Some pc'" "in_charge pc' = Some j"
  shows "d' = d"
  using one_in_chargeD(1,2) [OF assms(1-3)] one_in_chargeD(1,2) [OF assms(1,4,5)] by simp

lemma pc_fits_same:
  "m_sock m' = m_sock m \<Longrightarrow> m_text m' = m_text m \<Longrightarrow> pc_fits d pc m' = pc_fits d pc m"
  by (cases pc) simp_all

lemma one_in_charge_init: "one_in_charge machine_init"
  by (simp add: one_in_charge_def machine_init_def)

text \<open>A step of the daemon in charge that keeps it in charge.\<close>

lemma one_in_charge_go:
  assumes inv: "one_in_charge m" and d: "boot_of m d = Some pc" "in_charge pc = Some i"
    and pc': "in_charge pc' = Some i" "pc_fits d pc' m'"
    and m': "m_boots m' = hm_put d pc' (m_boots m)" "m_lock m' = m_lock m" "m_pid_path m' = m_pid_path m" "m_next m' = m_next m"
  shows "one_in_charge m'"
proof -
  have "d' = d" if "boot_of m d' = Some pc2" "in_charge pc2 = Some j" for d' pc2 j
    using one_in_charge_alone [OF inv d that] .
  moreover have "pc' \<noteq> B_exit j" for j using pc'(1) by auto
  ultimately show ?thesis
    using inv one_in_chargeD(1,2) [OF inv d] pc' by (auto simp: one_in_charge_def m' split: if_splits)
qed

text \<open>A step that brings no daemon into charge and touches neither locks, paths nor texts.\<close>

lemma one_in_charge_idle:
  assumes inv: "one_in_charge m" and pc': "in_charge pc' = None" "\<And>i. pc' \<noteq> B_exit i"
  shows "one_in_charge (at_boot d pc' m)"
proof -
  have "pc_fits d' pc (at_boot d pc' m) = pc_fits d' pc m" for d' pc by (rule pc_fits_same) (simp_all add: at_boot_def)
  with inv pc' show ?thesis by (auto simp: one_in_charge_def at_boot_def split: if_splits)
qed

lemma one_in_charge_gone:
  assumes inv: "one_in_charge m" and d: "boot_of m d = Some pc"
  shows "one_in_charge (boot_gone d pc m)"
proof -
  have "pc_fits d' pc' (boot_gone d pc m) = pc_fits d' pc' m" for d' pc'
    by (rule pc_fits_same) (simp_all add: boot_gone_def)
  moreover have "hm_get (m_lock (boot_gone d pc m)) i = Some e \<longleftrightarrow> hm_get (m_lock m) i = Some e \<and> \<not> (e = d \<and> boot_inode pc = Some i)" for i e
    by (auto simp: boot_gone_def split: option.splits if_splits)
  moreover have "boot_of (boot_gone d pc m) e = (if e = d then None else boot_of m e)"
    "m_pid_path (boot_gone d pc m) = m_pid_path m" "m_next (boot_gone d pc m) = m_next m" for e
    by (simp_all add: boot_gone_def)
  ultimately show ?thesis using inv unfolding one_in_charge_def by auto
qed

lemma one_in_charge_open:
  assumes inv: "one_in_charge m"
  shows "one_in_charge (boot_open d m)"
proof (cases "m_pid_path m")
  case (Some i)
  with one_in_charge_idle [OF inv, of "B_lock i"] show ?thesis by (simp add: boot_open_def)
next
  case None
  let ?m = "m\<lparr>m_pid_path := Some (m_next m), m_text := hm_put (m_next m) [] (m_text m), m_next := Suc (m_next m)\<rparr>"
  have "in_charge pc = None" if "boot_of m e = Some pc" for e pc
    using one_in_chargeD(2) [OF inv that] None by (cases "in_charge pc") auto
  then have "one_in_charge ?m" using inv by (fastforce simp: one_in_charge_def)
  with None one_in_charge_idle [of ?m "B_lock (m_next m)"] show ?thesis by (simp add: boot_open_def)
qed

lemma one_in_charge_lock:
  assumes inv: "one_in_charge m" and d: "boot_of m d = Some (B_lock i)" and path: "m_pid_path m = Some i"
  shows "one_in_charge (boot_lock d i m)"
proof (cases "hm_get (m_lock m) i")
  case (Some e)
  with one_in_charge_gone [OF inv d] show ?thesis by (simp add: boot_lock_def)
next
  case None
  have "in_charge pc = None" if "boot_of m e = Some pc" for e pc
    using one_in_chargeD(1,2) [OF inv that] None path by (cases "in_charge pc") auto
  with inv None path show ?thesis
    by (fastforce simp: boot_lock_def one_in_charge_def at_boot_def split: if_splits)
qed

lemma one_in_charge_step:
  assumes inv: "one_in_charge m" and room: "no_stale_open m" and step: "boot_step d m = Some m'"
  shows "one_in_charge m'"
proof -
  obtain pc where pc: "boot_of m d = Some pc" using step by (auto simp: boot_step_def split: option.splits)
  show ?thesis
  proof (cases pc)
    case B_open
    with step pc one_in_charge_open [OF inv] show ?thesis by (auto simp: boot_step_def)
  next
    case (B_lock i)
    with step pc one_in_charge_lock [OF inv _ no_stale_openD [OF room]] show ?thesis by (auto simp: boot_step_def)
  next
    case (B_unlink i)
    with step pc show ?thesis
      by (auto simp: boot_step_def boot_unlink_def at_boot_def intro: one_in_charge_go [OF inv pc, where pc' = "B_write i"])
  next
    case (B_write i)
    with step pc one_in_chargeD(3) [OF inv pc] show ?thesis
      by (auto simp: boot_step_def boot_write_def at_boot_def intro: one_in_charge_go [OF inv pc, where pc' = "B_bind i"])
  next
    case (B_bind i)
    with step pc one_in_chargeD(3) [OF inv pc] show ?thesis
      by (auto simp: boot_step_def boot_bind_def at_boot_def intro: one_in_charge_go [OF inv pc, where pc' = "B_serve i"])
  next
    case (B_serve i)
    with step pc show ?thesis by (simp add: boot_step_def)
  next
    case (B_unsock i)
    with step pc one_in_chargeD(3) [OF inv pc] show ?thesis
      by (auto simp: boot_step_def boot_unsock_def at_boot_def intro: one_in_charge_go [OF inv pc, where pc' = "B_unpid i"])
  next
    case (B_unpid i)
    then have i: "hm_get (m_lock m) i = Some d" "m_pid_path m = Some i"
      and alone: "\<And>e pc' j. boot_of m e = Some pc' \<Longrightarrow> in_charge pc' = Some j \<Longrightarrow> e = d"
      using one_in_chargeD(1,2) [OF inv pc] one_in_charge_alone [OF inv pc] by auto
    have m': "m' = at_boot d (B_exit i) (m\<lparr>m_pid_path := None\<rparr>)"
      using step pc B_unpid by (simp add: boot_step_def boot_unpid_def)
    show ?thesis using inv i alone by (fastforce simp: m' one_in_charge_def at_boot_def split: if_splits)
  next
    case (B_exit i)
    with step pc one_in_charge_gone [OF inv pc] show ?thesis by (auto simp: boot_step_def)
  qed
qed

lemma one_in_charge_move:
  assumes inv: "one_in_charge m" and room: "no_stale_open m" and step: "do_boot b m = Some m'"
  shows "one_in_charge m'"
proof (cases b)
  case (BSpawn d)
  with step one_in_charge_idle [OF inv, of B_open] show ?thesis by (auto split: if_splits)
next
  case (BStep d)
  with step one_in_charge_step [OF inv room] show ?thesis by simp
next
  case (BStop d)
  with step obtain i where i: "boot_of m d = Some (B_serve i)" "m' = at_boot d (B_unsock i) m"
    by (auto split: option.splits boot_pc.splits)
  then show ?thesis using one_in_chargeD(3) [OF inv i(1)]
    by (auto simp: at_boot_def intro: one_in_charge_go [OF inv i(1), where pc' = "B_unsock i"])
next
  case (BCrash d)
  with step one_in_charge_gone [OF inv] show ?thesis by (auto split: option.splits)
qed

lemma one_in_charge_run:
  "run_boot no_stale_open bs m = Some m' \<Longrightarrow> one_in_charge m \<Longrightarrow> no_stale_open m \<Longrightarrow> one_in_charge m'"
proof (induction bs arbitrary: m)
  case (Cons b bs)
  then show ?case using one_in_charge_move by (auto split: option.splits if_splits)
qed simp

section \<open>Properties\<close>

text \<open>C8: One daemon serves: however many clients spawn a daemon at once, and wherever daemons are
  stopped or die, two of them never serve together, and the one that serves is the one whose socket
  clients find and whose process id the pid file holds.  The runs are those in which no pid file is
  removed while a starting daemon has it open and has not tried its lock.\<close>
theorem one_daemon_serves:
  assumes "run_boot no_stale_open bs machine_init = Some m" "serving m d"
  shows "(\<forall>e. serving m e \<longrightarrow> e = d) \<and> m_sock m = Some d
    \<and> (\<exists>i. m_pid_path m = Some i \<and> hm_get (m_text m) i = Some (show_word d))"
proof -
  have "no_stale_open machine_init" by (simp add: machine_init_def no_stale_open_def)
  with assms(1) one_in_charge_init have inv: "one_in_charge m" by (rule one_in_charge_run)
  obtain i where i: "boot_of m d = Some (B_serve i)" using assms(2) by (auto simp: serving_def)
  have "e = d" if "serving m e" for e
    using that one_in_charge_alone [OF inv i] by (auto simp: serving_def)
  with one_in_chargeD [OF inv i] show ?thesis by auto
qed

text \<open>Two clients spawn two daemons.  One wins; it dies, and the next one removes its socket.\<close>

definition race_boots :: "boot_move list" where
  "race_boots =
     [BSpawn 7, BSpawn 8, BStep 7, BStep 8, BStep 8, BStep 7, BStep 8, BStep 8, BStep 8, BCrash 8,
      BSpawn 9, BStep 9, BStep 9, BStep 9, BStep 9, BStep 9]"

definition boot_result :: "(machine \<Rightarrow> bool) \<Rightarrow> boot_move list \<Rightarrow> machine" where
  "boot_result room bs = (case run_boot room bs machine_init of Some m \<Rightarrow> m | None \<Rightarrow> machine_init)"

lemma one_daemon_serves_witness:
  "run_boot no_stale_open race_boots machine_init \<noteq> None
    \<and> serving (boot_result no_stale_open race_boots) 9 \<and> \<not> serving (boot_result no_stale_open race_boots) 7
    \<and> m_sock (boot_result no_stale_open race_boots) = Some 9"
proof -
  have "case run_boot no_stale_open race_boots machine_init of Some m \<Rightarrow> boot_of m 9 = Some (B_serve 0) | None \<Rightarrow> False"
    by code_simp
  then obtain m where m: "run_boot no_stale_open race_boots machine_init = Some m" "boot_of m 9 = Some (B_serve 0)"
    by (auto split: option.splits)
  then have s: "serving m 9" by (simp add: serving_def)
  have r: "boot_result no_stale_open race_boots = m" by (simp add: boot_result_def m(1))
  note only = one_daemon_serves [OF m(1) s]
  have "\<not> serving m 7"
  proof
    assume "serving m 7"
    with only have "(7 :: u32) = 9" by blast
    then show False by simp
  qed
  moreover have "m_sock m = Some 9" using only by blast
  ultimately show ?thesis unfolding r using m(1) s by simp
qed

text \<open>A daemon that stops while another one starts.\<close>

definition stale_boots :: "boot_move list" where
  "stale_boots =
     [BSpawn 7, BStep 7, BStep 7, BStep 7, BStep 7, BStep 7, BSpawn 8, BStep 8, BStop 7, BStep 7, BStep 7, BStep 7,
      BStep 8, BStep 8, BStep 8, BStep 8, BSpawn 9, BStep 9, BStep 9, BStep 9, BStep 9, BStep 9]"

text \<open>C17: The lock does not exclude a second daemon in every run: daemon 8 opens the pid file of daemon 7, which
  stops and removes it; 8 then locks a file that has no name any more, and 9 creates and
  locks a new one.  Both serve, and clients only reach 9.\<close>
theorem two_daemons_can_serve:
  "\<exists>bs m. run_boot (\<lambda>m. True) bs machine_init = Some m \<and> serving m 8 \<and> serving m 9 \<and> m_sock m = Some 9"
proof -
  have "map_option (\<lambda>m. (boot_of m 8, boot_of m 9, m_sock m)) (run_boot (\<lambda>m. True) stale_boots machine_init)
    = Some (Some (B_serve 0), Some (B_serve (Suc 0)), Some 9)"
    by (simp add: stale_boots_def machine_init_def boot_step_def at_boot_def boot_gone_def boot_open_def boot_lock_def
        boot_unlink_def boot_write_def boot_bind_def boot_unsock_def boot_unpid_def)
  then obtain m where "run_boot (\<lambda>m. True) stale_boots machine_init = Some m"
      "boot_of m 8 = Some (B_serve 0)" "boot_of m 9 = Some (B_serve (Suc 0))" "m_sock m = Some 9" by auto
  then show ?thesis unfolding serving_def by blast
qed

end
