(* ===== verification/Background.thy ===== *)
theory Background
  imports Ops
begin

text \<open>
  The tasks that restart processes on their own: the health check (\<open>src/daemon/health.rs\<close>), the
  cron schedule (\<open>src/daemon/cron.rs\<close>) and the file watcher with its debounce
  (\<open>src/daemon/watcher.rs\<close>).  One round of a loop reads the row, learns what happened outside
  and asks for a restart or not; a request goes to the operations as \<open>RqRestart\<close>.
\<close>

section \<open>Health checks\<close>

text \<open>How the command ended: its success, or it could not run, or it ran out of time.\<close>

datatype hc_outcome = HcExit bool | HcSpawnError | HcTimeout

fun hc_healthy :: "hc_outcome \<Rightarrow> bool" where
  "hc_healthy (HcExit ok) = ok"
| "hc_healthy HcSpawnError = False"
| "hc_healthy HcTimeout = False"

record hc_round =
  hr_row :: "proc option"
  hr_outcome :: hc_outcome
  hr_now :: i64

text \<open>The command's environment is the child's; the outcome is asked for only while it is online.\<close>

definition health_round :: "health_check \<Rightarrow> u32 \<Rightarrow> hc_round \<Rightarrow> u32 \<Rightarrow> (u32 \<times> event list \<times> request list) option" where
  "health_round hc pm r fails =
     (case hr_row r of
        None \<Rightarrow> None
      | Some p \<Rightarrow>
          if p_status p \<noteq> Online then Some (0, [], [])
          else if hc_healthy (hr_outcome r) then Some (0, [], [])
          else
            let fails' = fails + 1
            in if hc_max_fails hc \<le> fails'
               then Some (0, [EvProcess pm (p_name p) ''health check failed'' (hr_now r)], [RqRestart pm])
               else Some (fails', [], []))"

fun health_loop :: "health_check \<Rightarrow> u32 \<Rightarrow> hc_round list \<Rightarrow> u32 \<Rightarrow> u32 \<times> event list \<times> request list" where
  "health_loop hc pm [] fails = (fails, [], [])"
| "health_loop hc pm (r # rs) fails =
     (case health_round hc pm r fails of
        None \<Rightarrow> (fails, [], [])
      | Some (fails', es, qs) \<Rightarrow>
          (case health_loop hc pm rs fails' of (n, es', qs') \<Rightarrow> (n, es @ es', qs @ qs')))"

section \<open>Cron\<close>

text \<open>\<open>next_at\<close> is croner's next occurrence.  The wait is 0 when it lies in the past.\<close>

record cron_round =
  cr_now :: i64
  cr_exists :: bool

definition cron_wait :: "(i64 \<Rightarrow> i64 option) \<Rightarrow> i64 \<Rightarrow> nat option" where
  "cron_wait next_at now = map_option (\<lambda>n. nat (sint n - sint now)) (next_at now)"

fun cron_loop :: "(i64 \<Rightarrow> i64 option) \<Rightarrow> u32 \<Rightarrow> cron_round list \<Rightarrow> request list" where
  "cron_loop next_at pm [] = []"
| "cron_loop next_at pm (r # rs) =
     (if cron_wait next_at (cr_now r) = None \<or> \<not> cr_exists r then []
      else RqRestart pm # cron_loop next_at pm rs)"

section \<open>The file watcher\<close>

datatype change_kind = KCreate | KModify | KRemove | KOther

definition default_ignores :: "string list" where
  "default_ignores = [''node_modules'', ''.git'']"

definition default_debounce_ms :: u64 where
  "default_debounce_ms = 200"

definition watch_ignores :: "app_config \<Rightarrow> string list" where
  "watch_ignores config = ac_ignore_watch config @ default_ignores"

definition watch_debounce :: "app_config \<Rightarrow> u64" where
  "watch_debounce config = (case ac_watch_delay config of Some d \<Rightarrow> d | None \<Rightarrow> default_debounce_ms)"

definition change_ignored :: "string list \<Rightarrow> string list \<Rightarrow> bool" where
  "change_ignored ignores paths = list_all (\<lambda>p. list_ex (str_contains p) ignores) paths"

definition change_relevant :: "string list \<Rightarrow> change_kind \<Rightarrow> string list \<Rightarrow> bool" where
  "change_relevant ignores k paths = (\<not> change_ignored ignores paths \<and> k \<in> {KCreate, KModify, KRemove})"

text \<open>What the receiving task sees: a change, or a quiet period as long as the debounce, or the end of
  the channel.  A quiet period before the first change of a burst means nothing; after it, it fires.\<close>

datatype watch_signal = WChange | WQuiet | WClosed

fun watch_loop :: "u32 \<Rightarrow> bool \<Rightarrow> (watch_signal \<times> bool) list \<Rightarrow> request list" where
  "watch_loop pm burst [] = []"
| "watch_loop pm burst ((WClosed, ex) # ws) = []"
| "watch_loop pm burst ((WChange, ex) # ws) = watch_loop pm True ws"
| "watch_loop pm burst ((WQuiet, ex) # ws) =
     (if \<not> burst then watch_loop pm False ws
      else if \<not> ex then []
      else RqRestart pm # watch_loop pm False ws)"

section \<open>Counting failures\<close>

definition round_fails :: "hc_round \<Rightarrow> bool" where
  "round_fails r = (case hr_row r of Some p \<Rightarrow> p_status p = Online \<and> \<not> hc_healthy (hr_outcome r) | None \<Rightarrow> False)"

text \<open>The length of the run of failures that ends a history.\<close>

definition streak :: "hc_round list \<Rightarrow> nat" where
  "streak rs = length (takeWhile round_fails (rev rs))"

lemma streak_Nil [simp]: "streak [] = 0"
  by (simp add: streak_def)

lemma streak_snoc: "streak (rs @ [r]) = (if round_fails r then Suc (streak rs) else 0)"
  by (simp add: streak_def)

lemma health_round_Some: "hr_row r \<noteq> None \<Longrightarrow> \<exists>f e q. health_round hc pm r fails = Some (f, e, q)"
  by (auto simp: health_round_def Let_def)

lemma health_loop_snoc:
  assumes "list_all (\<lambda>r. hr_row r \<noteq> None) rs" "hr_row r \<noteq> None" "health_loop hc pm rs fails = (n, es, qs)"
  shows "health_loop hc pm (rs @ [r]) fails =
    (case health_round hc pm r n of Some (n', es', qs') \<Rightarrow> (n', es @ es', qs @ qs') | None \<Rightarrow> (n, es, qs))"
  using assms
proof (induction rs arbitrary: fails n es qs)
  case Nil
  then show ?case by (auto split: option.split)
next
  case (Cons x xs)
  then obtain f e q where x: "health_round hc pm x fails = Some (f, e, q)"
    using health_round_Some [of x hc pm fails] by auto
  obtain n' es' qs' where rest: "health_loop hc pm xs f = (n', es', qs')" by (cases "health_loop hc pm xs f")
  from Cons.IH [OF _ Cons.prems(2) rest] Cons.prems x rest show ?case
    by (auto split: option.splits prod.splits)
qed

text \<open>One round, given the count so far: what the streak says.\<close>

lemma health_round_streak:
  assumes "hr_row r \<noteq> None" "unat fails = streak rs mod unat (hc_max_fails hc)" "hc_max_fails hc \<noteq> 0"
  shows "\<exists>n es qs. health_round hc pm r fails = Some (n, es, qs)
    \<and> unat n = streak (rs @ [r]) mod unat (hc_max_fails hc)
    \<and> qs = (if round_fails r \<and> unat (hc_max_fails hc) dvd streak (rs @ [r]) then [RqRestart pm] else [])"
proof -
  let ?m = "unat (hc_max_fails hc)"
  have m: "0 < ?m" using assms(3) by (simp add: unat_gt_0)
  obtain p where p: "hr_row r = Some p" using assms(1) by auto
  show ?thesis
  proof (cases "round_fails r")
    case False
    with p show ?thesis by (auto simp: health_round_def round_fails_def streak_snoc Let_def)
  next
    case True
    have lt: "unat fails < ?m" using assms(2) m by simp
    then have "fails < hc_max_fails hc" by (simp add: word_less_nat_alt)
    then have suc: "unat (fails + 1) = unat fails + 1" by (rule u32_less_plus_one)
    have next_count: "Suc (streak rs) mod ?m = (if Suc (unat fails) = ?m then 0 else Suc (unat fails))"
      using assms(2) lt by (simp add: mod_Suc)
    have dvd: "?m dvd Suc (streak rs) \<longleftrightarrow> Suc (unat fails) = ?m"
      using next_count by (simp add: dvd_eq_mod_eq_0)
    have le: "hc_max_fails hc \<le> fails + 1 \<longleftrightarrow> Suc (unat fails) = ?m"
      using suc lt by (auto simp: word_le_nat_alt)
    show ?thesis
      using p True by (simp add: health_round_def round_fails_def streak_snoc Let_def le dvd next_count suc split: if_splits)
  qed
qed

lemma health_loop_streak:
  assumes "list_all (\<lambda>r. hr_row r \<noteq> None) rs" "hc_max_fails hc \<noteq> 0"
  shows "unat (fst (health_loop hc pm rs 0)) = streak rs mod unat (hc_max_fails hc)"
  using assms(1)
proof (induction rs rule: rev_induct)
  case (snoc r rs)
  obtain n es qs where l: "health_loop hc pm rs 0 = (n, es, qs)" by (cases "health_loop hc pm rs 0")
  with snoc have n: "unat n = streak rs mod unat (hc_max_fails hc)" and r: "hr_row r \<noteq> None"
    and rs: "list_all (\<lambda>r. hr_row r \<noteq> None) rs" by auto
  from health_round_streak [OF r n assms(2), of pm] health_loop_snoc [OF rs r l] show ?case by auto
qed simp

section \<open>Properties\<close>

text \<open>C26: The health check asks for a restart at exactly those rounds at which the command fails while
  the process is online and the run of consecutive failures it ends is a multiple of
  \<open>max_fails\<close>; a success, or a round at which the process is not online, starts the run anew.\<close>
theorem health_check_restarts_on_streak:
  assumes "list_all (\<lambda>r. hr_row r \<noteq> None) (rs @ [r])" "hc_max_fails hc \<noteq> 0"
  shows "snd (snd (health_loop hc pm (rs @ [r]) 0)) = snd (snd (health_loop hc pm rs 0)) @
    (if round_fails r \<and> unat (hc_max_fails hc) dvd streak (rs @ [r]) then [RqRestart pm] else [])"
proof -
  have rs: "list_all (\<lambda>r. hr_row r \<noteq> None) rs" and r: "hr_row r \<noteq> None" using assms(1) by auto
  obtain n es qs where l: "health_loop hc pm rs 0 = (n, es, qs)" by (cases "health_loop hc pm rs 0")
  have n: "unat n = streak rs mod unat (hc_max_fails hc)"
    using health_loop_streak [OF rs assms(2), of pm] l by simp
  from health_round_streak [OF r n assms(2), of pm] health_loop_snoc [OF rs r l] l show ?thesis by auto
qed

definition sick_round :: hc_round where
  "sick_round = \<lparr>hr_row = Some ((proc_new (\<lambda>_. None) 0 4 0 (app_new ''a.js''))\<lparr>p_status := Online\<rparr>),
     hr_outcome = HcTimeout, hr_now = 0\<rparr>"

lemma health_check_restarts_on_streak_witness:
  "snd (snd (health_loop \<lparr>hc_command = ''c'', hc_interval = 1, hc_timeout = 1, hc_max_fails = 2\<rparr> 4
     [sick_round, sick_round] 0)) = [RqRestart 4]"
proof -
  let ?hc = "\<lparr>hc_command = ''c'', hc_interval = 1, hc_timeout = 1, hc_max_fails = 2 :: u32\<rparr>"
  have f: "round_fails sick_round" "hr_row sick_round \<noteq> None" by (simp_all add: round_fails_def sick_round_def)
  then have "streak ([sick_round] @ [sick_round]) = 2" "streak ([] @ [sick_round]) = 1" by (simp_all add: streak_def)
  with health_check_restarts_on_streak [of "[sick_round]" sick_round ?hc 4]
    health_check_restarts_on_streak [of "[]" sick_round ?hc 4] f
  show ?thesis by simp
qed

text \<open>A burst of changes restarts the process once: however many changes arrive before the first
  quiet period, one restart is asked for, and none more until another change.\<close>
lemma burst_restarts_once:
  "watch_loop pm False (replicate (Suc k) (WChange, e) @ replicate (Suc n) (WQuiet, True)) = [RqRestart pm]"
proof -
  have quiet: "watch_loop pm False (replicate n (WQuiet, True)) = []" for n by (induction n) auto
  have "watch_loop pm True (replicate k (WChange, e) @ (WQuiet, True) # ws) = RqRestart pm # watch_loop pm False ws"
    for k ws by (induction k) auto
  with quiet show ?thesis by simp
qed

lemma starts_with_append: "starts_with a p \<Longrightarrow> starts_with (a @ s) p"
proof -
  assume sw: "starts_with a p"
  then have "length (take (length p) a) = length p" by (simp add: starts_with_def)
  then have "length p \<le> length a" by simp
  with sw show ?thesis by (simp add: starts_with_def)
qed

lemma str_contains_prefix: "str_contains d p \<Longrightarrow> str_contains (d @ s) p"
proof (induction d)
  case (Cons c d)
  then show ?case using starts_with_append [of "c # d" p s] by auto
next
  case Nil
  then show ?case by (cases s) (auto simp: starts_with_def)
qed

text \<open>If the path of the watched directory itself contains an ignored text, as every directory
  below \<open>.github\<close> contains \<open>.git\<close>, no change in it is ever relevant.\<close>
theorem ignored_directory_never_restarts:
  assumes "ig \<in> set (watch_ignores config)" "str_contains dir ig" "list_all (\<lambda>p. \<exists>s. p = dir @ s) paths"
  shows "\<not> change_relevant (watch_ignores config) k paths"
proof -
  have "\<exists>g \<in> set (watch_ignores config). str_contains p g" if "p \<in> set paths" for p
  proof -
    from assms(3) that obtain s where "p = dir @ s" by (auto simp: list_all_iff)
    with assms(1) str_contains_prefix [OF assms(2), of s] show ?thesis by blast
  qed
  then show ?thesis by (auto simp: change_relevant_def change_ignored_def list_all_iff list_ex_iff)
qed

lemma ignored_directory_never_restarts_witness:
  "\<not> change_relevant (watch_ignores (app_new ''a.js'')) KModify [''/srv/.github/app/a.js'']"
proof -
  have "''.git'' \<in> set (watch_ignores (app_new ''a.js''))" by (simp add: watch_ignores_def default_ignores_def)
  moreover have "str_contains ''/srv/.github/app'' ''.git''" by (simp add: starts_with_def)
  ultimately show ?thesis
    using ignored_directory_never_restarts [of "''.git''" "app_new ''a.js''" "''/srv/.github/app''" "[''/srv/.github/app/a.js'']" KModify]
    by simp
qed

end
