(* ===== verification/Client.thy ===== *)
theory Client
  imports Rpc
begin

text \<open>
  \<open>src/client.rs\<close>: the client handle.  A connection is the line codec and the lines the peer will
  still send; connecting, spawning the daemon and finding its binary are functions of the
  environment, the file system and the attempts.
\<close>

section \<open>Calls\<close>

text \<open>What \<open>read_line\<close> gives: a reply, text that is none, the end of the stream, or an error.\<close>

datatype wire = W_response response | W_garbage string | W_eof | W_error

datatype client_err =
    CE_remote err
  | CE_closed
  | CE_invalid_reply string
  | CE_shape
  | CE_invalid_app err
  | CE_path_too_long string
  | CE_no_binary
  | CE_not_up string
  | CE_refused string

definition reply_value :: "wire \<Rightarrow> (client_err, rpc_value option) result" where
  "reply_value w =
     (case w of
        W_error \<Rightarrow> Inl CE_closed
      | W_eof \<Rightarrow> Inl CE_closed
      | W_garbage s \<Rightarrow> Inl (CE_invalid_reply (trim s))
      | W_response r \<Rightarrow> (case rs_error r of Some e \<Rightarrow> Inl (CE_remote e) | None \<Rightarrow> Inr (rs_result r)))"

text \<open>\<open>call\<close>: the counter moves, the request goes out, the next line is the answer; its id is not
  compared.  \<open>shape\<close> is the deserialisation of the result (a missing one is \<open>null\<close>).\<close>

definition call_request :: "u64 \<Rightarrow> rpc_method \<Rightarrow> u64 \<times> (u64 \<times> rpc_method)" where
  "call_request n m = (let i = n + 1 in (i, (i, m)))"

definition call_result :: "(rpc_value option \<Rightarrow> 'a option) \<Rightarrow> wire \<Rightarrow> (client_err, 'a) result" where
  "call_result shape w =
     (case reply_value w of
        Inl e \<Rightarrow> Inl e
      | Inr v \<Rightarrow> (case shape v of Some x \<Rightarrow> Inr x | None \<Rightarrow> Inl CE_shape))"

fun shape_snapshots :: "rpc_value option \<Rightarrow> snapshot list option" where
  "shape_snapshots (Some (V_snapshots s)) = Some s"
| "shape_snapshots v = None"

fun shape_sent :: "rpc_value option \<Rightarrow> u32 option" where
  "shape_sent (Some (V_sent n)) = Some n"
| "shape_sent v = None"

fun shape_path :: "rpc_value option \<Rightarrow> string option" where
  "shape_path (Some (V_saved p n)) = Some p"
| "shape_path v = None"

fun shape_ping :: "rpc_value option \<Rightarrow> (string \<times> u32) option" where
  "shape_ping (Some (V_ping v p)) = Some (v, p)"
| "shape_ping v = None"

definition shape_any :: "rpc_value option \<Rightarrow> unit option" where
  "shape_any v = Some ()"

text \<open>\<open>start_many\<close> validates before it sends anything.\<close>

fun first_invalid :: "(string \<Rightarrow> bool) \<Rightarrow> app_config list \<Rightarrow> err option" where
  "first_invalid cron_ok [] = None"
| "first_invalid cron_ok (a # as) =
     (case validate cron_ok a of Inl e \<Rightarrow> Some e | Inr _ \<Rightarrow> first_invalid cron_ok as)"

definition start_many :: "(string \<Rightarrow> bool) \<Rightarrow> app_config list \<Rightarrow> (client_err, rpc_method) result" where
  "start_many cron_ok apps =
     (case first_invalid cron_ok apps of Some e \<Rightarrow> Inl (CE_invalid_app e) | None \<Rightarrow> Inr (M_start apps))"

datatype target_arg = TaStr string | TaId u32 | TaTarget target

fun into_target :: "target_arg \<Rightarrow> target" where
  "into_target (TaStr s) = target_parse s"
| "into_target (TaId i) = Ids [i]"
| "into_target (TaTarget t) = t"

text \<open>The typed helpers: the request each sends.\<close>

datatype api_call =
    A_ping
  | A_start_many "app_config list"
  | A_stop target_arg
  | A_restart target_arg
  | A_delete target_arg
  | A_reset target_arg
  | A_list
  | A_describe target_arg
  | A_scale string u32
  | A_send_signal target_arg string
  | A_flush "target option"
  | A_reload_logs
  | A_save
  | A_resurrect
  | A_kill_daemon
  | A_subscribe "string list" "target option"

fun api_method :: "(string \<Rightarrow> bool) \<Rightarrow> api_call \<Rightarrow> (client_err, rpc_method) result" where
  "api_method cron_ok A_ping = Inr M_ping"
| "api_method cron_ok (A_start_many apps) = start_many cron_ok apps"
| "api_method cron_ok (A_stop t) = Inr (M_stop (into_target t))"
| "api_method cron_ok (A_restart t) = Inr (M_restart (into_target t))"
| "api_method cron_ok (A_delete t) = Inr (M_delete (into_target t))"
| "api_method cron_ok (A_reset t) = Inr (M_reset (into_target t))"
| "api_method cron_ok A_list = Inr M_list"
| "api_method cron_ok (A_describe t) = Inr (M_describe (into_target t))"
| "api_method cron_ok (A_scale n k) = Inr (M_scale n k)"
| "api_method cron_ok (A_send_signal t sg) = Inr (M_send_signal (into_target t) sg)"
| "api_method cron_ok (A_flush t) = Inr (M_flush t)"
| "api_method cron_ok A_reload_logs = Inr M_reload_logs"
| "api_method cron_ok A_save = Inr M_save"
| "api_method cron_ok A_resurrect = Inr M_resurrect"
| "api_method cron_ok A_kill_daemon = Inr M_kill"
| "api_method cron_ok (A_subscribe topics t) = Inr (M_subscribe topics t)"

text \<open>\<open>kill_daemon\<close> after the reply: it reads lines until the stream ends or fails.\<close>

fun drain :: "wire list \<Rightarrow> wire list" where
  "drain [] = []"
| "drain (W_eof # ws) = ws"
| "drain (W_error # ws) = ws"
| "drain (W_response r # ws) = drain ws"
| "drain (W_garbage s # ws) = drain ws"

text \<open>The event stream: \<open>None\<close> when the daemon is gone.\<close>

datatype event_line = EL_frame frame | EL_garbage string | EL_eof | EL_error

fun next_event :: "event_line \<Rightarrow> (string, event) result option" where
  "next_event EL_eof = None"
| "next_event EL_error = Some (Inl ''io'')"
| "next_event (EL_garbage s) = Some (Inl s)"
| "next_event (EL_frame (F_event topic ev)) = Some (Inr ev)"
| "next_event (EL_frame (F_lagged n)) = Some (Inl ''pmr:lagged'')"

section \<open>Connecting\<close>

fun ancestors :: "nat \<Rightarrow> string \<Rightarrow> string list" where
  "ancestors 0 p = []"
| "ancestors (Suc n) p = p # (case path_parent p of Some q \<Rightarrow> ancestors n q | None \<Rightarrow> [])"

definition first_pmr_in :: "(string \<Rightarrow> bool) \<Rightarrow> string list \<Rightarrow> string option" where
  "first_pmr_in is_file dirs = find is_file (map (\<lambda>d. path_join d ''pmr'') dirs)"

definition find_pmr_bin ::
    "env_vars \<Rightarrow> string option \<Rightarrow> (string \<Rightarrow> bool) \<Rightarrow> (client_err, string) result" where
  "find_pmr_bin ev exe is_file =
     (let beside = (case exe of
            None \<Rightarrow> None
          | Some x \<Rightarrow>
              if path_file_name x = Some ''pmr'' then Some x
              else first_pmr_in is_file (drop 1 (ancestors 4 x)));
          on_path = (case ev ''PATH'' of None \<Rightarrow> None | Some p \<Rightarrow> first_pmr_in is_file (split_on (CHR '':'') p));
          rest = (case beside of Some x \<Rightarrow> Inr x
                  | None \<Rightarrow> (case on_path of Some x \<Rightarrow> Inr x | None \<Rightarrow> Inl CE_no_binary))
      in case ev ''PMR_BIN'' of
           Some p \<Rightarrow> if p \<noteq> [] then Inr p else rest
         | None \<Rightarrow> rest)"

text \<open>\<open>spawn_daemon\<close> up to the spawn: the binary it runs as \<open>pmr daemon\<close>.\<close>

definition spawn_daemon ::
    "env_vars \<Rightarrow> string option \<Rightarrow> (string \<Rightarrow> bool) \<Rightarrow> (client_err, string) result" where
  "spawn_daemon ev exe is_file =
     (if 100 < length (rpc_sock ev) then Inl (CE_path_too_long (rpc_sock ev))
      else find_pmr_bin ev exe is_file)"

text \<open>\<open>wait_connect\<close>: each attempt connects or not, and a failed one may find the deadline passed.
  \<open>None\<close>: still trying when the attempts run out.\<close>

fun wait_connect :: "env_vars \<Rightarrow> (bool \<times> bool) list \<Rightarrow> (client_err, unit) result option" where
  "wait_connect ev [] = None"
| "wait_connect ev ((up, late) # as) =
     (if up then Some (Inr ()) else if late then Some (Inl (CE_not_up (daemon_log ev))) else wait_connect ev as)"

text \<open>\<open>connect\<close>: an existing daemon, or one spawned for the purpose; either way it must answer a ping.\<close>

definition check_version :: "wire \<Rightarrow> (client_err, unit) result" where
  "check_version w = (case call_result shape_ping w of Inl e \<Rightarrow> Inl e | Inr _ \<Rightarrow> Inr ())"

definition try_connect :: "bool \<Rightarrow> wire \<Rightarrow> string \<Rightarrow> (client_err, unit) result" where
  "try_connect up ping sock = (if up then check_version ping else Inl (CE_refused sock))"

definition connect ::
    "env_vars \<Rightarrow> string option \<Rightarrow> (string \<Rightarrow> bool) \<Rightarrow> bool \<Rightarrow> wire \<Rightarrow> (bool \<times> bool) list \<Rightarrow> wire \<Rightarrow>
     (client_err, unit) result option" where
  "connect ev exe is_file up ping attempts ping' =
     (case try_connect up ping (rpc_sock ev) of
        Inr _ \<Rightarrow> Some (Inr ())
      | Inl _ \<Rightarrow>
          (case spawn_daemon ev exe is_file of
             Inl e \<Rightarrow> Some (Inl e)
           | Inr _ \<Rightarrow>
               (case wait_connect ev attempts of
                  None \<Rightarrow> None
                | Some (Inl e) \<Rightarrow> Some (Inl e)
                | Some (Inr _) \<Rightarrow> Some (check_version ping'))))"

section \<open>A client and its connection\<close>

text \<open>A sequence of calls, as requests with their ids, and the answers a connection gives.\<close>

fun call_requests :: "u64 \<Rightarrow> rpc_method list \<Rightarrow> (u64 \<times> rpc_method) list" where
  "call_requests n [] = []"
| "call_requests n (m # ms) = (case call_request n m of (n', r) \<Rightarrow> r # call_requests n' ms)"

fun dispatch_all :: "rpc_env \<Rightarrow> rpc_method list \<Rightarrow> ctx \<Rightarrow> rpc_value res list \<times> ctx" where
  "dispatch_all e [] c = ([], c)"
| "dispatch_all e (m # ms) c =
     (case dispatch e m c of ((r, c'), _) \<Rightarrow> (case dispatch_all e ms c' of (rs, c'') \<Rightarrow> (r # rs, c'')))"

definition remote :: "rpc_value res \<Rightarrow> (client_err, rpc_value option) result" where
  "remote r = (case r of Inl e \<Rightarrow> Inl (CE_remote e) | Inr v \<Rightarrow> Inr (Some v))"

lemma reply_value_reply: "reply_value (W_response (reply i r)) = remote r"
  by (simp add: reply_value_def reply_def remote_def split: sum.split)

definition no_subscribe :: "rpc_method \<Rightarrow> bool" where
  "no_subscribe m = (case m of M_subscribe _ _ \<Rightarrow> False | _ \<Rightarrow> True)"

lemma handle_line_request:
  assumes "decode l = Inr (i, m)" "trim l \<noteq> []" "no_subscribe m" "dispatch e m c = ((r, c'), sg)"
  shows "handle_line e decode l c = T_reply (reply i r) c'"
  using assms by (simp add: handle_line_def no_subscribe_def split: rpc_method.splits)

section \<open>Properties\<close>

text \<open>C14: Calls through a connection are calls of \<open>dispatch\<close>: if the codec reads back the requests it
  writes, the values and errors a client gets for a sequence of calls are those \<open>dispatch\<close> yields
  when it runs them one after the other, and the daemon's context ends up the same.\<close>
theorem rpc_is_transparent:
  assumes "\<And>r. r \<in> set (call_requests i ms) \<Longrightarrow> decode (enc r) = Inr r \<and> trim (enc r) \<noteq> []"
    and "list_all no_subscribe ms" "length ms \<le> sends"
  shows "(case handle e decode sends (map enc (call_requests i ms)) c of (rs, c', sub) \<Rightarrow>
      (map (reply_value \<circ> W_response) rs, c', sub))
    = (case dispatch_all e ms c of (rs, c') \<Rightarrow> (map remote rs, c', None))"
  using assms
proof (induction ms arbitrary: i c sends)
  case (Cons m ms)
  obtain r c' sg where d: "dispatch e m c = ((r, c'), sg)" by (metis surj_pair)
  from Cons.prems(3) obtain n where n: "sends = Suc n" "length ms \<le> n" by (cases sends) auto
  have "decode (enc (i + 1, m)) = Inr (i + 1, m) \<and> trim (enc (i + 1, m)) \<noteq> []"
    using Cons.prems(1) by (simp add: call_request_def Let_def)
  then have line: "handle_line e decode (enc (i + 1, m)) c = T_reply (reply (i + 1) r) c'"
    using handle_line_request [OF _ _ _ d] Cons.prems(2) by simp
  have "decode (enc r) = Inr r \<and> trim (enc r) \<noteq> []" if "r \<in> set (call_requests (i + 1) ms)" for r
    using that Cons.prems(1) by (simp add: call_request_def Let_def)
  from Cons.IH [where i = "i + 1" and c = c', OF this _ n(2)] Cons.prems(2) line d n(1) show ?case
    by (auto simp: call_request_def Let_def reply_value_reply split: prod.splits)
qed simp

definition sample_enc :: "u64 \<times> rpc_method \<Rightarrow> string" where
  "sample_enc r = (if r = (7, M_ping) then ''ping'' else ''x'')"

lemma rpc_is_transparent_witness:
  "(case handle sample_rpc sample_decode 3 [''ping''] ctx_default of (rs, c', sub) \<Rightarrow>
      map (reply_value \<circ> W_response) rs) = [Inr (Some (V_ping ''0.1'' 9))]"
proof -
  have rq: "call_requests 6 [M_ping] = [(7, M_ping)]" by (simp add: call_request_def)
  have t: "trim ''ping'' = ''ping''" by (simp add: trim_plain plain_def)
  have d: "dispatch_all sample_rpc [M_ping] ctx_default = ([Inr (V_ping ''0.1'' 9)], ctx_default)"
    by (simp add: dispatch_def sample_rpc_def)
  have "r \<in> set (call_requests 6 [M_ping]) \<Longrightarrow> sample_decode (sample_enc r) = Inr r \<and> trim (sample_enc r) \<noteq> []" for r
    unfolding rq by (simp add: sample_enc_def sample_decode_def t)
  from rpc_is_transparent [of 6 "[M_ping]" sample_decode sample_enc 3 sample_rpc ctx_default, OF this]
  show ?thesis unfolding rq d by (auto simp: no_subscribe_def sample_enc_def remote_def split: prod.splits)
qed

end
