(* ===== verification/Ring.thy ===== *)
theory Ring
  imports Prelude
begin

text \<open>
  Bounded buffers that keep the newest entries: the lines \<open>tail_lines\<close> collects and the log lines the
  monitor shows.  The locale states what pushing does; its lemmas say what a buffer holds.
\<close>

text \<open>The last \<open>n\<close> entries.\<close>

definition last_of :: "nat \<Rightarrow> 'a list \<Rightarrow> 'a list" where
  "last_of n xs = drop (length xs - n) xs"

lemma last_of_map: "last_of n (map f xs) = map f (last_of n xs)"
  by (simp add: last_of_def drop_map)

lemma last_of_all: "length xs \<le> n \<Longrightarrow> last_of n xs = xs"
  by (simp add: last_of_def)

lemma last_of_suffix: "n \<le> length b \<Longrightarrow> last_of n (a @ b) = last_of n b"
  by (simp add: last_of_def)

lemma last_of_last_of: "last_of n (last_of (Suc n) xs) = last_of n xs"
  by (cases "n < length xs") (simp_all add: last_of_def Suc_diff_Suc)

lemma length_last_of [simp]: "length (last_of n xs) = min n (length xs)"
  by (simp add: last_of_def)

lemma tl_last_of:
  "n < length xs \<Longrightarrow> tl (last_of (Suc n) xs) = last_of n xs"
  by (simp add: last_of_def tl_drop drop_Suc [symmetric] Suc_diff_Suc)

locale ring =
  fixes cap :: nat and push :: "'b list \<Rightarrow> 'a \<Rightarrow> 'b list" and entry :: "'a \<Rightarrow> 'b"
  assumes cap_pos: "0 < cap"
    and push_below: "length xs < cap \<Longrightarrow> push xs x = xs @ [entry x]"
    and push_full: "length xs = cap \<Longrightarrow> push xs x = tl xs @ [entry x]"
begin

lemma push_last: "push (map entry (last_of cap xs)) x = map entry (last_of cap (xs @ [x]))"
proof (cases "length xs < cap")
  case True
  then show ?thesis by (simp add: last_of_all push_below)
next
  case False
  obtain n where n: "cap = Suc n" using cap_pos by (cases cap) auto
  have "push (map entry (last_of cap xs)) x = map entry (tl (last_of cap xs) @ [x])"
    using False by (simp add: push_full map_tl)
  also have "tl (last_of cap xs) = last_of n xs" using False n tl_last_of [of n xs] by simp
  also have "last_of n xs @ [x] = last_of cap (xs @ [x])" using False n by (simp add: last_of_def Suc_diff_le)
  finally show ?thesis .
qed

lemma holds_last: "foldl push [] xs = map entry (last_of cap xs)"
  by (induction xs rule: rev_induct) (simp_all add: push_last, simp add: last_of_def)

lemma bounded: "length (foldl push [] xs) \<le> cap"
  by (simp add: holds_last)

end

end
