(* ===== verification/Tail.thy ===== *)
theory Tail
  imports Utf8 Ring
begin

text \<open>
  \<open>src/cli/logs.rs\<close>: \<open>tail_lines\<close>, which reads a window at the end of a log file and doubles it until
  it holds enough lines.  The file is its contents; the window is a \<open>u64\<close> and wraps.  The loop
  may not end, so it is a \<open>partial_function\<close> whose value \<open>None\<close> is not returning.
\<close>

section \<open>Definitions\<close>

text \<open>\<open>split(b'\n')\<close>, the carriage return taken off, read as UTF-8.\<close>

definition strip_cr :: "string \<Rightarrow> string" where
  "strip_cr s = (if s \<noteq> [] \<and> last s = CHR 0x0D then butlast s else s)"

definition shown_line :: "string \<Rightarrow> string" where
  "shown_line s = from_utf8_lossy (strip_cr s)"

text \<open>The ring buffer of at most \<open>n + 1\<close> lines.\<close>

definition ring_push :: "nat \<Rightarrow> string list \<Rightarrow> string \<Rightarrow> string list" where
  "ring_push n buf l = (if length buf = n + 1 then tl buf else buf) @ [shown_line l]"

definition fill_ring :: "nat \<Rightarrow> string \<Rightarrow> string list" where
  "fill_ring n s = foldl (ring_push n) [] (text_lines s)"

definition saturating_sub :: "u64 \<Rightarrow> u64 \<Rightarrow> u64" where
  "saturating_sub a b = (if a \<le> b then 0 else a - b)"

definition tail_result :: "nat \<Rightarrow> u64 \<Rightarrow> string list \<Rightarrow> string list option" where
  "tail_result n start buf =
     (let complete = (start = 0)
      in if n < length buf \<or> complete
         then Some (last_of n (if \<not> complete \<and> n < length buf then tl buf else buf))
         else None)"

partial_function (option) tail_window :: "string \<Rightarrow> nat \<Rightarrow> u64 \<Rightarrow> string list option" where
  "tail_window s n w =
     (let start = saturating_sub (of_nat (length s)) w
      in case tail_result n start (fill_ring n (drop (unat start) s)) of
           Some r \<Rightarrow> Some r
         | None \<Rightarrow> tail_window s n (w * 2))"

definition tail_lines :: "string \<Rightarrow> nat \<Rightarrow> string list option" where
  "tail_lines s n = tail_window s n (of_nat n * 200)"

definition print_tail :: "(string \<Rightarrow> string option) \<Rightarrow> string \<Rightarrow> nat \<Rightarrow> string list option" where
  "print_tail read file n =
     (if n = 0 then Some []
      else (case read file of None \<Rightarrow> Some [] | Some s \<Rightarrow> tail_lines s n))"

section \<open>The ring keeps the last lines\<close>

interpretation tail_ring: ring "n + 1" "ring_push n" shown_line for n
  by unfold_locales (auto simp: ring_push_def)

lemma fill_ring_last: "fill_ring n s = map shown_line (last_of (n + 1) (text_lines s))"
  by (simp only: fill_ring_def tail_ring.holds_last)

text \<open>The lines of a suffix are, but for the first, the last lines of the text.\<close>

lemma split_on_join:
  "split_on d (a @ b) = butlast (split_on d a) @ (last (split_on d a) @ hd (split_on d b)) # tl (split_on d b)"
proof (induction a)
  case Nil
  show ?case by (cases "split_on d b") auto
next
  case (Cons c a)
  show ?case
  proof (cases "c = d")
    case False
    obtain x xs where x: "split_on d a = x # xs" by (cases "split_on d a") auto
    obtain y ys where y: "split_on d b = y # ys" by (cases "split_on d b") auto
    show ?thesis using Cons False x y by (cases xs) auto
  qed (use Cons in simp)
qed

lemma tl_text_lines: "\<exists>p. text_lines (a @ b) = p @ tl (text_lines b) \<and> (text_lines b \<noteq> [] \<longrightarrow> p \<noteq> [])"
proof -
  obtain y ys where y: "split_on newline b = y # ys" by (cases "split_on newline b") auto
  define q where "q = butlast (split_on newline a)"
  define z where "z = last (split_on newline a) @ y"
  have s: "split_on newline (a @ b) = q @ z # ys" by (simp add: split_on_join y q_def z_def)
  show ?thesis
  proof (cases ys rule: rev_cases)
    case Nil
    then show ?thesis
      by (intro exI [of _ "text_lines (a @ b)"]) (auto simp: text_lines_def s y z_def Let_def)
  next
    case (snoc zs l)
    then show ?thesis
      by (intro exI [of _ "q @ [z]"]) (simp add: text_lines_def s y Let_def butlast_append)
  qed
qed

lemma tail_of_window:
  assumes "n < length (text_lines (drop k s))"
  shows "last_of n (tl (fill_ring n (drop k s))) = map shown_line (last_of n (text_lines s))"
proof -
  let ?w = "text_lines (drop k s)"
  have len: "n \<le> length (tl ?w)" using assms by simp
  obtain p where p: "text_lines (take k s @ drop k s) = p @ tl ?w" using tl_text_lines by blast
  have "last_of n (tl (fill_ring n (drop k s))) = map shown_line (last_of n (last_of n ?w))"
    using tl_last_of [OF assms] by (simp add: fill_ring_last map_tl [symmetric] last_of_map)
  also have "last_of n (last_of n ?w) = last_of n ?w" using assms by (simp add: last_of_all)
  also have "\<dots> = last_of n (tl ?w)" using assms by (cases ?w) (auto simp: last_of_def Suc_diff_le)
  also have "\<dots> = last_of n (p @ tl ?w)" using len by (simp add: last_of_suffix)
  also have "\<dots> = last_of n (text_lines s)" using p by simp
  finally show ?thesis .
qed

lemma tail_result_right:
  assumes "tail_result n start (fill_ring n (drop (unat start) s)) = Some r"
  shows "r = map shown_line (last_of n (text_lines s))"
proof (cases "start = 0")
  case True
  with assms show ?thesis
    by (auto simp: tail_result_def fill_ring_last Let_def last_of_map last_of_last_of)
next
  case False
  with assms have more: "n < length (fill_ring n (drop (unat start) s))"
    "r = last_of n (tl (fill_ring n (drop (unat start) s)))"
    by (auto simp: tail_result_def Let_def split: if_splits)
  then have "n < length (text_lines (drop (unat start) s))" by (simp add: fill_ring_last last_of_def)
  with tail_of_window more(2) show ?thesis by simp
qed

lemma tail_window_right:
  assumes "tail_window s n w = Some r"
  shows "r = map shown_line (last_of n (text_lines s))"
proof (rule tail_window.raw_induct [OF _ assms])
  fix tw s n w r
  assume ih: "\<And>s n w r. tw s n w = Some r \<Longrightarrow> r = map shown_line (last_of n (text_lines s))"
    and "(let start = saturating_sub (of_nat (length s)) w
      in case tail_result n start (fill_ring n (drop (unat start) s)) of
           Some r \<Rightarrow> Some r
         | None \<Rightarrow> tw s n (w * 2)) = Some r"
  then show "r = map shown_line (last_of n (text_lines s))"
    by (auto simp: Let_def split: option.splits dest: tail_result_right)
qed

section \<open>The loop ends\<close>

lemma saturating_sub_zero: "saturating_sub a b = 0 \<longleftrightarrow> a \<le> b"
  by (auto simp: saturating_sub_def)

lemma unat_of_length: "length s < 2 ^ 64 \<Longrightarrow> unat (of_nat (length s) :: u64) = length s"
  by (simp add: unsigned_of_nat take_bit_nat_eq_self)

lemma tail_window_returns:
  assumes "length s < 2 ^ 63" "w \<noteq> 0"
  shows "\<exists>r. tail_window s n w = Some r"
  using assms(2)
proof (induction "length s - unat w" arbitrary: w rule: less_induct)
  case less
  define start where "start = saturating_sub (of_nat (length s)) w"
  show ?case
  proof (cases "tail_result n start (fill_ring n (drop (unat start) s))")
    case (Some r)
    then show ?thesis by (subst tail_window.simps) (simp add: start_def [symmetric] Let_def)
  next
    case None
    then have "start \<noteq> 0" by (auto simp: tail_result_def Let_def)
    then have small: "unat w < length s"
      using assms(1) by (simp add: start_def saturating_sub_zero word_le_nat_alt unat_of_length)
    have pos: "0 < unat w" using less.prems by (simp add: unat_gt_0)
    have dbl: "unat (w * 2) = 2 * unat w"
      using small assms(1) by (simp add: unat_word_ariths)
    then have "length s - unat (w * 2) < length s - unat w" "w * 2 \<noteq> 0"
      using small pos by (simp, metis mult_is_0 nat_neq_iff unsigned_0 zero_neq_numeral)
    from less.hyps [OF this] None show ?thesis
      by (subst tail_window.simps) (simp add: start_def [symmetric] Let_def)
  qed
qed

lemma tail_lines_last:
  assumes "0 < n" "n * 200 < 2 ^ 64" "length s < 2 ^ 63"
  shows "tail_lines s n = Some (map shown_line (drop (length (text_lines s) - n) (text_lines s)))"
proof -
  have "unat (of_nat (n * 200) :: u64) = n * 200"
    using assms(2) by (simp add: unsigned_of_nat take_bit_nat_eq_self del: of_nat_mult)
  then have "of_nat n * 200 \<noteq> (0 :: u64)" using assms(1) by auto
  from tail_window_returns [OF assms(3) this, of n] tail_window_right
  show ?thesis unfolding tail_lines_def by (fastforce simp: last_of_def)
qed

section \<open>Properties\<close>

text \<open>C23: Asked for one line or more of a file below 2^63 bytes, \<open>tail_lines\<close> returns, and what it
  returns is the last \<open>n\<close> lines of the whole file, however few of its bytes it has read; the allocation of
  the ring of \<open>n + 1\<close> lines is taken to succeed.\<close>
theorem tail_lines_is_last_lines:
  assumes "0 < n" "n * 200 < 2 ^ 64" "length s < 2 ^ 63"
  shows "tail_lines s n = Some (map shown_line (drop (length (text_lines s) - n) (text_lines s)))"
  using assms by (rule tail_lines_last)

lemma tail_lines_is_last_lines_witness:
  "tail_lines (''a'' @ [newline] @ ''b'' @ [CHR 0x0D, newline] @ ''c'') 2 = Some [''b'', ''c'']"
proof -
  have "map shown_line (drop (length (text_lines (''a'' @ [newline] @ ''b'' @ [CHR 0x0D, newline] @ ''c'')) - 2)
      (text_lines (''a'' @ [newline] @ ''b'' @ [CHR 0x0D, newline] @ ''c''))) = [''b'', ''c'']"
    by code_simp
  with tail_lines_is_last_lines [of 2 "''a'' @ [newline] @ ''b'' @ [CHR 0x0D, newline] @ ''c''"] show ?thesis by simp
qed

text \<open>Asked for no lines of a file that has some, the window stays empty and the loop never ends.\<close>

text \<open>\<open>tail_lines\<close> of no lines does not return unless the file is empty.\<close>
theorem tail_of_nothing_diverges:
  assumes "s \<noteq> []" "length s < 2 ^ 64"
  shows "tail_lines s 0 = None"
proof -
  have nonzero: "of_nat (length s) \<noteq> (0 :: u64)" using assms unat_of_length [OF assms(2)] by auto
  have stuck: "\<not> (n = 0 \<and> w = 0 \<and> of_nat (length t) \<noteq> (0 :: u64) \<and> length t < 2 ^ 64)"
    if "tail_window t n w = Some r" for t n w r
  proof (rule tail_window.raw_induct [OF _ that])
    fix tw t n w r
    assume ih: "\<And>t n w r. tw t n w = Some r \<Longrightarrow>
        \<not> (n = 0 \<and> w = 0 \<and> of_nat (length t) \<noteq> (0 :: u64) \<and> length t < 2 ^ 64)"
      and step: "(let start = saturating_sub (of_nat (length t)) w
        in case tail_result n start (fill_ring n (drop (unat start) t)) of
             Some r \<Rightarrow> Some r
           | None \<Rightarrow> tw t n (w * 2)) = Some r"
    show "\<not> (n = 0 \<and> w = 0 \<and> of_nat (length t) \<noteq> (0 :: u64) \<and> length t < 2 ^ 64)"
    proof
      assume z: "n = 0 \<and> w = 0 \<and> of_nat (length t) \<noteq> (0 :: u64) \<and> length t < 2 ^ 64"
      then have "saturating_sub (of_nat (length t)) w = (of_nat (length t) :: u64)"
        by (simp add: saturating_sub_def)
      with z step have "tw t n w = Some r"
        by (simp add: Let_def unat_of_length fill_ring_def text_lines_def tail_result_def)
      with ih z show False by blast
    qed
  qed
  then show ?thesis
    using nonzero assms by (cases "tail_window s 0 0") (auto simp: tail_lines_def)
qed

lemma tail_of_nothing_diverges_witness: "tail_lines ''x'' 0 = None"
  using tail_of_nothing_diverges [of "''x''"] by simp

end
