(* ===== verification/Show.thy ===== *)
theory Show
  imports Tail Floats State
begin

text \<open>
  What the command line shows: the cells of \<open>src/cli/table.rs\<close> and the lines of \<open>src/cli/logs.rs\<close>.
  Laying the cells out is comfy-table's part and is not modelled; a colour is a word.
\<close>

section \<open>Cells\<close>

text \<open>The loop of \<open>format_bytes\<close>: dividing by 1024 is exact, so the value stays a fraction.\<close>

fun scale_unit :: "nat \<Rightarrow> nat \<Rightarrow> nat \<Rightarrow> nat \<times> nat" where
  "scale_unit v d 0 = (d, 0)"
| "scale_unit v d (Suc n) =
     (if 1024 * d \<le> v then (case scale_unit v (1024 * d) n of (d', i) \<Rightarrow> (d', Suc i)) else (d, 0))"

definition format_bytes :: "u64 \<Rightarrow> string" where
  "format_bytes b =
     (let v = f64_of_u64 b
      in case scale_unit v 1 3 of
           (d, 0) \<Rightarrow> show_word b @ ''b''
         | (d, Suc i) \<Rightarrow> show_fixed1 v d @ [''kb'', ''mb'', ''gb''] ! i)"

definition format_uptime :: "i64 \<Rightarrow> i64 option \<Rightarrow> string" where
  "format_uptime now since =
     (case since of
        None \<Rightarrow> ''-''
      | Some start \<Rightarrow>
          let secs = nat (sint (now - start)) div 1000;
              days = secs div 86400; hours = secs mod 86400 div 3600;
              mins = secs mod 3600 div 60; s = secs mod 60
          in if 0 < days then show_nat days @ ''d '' @ show_nat hours @ ''h''
             else if 0 < hours then show_nat hours @ ''h '' @ show_nat mins @ ''m''
             else if 0 < mins then show_nat mins @ ''m '' @ show_nat s @ ''s''
             else show_nat s @ ''s'')"

fun status_color :: "status \<Rightarrow> string" where
  "status_color Online = ''Green''"
| "status_color Launching = ''Yellow''"
| "status_color WaitingRestart = ''Yellow''"
| "status_color Stopping = ''Grey''"
| "status_color Stopped = ''Grey''"
| "status_color Errored = ''Red''"

definition show_cpu :: "f32 \<Rightarrow> string" where
  "show_cpu w = (case f32_frac w of (n, d) \<Rightarrow> show_fixed1 n d) @ ''%''"

text \<open>Characters beyond ASCII, as their UTF-8 bytes.\<close>

definition em_dash :: string where
  "em_dash = [CHR 0xE2, CHR 0x80, CHR 0x94]"

definition rule_mark :: string where
  "rule_mark = [CHR 0xE2, CHR 0x94, CHR 0x80]"

definition restart_arrow :: string where
  "restart_arrow = [CHR 0xE2, CHR 0x86, CHR 0xBA]"

definition list_heading :: "string list" where
  "list_heading =
     [''id'', ''name'', ''namespace'', ''mode'', ''pid'', ''uptime'', restart_arrow, ''status'', ''cpu'', ''mem'',
      ''user'', ''watching'']"

definition list_cells :: "string option \<Rightarrow> i64 \<Rightarrow> snapshot \<Rightarrow> string list" where
  "list_cells user_env now p =
     [show_word (s_pm_id p), s_name p, s_namespace p, ''fork'',
      (if s_pid p = 0 then ''-'' else show_word (s_pid p)),
      format_uptime now (s_uptime_ms p), show_word (s_restarts p), show_status (s_status p),
      show_cpu (m_cpu (s_monit p)), format_bytes (m_memory (s_monit p)),
      (case ac_uid (s_config p) of Some u \<Rightarrow> u | None \<Rightarrow> (case user_env of Some u \<Rightarrow> u | None \<Rightarrow> ''-'')),
      (if ac_watch (s_config p) then ''enabled'' else ''disabled'')]"

definition show_bool :: "bool \<Rightarrow> string" where
  "show_bool b = (if b then ''true'' else ''false'')"

definition show_int32 :: "i32 \<Rightarrow> string" where
  "show_int32 w = (if sint w < 0 then ''-'' @ show_nat (nat (- sint w)) else show_nat (nat (sint w)))"

fun join_with :: "string \<Rightarrow> string list \<Rightarrow> string" where
  "join_with sep [] = []"
| "join_with sep [x] = x"
| "join_with sep (x # y # xs) = x @ sep @ join_with sep (y # xs)"

definition or_dash :: "string option \<Rightarrow> string" where
  "or_dash x = (case x of Some s \<Rightarrow> s | None \<Rightarrow> ''-'')"

definition describe_rows :: "env_vars \<Rightarrow> (string \<Rightarrow> bool) \<Rightarrow> i64 \<Rightarrow> snapshot \<Rightarrow> (string \<times> string) list" where
  "describe_rows ev is_file now p =
     (let cfg = s_config p
      in [(''id'', show_word (s_pm_id p)), (''name'', s_name p), (''namespace'', s_namespace p),
          (''status'', show_status (s_status p)), (''pid'', show_word (s_pid p)),
          (''instance'', show_word (s_instance p)), (''uptime'', format_uptime now (s_uptime_ms p)),
          (''restarts'', show_word (s_restarts p)),
          (''unstable restarts'', show_word (s_unstable_restarts p)),
          (''exit code'', or_dash (map_option show_int32 (s_exit_code p))),
          (''script'', ac_script cfg), (''args'', join_with '' '' (ac_args cfg)),
          (''interpreter'', (case effective_interpreter ev is_file cfg of Some i \<Rightarrow> i | None \<Rightarrow> ''direct'')),
          (''cwd'', or_dash (ac_cwd cfg)), (''instances'', show_word (ac_instances cfg)),
          (''autorestart'', show_bool (ac_autorestart cfg)),
          (''max restarts'', show_word (ac_max_restarts cfg)), (''watch'', show_bool (ac_watch cfg)),
          (''cron restart'', or_dash (ac_cron_restart cfg)),
          (''max memory restart'', or_dash (map_option format_bytes (ac_max_memory_restart cfg))),
          (''out log'', s_out_file p), (''error log'', s_error_file p), (''pid file'', s_pid_file p),
          (''cpu'', show_cpu (m_cpu (s_monit p))), (''memory'', format_bytes (m_memory (s_monit p)))])"

section \<open>Log lines\<close>

definition esc :: "string \<Rightarrow> string" where
  "esc code = CHR 0x1B # ''['' @ code @ ''m''"

definition log_color :: "u32 \<Rightarrow> string" where
  "log_color i = esc ([''36'', ''33'', ''32'', ''35'', ''34'', ''31''] ! (unat i mod 6))"

definition log_topics :: "bool \<Rightarrow> bool \<Rightarrow> string list" where
  "log_topics only_err only_out =
     (if only_err then [''log:err''] else if only_out then [''log:out''] else [''log:out'', ''log:err''])"

fun log_line :: "bool \<Rightarrow> bool \<Rightarrow> (i64 \<Rightarrow> string) \<Rightarrow> event \<Rightarrow> string option" where
  "log_line raw timestamp date (EvLog i nm stream line at') =
     Some ((if raw then [] else log_color i @ show_word i @ ''|'' @ nm @ esc ''0'' @ '' | '')
       @ (if timestamp then date at' @ '' '' else [])
       @ (if stream = ''err'' \<and> \<not> raw then esc ''31'' @ line @ esc ''0'' else line))"
| "log_line raw timestamp date (EvProcess _ _ _ _) = None"
| "log_line raw timestamp date EvDaemonKill = None"

definition tail_output :: "(string \<Rightarrow> string option) \<Rightarrow> snapshot \<Rightarrow> string \<Rightarrow> string \<Rightarrow> nat \<Rightarrow> bool \<Rightarrow> string list option" where
  "tail_output read p file kind n raw =
     (case print_tail read file n of
        None \<Rightarrow> None
      | Some ls \<Rightarrow>
          Some (if ls = [] then []
            else (if raw then [] else [esc ''90'' @ s_name p @ '' last '' @ show_nat (length ls) @ '' lines of ''
                    @ file @ '' ('' @ kind @ ''):'' @ esc ''0''])
              @ map (\<lambda>l. if raw then l
                    else log_color (s_pm_id p) @ show_word (s_pm_id p) @ ''|'' @ s_name p @ esc ''0'' @ '' | '' @ l) ls))"

end
