(* ===== verification/Follow.thy ===== *)
theory Follow
  imports Client Show
begin

text \<open>
  \<open>src/cli/logs.rs\<close>, \<open>run\<close>: \<open>pmr logs\<close> prints the ends of the log files and then follows the stream of
  events.  What the daemon's bus delivers is in \<open>Rpc\<close>, how the client reads a frame in \<open>Client\<close>.
\<close>

section \<open>\<open>pmr logs\<close>\<close>

record logs_args =
  la_target :: "string option"
  la_lines :: nat
  la_err :: bool
  la_out :: bool
  la_nostream :: bool
  la_timestamp :: bool
  la_raw :: bool

text \<open>The stream as the client's iterator yields it; a frame that is no event ends the loop.  The lines
  printed, and the message the loop ended with, if it did.\<close>

fun follow :: "bool \<Rightarrow> bool \<Rightarrow> (i64 \<Rightarrow> string) \<Rightarrow> (string, event) result option list \<Rightarrow> string list \<times> string option" where
  "follow raw timestamp date [] = ([], None)"
| "follow raw timestamp date (None # items) = ([], None)"
| "follow raw timestamp date (Some (Inl e) # items) = ([], Some e)"
| "follow raw timestamp date (Some (Inr ev) # items) =
     (case follow raw timestamp date items of (ls, e) \<Rightarrow>
        ((case log_line raw timestamp date ev of Some l \<Rightarrow> [l] | None \<Rightarrow> []) @ ls, e))"

text \<open>One after the other; one that does not return keeps the rest from being printed.\<close>

fun all_returned :: "'a list option list \<Rightarrow> 'a list option" where
  "all_returned [] = Some []"
| "all_returned (None # rs) = None"
| "all_returned (Some xs # rs) = map_option (\<lambda>ys. xs @ ys) (all_returned rs)"

definition tails_of :: "(string \<Rightarrow> string option) \<Rightarrow> logs_args \<Rightarrow> snapshot \<Rightarrow> string list option list" where
  "tails_of read a p =
     (if la_err a then [] else [tail_output read p (s_out_file p) ''out'' (la_lines a) (la_raw a)])
     @ (if la_out a then [] else [tail_output read p (s_error_file p) ''err'' (la_lines a) (la_raw a)])"

text \<open>\<open>asked\<close> answers \<open>list\<close> or \<open>describe\<close>, \<open>subscribed\<close> the subscription to some topics.\<close>

definition logs_run ::
    "logs_args \<Rightarrow> (rpc_method \<Rightarrow> (client_err, snapshot list) result) \<Rightarrow> (string \<Rightarrow> string option) \<Rightarrow> (i64 \<Rightarrow> string) \<Rightarrow>
     (string list \<Rightarrow> target option \<Rightarrow> (client_err, (string, event) result option list) result) \<Rightarrow>
     (client_err, string list \<times> string option) result option" where
  "logs_run a asked read date subscribed =
     (case asked (case la_target a of Some t \<Rightarrow> M_describe (target_parse t) | None \<Rightarrow> M_list) of
        Inl e \<Rightarrow> Some (Inl e)
      | Inr ps \<Rightarrow>
          if ps = [] then Some (Inr ([''[pmr] no processes''], None))
          else
            (case all_returned (concat (map (tails_of read a) ps)) of
               None \<Rightarrow> None
             | Some ls \<Rightarrow>
                 if la_nostream a then Some (Inr (ls, None))
                 else
                   (case subscribed (log_topics (la_err a) (la_out a)) (map_option target_parse (la_target a)) of
                      Inl e \<Rightarrow> Some (Inl e)
                    | Inr items \<Rightarrow>
                        (case follow (la_raw a) (la_timestamp a) date items of
                           (xs, e) \<Rightarrow> Some (Inr (ls @ [] # xs, e))))))"

section \<open>Facts\<close>

lemma all_returned_Some: "all_returned rs = Some xs \<longleftrightarrow> (\<exists>xss. rs = map Some xss \<and> xs = concat xss)"
proof (induction rs arbitrary: xs)
  case (Cons r rs)
  show ?case
  proof (cases r)
    case None
    then show ?thesis by (auto simp: Cons_eq_map_conv)
  next
    case (Some ys)
    then show ?thesis by (force simp: Cons Cons_eq_map_conv)
  qed
qed auto

lemma follow_append:
  "follow raw ts date (map (Some \<circ> Inr) evs @ items) =
     (case follow raw ts date items of (ls, e) \<Rightarrow> (List.map_filter (log_line raw ts date) evs @ ls, e))"
  by (induction evs) (auto simp: List.map_filter_simps split: option.split prod.split)

lemma next_event_frames:
  "map (next_event \<circ> EL_frame) (map (\<lambda>ev. F_event (ev_topic ev) ev) evs) = map (Some \<circ> Inr) evs"
  by simp

lemma follow_frames:
  "follow raw ts date (map (next_event \<circ> EL_frame) (map (\<lambda>ev. F_event (ev_topic ev) ev) evs)) =
     (List.map_filter (log_line raw ts date) evs, None)"
  using follow_append [of raw ts date evs "[]"] by (simp only: next_event_frames) simp

lemma forward_append:
  "length evs \<le> sends \<Longrightarrow> \<exists>sends' \<ge> sends - length evs. forward topics tg wanted sends (map BEvent evs @ ms) =
     map (\<lambda>ev. F_event (ev_topic ev) ev) (filter (\<lambda>ev. topic_wanted topics ev \<and> target_wanted tg wanted ev) evs)
     @ forward topics tg wanted sends' ms"
proof (induction evs arbitrary: sends)
  case (Cons ev evs)
  then obtain n where n: "sends = Suc n" "length evs \<le> n" by (cases sends) auto
  show ?case
  proof (cases "topic_wanted topics ev \<and> target_wanted tg wanted ev")
    case True
    from Cons.IH [OF n(2)] n True show ?thesis by auto
  next
    case False
    have "length evs \<le> sends" using n by simp
    from Cons.IH [OF this] obtain k where k: "sends - length evs \<le> k"
      "forward topics tg wanted sends (map BEvent evs @ ms) =
         map (\<lambda>ev. F_event (ev_topic ev) ev) (filter (\<lambda>ev. topic_wanted topics ev \<and> target_wanted tg wanted ev) evs)
         @ forward topics tg wanted k ms" by blast
    then show ?thesis using False n by (intro exI [of _ k]) auto
  qed
qed auto

section \<open>Properties\<close>

text \<open>C24: A subscriber that falls behind once loses the rest: the frame that reports skipped events is no event
  to the client, so \<open>pmr logs\<close> prints the lines before it and ends, whatever the bus delivers
  afterwards, although the daemon goes on sending.\<close>
theorem logs_end_at_first_lag:
  assumes "length evs < sends"
  shows "\<exists>e. follow raw ts date (map (next_event \<circ> EL_frame)
        (forward topics tg wanted sends (map BEvent evs @ BLagged n # ms))) =
      (List.map_filter (log_line raw ts date) (filter (\<lambda>ev. topic_wanted topics ev \<and> target_wanted tg wanted ev) evs), Some e)"
proof -
  let ?evs = "filter (\<lambda>ev. topic_wanted topics ev \<and> target_wanted tg wanted ev) evs"
  obtain sends' where s: "sends - length evs \<le> sends'"
      "forward topics tg wanted sends (map BEvent evs @ BLagged n # ms) =
        map (\<lambda>ev. F_event (ev_topic ev) ev) ?evs @ forward topics tg wanted sends' (BLagged n # ms)"
    using forward_append [of evs sends topics tg wanted "BLagged n # ms"] assms by auto
  then have "sends' \<noteq> 0" using assms by auto
  then show ?thesis
    unfolding s(2) map_append next_event_frames follow_append by simp
qed

lemma logs_end_at_first_lag_witness:
  "\<exists>e. follow True False (\<lambda>_. []) (map (next_event \<circ> EL_frame)
      (forward [''log:out''] None None 9
        (map BEvent [EvLog 3 ''web'' ''out'' ''a'' 0] @ BLagged 4 # [BEvent (EvLog 3 ''web'' ''out'' ''b'' 1)]))) = ([''a''], Some e)"
  using logs_end_at_first_lag [of "[EvLog 3 ''web'' ''out'' ''a'' 0]" 9 True False "\<lambda>_. []" "[''log:out'']" None None 4
      "[BEvent (EvLog 3 ''web'' ''out'' ''b'' 1)]"]
  by (simp add: topic_wanted_def target_wanted_def List.map_filter_simps)

end
