(* ===== verification/Monit.thy ===== *)
theory Monit
  imports Follow
begin

text \<open>
  \<open>src/monit/mod.rs\<close>: the terminal monitor as a loop of rounds (take the log events that have arrived,
  refresh the list once a second, draw, read a key), and what a frame shows.  Where ratatui puts it
  on the screen is not modelled; a colour is a word and a gauge its ratio.
\<close>

section \<open>State and events\<close>

definition log_buffer :: nat where
  "log_buffer = 200"

record ui =
  ui_procs :: "snapshot list"
  ui_selected :: "nat option"
  ui_logs :: "(u32 \<times> string \<times> string) list"

definition ui_push :: "(u32 \<times> string \<times> string) list \<Rightarrow> u32 \<times> string \<times> string \<Rightarrow> (u32 \<times> string \<times> string) list" where
  "ui_push logs x = (if length logs = log_buffer then tl logs else logs) @ [x]"

fun ui_log :: "event \<Rightarrow> ui \<Rightarrow> ui" where
  "ui_log (EvLog i nm stream line at') u = u\<lparr>ui_logs := ui_push (ui_logs u) (i, stream, line)\<rparr>"
| "ui_log (EvProcess _ _ _ _) u = u"
| "ui_log EvDaemonKill u = u"

definition ui_sel :: "ui \<Rightarrow> nat" where
  "ui_sel u = (case ui_selected u of Some i \<Rightarrow> i | None \<Rightarrow> 0)"

definition ui_clamp :: "ui \<Rightarrow> ui" where
  "ui_clamp u = (if ui_procs u = [] then u else u\<lparr>ui_selected := Some (min (ui_sel u) (length (ui_procs u) - 1))\<rparr>)"

text \<open>\<open>q\<close>, escape and control-c leave.\<close>

datatype key = KQuit | KDown | KUp | KOther

text \<open>\<open>None\<close> ends the loop.\<close>

fun ui_key :: "key \<Rightarrow> ui \<Rightarrow> ui option" where
  "ui_key KQuit u = None"
| "ui_key KDown u = Some (if ui_sel u + 1 < length (ui_procs u) then u\<lparr>ui_selected := Some (ui_sel u + 1)\<rparr> else u)"
| "ui_key KUp u = Some (u\<lparr>ui_selected := Some (ui_sel u - 1)\<rparr>)"
| "ui_key KOther u = Some u"

definition ui_current :: "ui \<Rightarrow> snapshot option" where
  "ui_current u =
     (case ui_selected u of
        Some i \<Rightarrow> if i < length (ui_procs u) then Some (ui_procs u ! i) else None
      | None \<Rightarrow> None)"

definition ui_visible :: "nat \<Rightarrow> ui \<Rightarrow> (u32 \<times> string \<times> string) list" where
  "ui_visible height u =
     (let mine = filter (\<lambda>(i, _, _). case ui_current u of Some p \<Rightarrow> i = s_pm_id p | None \<Rightarrow> True) (ui_logs u)
      in rev (take (height - 2) (rev mine)))"

text \<open>The thread that feeds the log events stops at the first item that is none.\<close>

fun feed :: "(string, event) result option list \<Rightarrow> event list" where
  "feed [] = []"
| "feed (None # items) = []"
| "feed (Some (Inl e) # items) = []"
| "feed (Some (Inr ev) # items) = ev # feed items"

datatype key_code = KcChar char | KcEsc | KcDown | KcUp | KcOther

definition key_of :: "key_code \<Rightarrow> bool \<Rightarrow> key" where
  "key_of k ctrl =
     (case k of
        KcChar c \<Rightarrow>
          if c = CHR ''q'' \<or> (c = CHR ''c'' \<and> ctrl) then KQuit
          else if c = CHR ''j'' then KDown else if c = CHR ''k'' then KUp else KOther
      | KcEsc \<Rightarrow> KQuit
      | KcDown \<Rightarrow> KDown
      | KcUp \<Rightarrow> KUp
      | KcOther \<Rightarrow> KOther)"

section \<open>A frame\<close>

record view =
  v_items :: "(string \<times> string) list"
  v_selected :: "nat option"
  v_cpu :: "nat \<times> nat"
  v_cpu_label :: string
  v_mem :: "nat \<times> nat"
  v_mem_label :: string
  v_lines :: "(string \<times> bool) list"

fun item_color :: "status \<Rightarrow> string" where
  "item_color Online = ''Green''"
| "item_color Errored = ''Red''"
| "item_color Launching = ''Yellow''"
| "item_color WaitingRestart = ''Yellow''"
| "item_color Stopping = ''DarkGray''"
| "item_color Stopped = ''DarkGray''"

text \<open>The dash and the arrow are their UTF-8 bytes.\<close>

definition item_text :: "snapshot \<Rightarrow> string" where
  "item_text p =
     ''['' @ show_word (s_pm_id p) @ ''] '' @ s_name p @ '' '' @ em_dash @ '' '' @ show_status (s_status p) @ '' (''
       @ restart_arrow @ show_word (s_restarts p) @ '')''"

definition f64_of_frac :: "nat \<Rightarrow> nat \<Rightarrow> nat \<times> nat" where
  "f64_of_frac n d =
     (if n = 0 then (0, 1)
      else (case significand 53 n d of (m, e) \<Rightarrow> if 0 \<le> e then (m * 2 ^ nat e, 1) else (m, 2 ^ nat (- e))))"

definition clamp1 :: "nat \<times> nat \<Rightarrow> nat \<times> nat" where
  "clamp1 x = (case x of (n, d) \<Rightarrow> if d < n then (1, 1) else (n, d))"

definition cpu_ratio :: "snapshot \<Rightarrow> nat \<times> nat" where
  "cpu_ratio p = (case f32_frac (m_cpu (s_monit p)) of (n, d) \<Rightarrow> clamp1 (f64_of_frac n (d * 100)))"

definition mem_ratio :: "u64 \<Rightarrow> snapshot \<Rightarrow> nat \<times> nat" where
  "mem_ratio ram p = clamp1 (f64_of_frac (f64_of_u64 (m_memory (s_monit p))) (f64_of_u64 (max ram 1)))"

definition percent_label :: "nat \<times> nat \<Rightarrow> string" where
  "percent_label x =
     (case x of (n, d) \<Rightarrow> case f64_of_frac (n * 100) d of (n', d') \<Rightarrow> show_fixed1 n' d' @ ''%'')"

definition draw :: "u64 \<Rightarrow> nat \<Rightarrow> ui \<Rightarrow> view" where
  "draw ram height u =
     (let cur = ui_current u;
          cpu = (case cur of Some p \<Rightarrow> cpu_ratio p | None \<Rightarrow> (0, 1))
      in \<lparr> v_items = map (\<lambda>p. (item_text p, item_color (s_status p))) (ui_procs u),
           v_selected = ui_selected u,
           v_cpu = cpu, v_cpu_label = percent_label cpu,
           v_mem = (case cur of Some p \<Rightarrow> mem_ratio ram p | None \<Rightarrow> (0, 1)),
           v_mem_label = (case cur of Some p \<Rightarrow> format_bytes (m_memory (s_monit p)) | None \<Rightarrow> ''-''),
           v_lines = map (\<lambda>(i, stream, line). (line, stream = ''err'')) (ui_visible height u) \<rparr>)"

section \<open>The loop\<close>

text \<open>\<open>ur_list\<close> is \<open>None\<close> while less than a second has passed; a list that cannot be had keeps the old one.\<close>

record ui_round =
  ur_events :: "event list"
  ur_list :: "(client_err, snapshot list) result option"
  ur_height :: nat
  ur_key :: "(key_code \<times> bool) option"

definition ui_start :: "snapshot list \<Rightarrow> ui" where
  "ui_start ps = \<lparr>ui_procs = ps, ui_selected = Some 0, ui_logs = []\<rparr>"

definition ui_refresh :: "(client_err, snapshot list) result option \<Rightarrow> ui \<Rightarrow> ui" where
  "ui_refresh l u = (case l of Some (Inr ps) \<Rightarrow> u\<lparr>ui_procs := ps\<rparr> | _ \<Rightarrow> u)"

definition ui_prepare :: "ui_round \<Rightarrow> ui \<Rightarrow> ui" where
  "ui_prepare r u = ui_clamp (ui_refresh (ur_list r) (foldl (\<lambda>u e. ui_log e u) u (ur_events r)))"

definition ui_react :: "ui_round \<Rightarrow> ui \<Rightarrow> ui option" where
  "ui_react r u = (case ur_key r of Some (k, ctrl) \<Rightarrow> ui_key (key_of k ctrl) u | None \<Rightarrow> Some u)"

text \<open>The frames drawn, and the state after the rounds unless a key has left the loop.\<close>

fun ui_loop :: "u64 \<Rightarrow> ui_round list \<Rightarrow> ui \<Rightarrow> view list \<times> ui option" where
  "ui_loop ram [] u = ([], Some u)"
| "ui_loop ram (r # rs) u =
     (let u1 = ui_prepare r u; v = draw ram (ur_height r) u1
      in case ui_react r u1 of
           None \<Rightarrow> ([v], None)
         | Some u2 \<Rightarrow> (case ui_loop ram rs u2 of (vs, e) \<Rightarrow> (v # vs, e)))"

text \<open>\<open>run\<close>: nothing to monitor ends it at once; the loop asks for the list once more.\<close>

definition monit_run ::
    "(client_err, snapshot list) result \<Rightarrow> (client_err, snapshot list) result \<Rightarrow> u64 \<Rightarrow> ui_round list \<Rightarrow>
     (client_err, string list + view list) result" where
  "monit_run listed again ram rs =
     (case listed of
        Inl e \<Rightarrow> Inl e
      | Inr ps \<Rightarrow>
          if ps = [] then Inr (Inl [''[pmr] no processes to monitor''])
          else (case again of
                  Inl e \<Rightarrow> Inl e
                | Inr ps' \<Rightarrow> Inr (Inr (fst (ui_loop ram rs (ui_start ps'))))))"

section \<open>What the monitor holds\<close>

interpretation ui_ring: ring log_buffer ui_push "\<lambda>x. x"
  by unfold_locales (auto simp: ui_push_def log_buffer_def)

fun log_entry :: "event \<Rightarrow> (u32 \<times> string \<times> string) list" where
  "log_entry (EvLog i nm stream line at') = [(i, stream, line)]"
| "log_entry (EvProcess _ _ _ _) = []"
| "log_entry EvDaemonKill = []"

lemma ui_logs_foldl: "ui_logs (foldl (\<lambda>u e. ui_log e u) u es) = foldl ui_push (ui_logs u) (concat (map log_entry es))"
proof (induction es arbitrary: u)
  case (Cons e es)
  then show ?case by (cases e) simp_all
qed simp

text \<open>The monitor shows the newest lines it was sent, and its selection is one of its processes.\<close>

lemma ui_shows_newest:
  "ui_logs u = [] \<Longrightarrow> ui_logs (foldl (\<lambda>u e. ui_log e u) u es) = last_of log_buffer (concat (map log_entry es))"
  using ui_ring.holds_last by (simp add: ui_logs_foldl)

lemma ui_clamp_current: "ui_procs u \<noteq> [] \<Longrightarrow> ui_current (ui_clamp u) \<noteq> None"
  by (cases "ui_procs u") (auto simp: ui_clamp_def ui_current_def)


lemma ui_prepare_logs: "ui_logs (ui_prepare r u) = foldl ui_push (ui_logs u) (concat (map log_entry (ur_events r)))"
  by (auto simp: ui_prepare_def ui_clamp_def ui_refresh_def ui_logs_foldl split: option.split sum.split)

lemma ui_react_logs: "ui_react r u = Some u' \<Longrightarrow> ui_logs u' = ui_logs u"
proof -
  have "ui_key k u = Some u' \<Longrightarrow> ui_logs u' = ui_logs u" for k by (cases k) (auto split: if_splits)
  then show "ui_react r u = Some u' \<Longrightarrow> ui_logs u' = ui_logs u" by (auto simp: ui_react_def split: option.splits)
qed

definition logged :: "ui_round list \<Rightarrow> (u32 \<times> string \<times> string) list" where
  "logged rs = concat (map (\<lambda>r. concat (map log_entry (ur_events r))) rs)"

lemma ui_loop_logs:
  "snd (ui_loop ram rs u) = Some u' \<Longrightarrow> ui_logs u' = foldl ui_push (ui_logs u) (logged rs)"
proof (induction rs arbitrary: u)
  case (Cons r rs)
  then obtain u2 where u2: "ui_react r (ui_prepare r u) = Some u2" "snd (ui_loop ram rs u2) = Some u'"
    by (auto simp: Let_def split: option.splits prod.splits)
  with Cons.IH ui_react_logs [OF u2(1)] show ?case by (simp add: ui_prepare_logs logged_def)
qed (simp add: logged_def)

lemma rev_take_rev: "rev (take n (rev xs)) = last_of n xs"
  by (simp add: last_of_def rev_take)

lemma ui_prepare_current: "ui_procs (ui_prepare r u) \<noteq> [] \<Longrightarrow> ui_current (ui_prepare r u) \<noteq> None"
  unfolding ui_prepare_def using ui_clamp_current
  by (metis (no_types, lifting) ui_clamp_def ui.select_convs(1) ui.surjective ui.update_convs(2))

section \<open>Properties\<close>

text \<open>C36: A frame of the monitor is up to date: after any rounds, the next frame has one item for each process in
  the current list, if there is a process one of them is selected, and the log pane shows the last
  lines that fit of the selected process among the 200 newest lines received in all rounds.\<close>
theorem monitor_frame_is_current:
  assumes "snd (ui_loop ram rs (ui_start ps)) = Some u" "ui_procs (ui_prepare r u) \<noteq> []"
  shows "\<exists>p \<in> set (ui_procs (ui_prepare r u)).
      ui_current (ui_prepare r u) = Some p
      \<and> length (v_items (draw ram height (ui_prepare r u))) = length (ui_procs (ui_prepare r u))
      \<and> v_lines (draw ram height (ui_prepare r u)) =
          map (\<lambda>(i, stream, line). (line, stream = ''err''))
            (last_of (height - 2) (filter (\<lambda>(i, _, _). i = s_pm_id p) (last_of 200 (logged (rs @ [r])))))"
proof -
  let ?u = "ui_prepare r u"
  obtain p where p: "ui_current ?u = Some p" using ui_prepare_current [OF assms(2)] by blast
  then have mem: "p \<in> set (ui_procs ?u)" by (auto simp: ui_current_def split: option.splits if_splits)
  have "ui_logs ?u = foldl ui_push [] (logged (rs @ [r]))"
    using ui_loop_logs [OF assms(1)] by (simp add: ui_prepare_logs logged_def ui_start_def)
  also have "\<dots> = last_of 200 (logged (rs @ [r]))"
    using ui_ring.holds_last [of "logged (rs @ [r])"] by (simp add: log_buffer_def)
  finally have "ui_visible height ?u = last_of (height - 2) (filter (\<lambda>(i, _, _). i = s_pm_id p) (last_of 200 (logged (rs @ [r]))))"
    by (simp add: ui_visible_def p rev_take_rev Let_def)
  with p mem show ?thesis by (intro bexI [of _ p]) (simp_all add: draw_def Let_def)
qed

definition sample_rounds :: "ui_round list" where
  "sample_rounds =
     [\<lparr>ur_events = [EvLog 4 ''web'' ''out'' ''a'' 0, EvLog 9 ''db'' ''err'' ''x'' 1], ur_list = None, ur_height = 4,
       ur_key = Some (KcChar CHR ''j'', False)\<rparr>]"

definition sample_round :: ui_round where
  "sample_round = \<lparr>ur_events = [EvLog 4 ''web'' ''err'' ''b'' 2], ur_list = None, ur_height = 4, ur_key = None\<rparr>"

definition sample_shown :: snapshot where
  "sample_shown = snapshot_of False (proc_new (\<lambda>_. None) 0 4 0 (app_new ''web''))"

lemma monitor_frame_is_current_witness:
  "v_lines (draw 8 4 (ui_prepare sample_round (the (snd (ui_loop 8 sample_rounds (ui_start [sample_shown])))))) =
     [(''a'', False), (''b'', True)]"
proof -
  have len: "foldl ui_push [] [(4, ''out'', ''a''), (9, ''err'', ''x'')] = [(4 :: u32, ''out'', ''a''), (9, ''err'', ''x'')]"
    by (simp add: ui_push_def log_buffer_def)
  obtain u where u: "snd (ui_loop 8 sample_rounds (ui_start [sample_shown])) = Some u" "ui_procs u = [sample_shown]"
    by (auto simp: sample_rounds_def ui_start_def ui_prepare_def ui_react_def ui_refresh_def ui_clamp_def ui_sel_def
        key_of_def Let_def)
  have procs: "ui_procs (ui_prepare sample_round u) = [sample_shown]"
    by (simp add: ui_prepare_def ui_refresh_def ui_clamp_def sample_round_def u(2))
  have pm: "s_pm_id sample_shown = 4" by (simp add: sample_shown_def snapshot_of_def proc_new_def Let_def)
  have "logged (sample_rounds @ [sample_round]) = [(4, ''out'', ''a''), (9, ''err'', ''x''), (4, ''err'', ''b'')]"
    by (simp add: logged_def sample_rounds_def sample_round_def)
  with monitor_frame_is_current [OF u(1), of sample_round 4] procs pm u(1) show ?thesis
    by (simp add: last_of_def)
qed

end
