(* ===== verification/Cli.thy ===== *)
theory Cli
  imports Client Show
begin

text \<open>
  \<open>src/cli/commands.rs\<close> and \<open>src/cli/startup.rs\<close>: which request each command sends, the
  configuration \<open>pmr start\<close> builds from its options, what is made of the reply, and the systemd unit.  Clap's parsing of the
  command line is not modelled: a command is its parsed value.
\<close>

section \<open>\<open>pmr start\<close>\<close>

record start_args =
  sa_target :: string
  sa_name :: "string option"
  sa_instances :: "u32 option"
  sa_runtime :: "string option"
  sa_interpreter :: "string option"
  sa_cwd :: "string option"
  sa_env :: "string option"
  sa_no_autorestart :: bool
  sa_max_restarts :: "u32 option"
  sa_max_memory_restart :: "string option"
  sa_restart_delay :: "u64 option"
  sa_exp_backoff :: "u64 option"
  sa_cron_restart :: "string option"
  sa_watch :: bool
  sa_time :: bool
  sa_kill_timeout :: "u64 option"
  sa_max_log_size :: "string option"
  sa_no_log_file :: bool
  sa_disable_logs :: bool
  sa_health_check :: "string option"
  sa_args :: "string list"

definition or_default :: "'a option \<Rightarrow> 'a \<Rightarrow> 'a" where
  "or_default x d = (case x of Some v \<Rightarrow> v | None \<Rightarrow> d)"

text \<open>A size option: absent, read, or an error.\<close>

definition size_option :: "string option \<Rightarrow> u64 option res" where
  "size_option x =
     (case x of None \<Rightarrow> Inr None
      | Some s \<Rightarrow> (case parse_memory s of Inl e \<Rightarrow> Inl e | Inr n \<Rightarrow> Inr (Some n)))"

definition app_of_args :: "string \<Rightarrow> start_args \<Rightarrow> app_config res" where
  "app_of_args script a =
     (case size_option (sa_max_memory_restart a) of
        Inl e \<Rightarrow> Inl e
      | Inr mem \<Rightarrow>
          (case size_option (sa_max_log_size a) of
             Inl e \<Rightarrow> Inl e
           | Inr log_size \<Rightarrow>
               let d = app_new script;
                   app = d\<lparr>ac_name := sa_name a,
                     ac_instances := or_default (sa_instances a) (ac_instances d),
                     ac_runtime := sa_runtime a, ac_interpreter := sa_interpreter a,
                     ac_cwd := (case sa_cwd a of Some c \<Rightarrow> Some c | None \<Rightarrow> path_parent script),
                     ac_args := sa_args a, ac_autorestart := \<not> sa_no_autorestart a,
                     ac_max_restarts := or_default (sa_max_restarts a) (ac_max_restarts d),
                     ac_max_memory_restart := mem,
                     ac_restart_delay := or_default (sa_restart_delay a) (ac_restart_delay d),
                     ac_exp_backoff := or_default (sa_exp_backoff a) (ac_exp_backoff d),
                     ac_cron_restart := sa_cron_restart a, ac_watch := sa_watch a,
                     ac_log_date_format := (if sa_time a then Some ''%Y-%m-%dT%H:%M:%S'' else None),
                     ac_kill_timeout := or_default (sa_kill_timeout a) (ac_kill_timeout d),
                     ac_max_log_size := log_size, ac_disable_log_files := sa_no_log_file a,
                     ac_disable_logs := sa_disable_logs a\<rparr>
               in Inr (case sa_health_check a of Some cmd \<Rightarrow> app_with_health_check app cmd | None \<Rightarrow> app)))"

text \<open>A \<open>.json\<close> file is an ecosystem file if it parses as an array or mentions \<open>"apps"\<close>.\<close>

definition is_ecosystem_json :: "(string \<Rightarrow> string option) \<Rightarrow> (string \<Rightarrow> bool) \<Rightarrow> string \<Rightarrow> bool" where
  "is_ecosystem_json read_file is_array path =
     (path_extension path = Some ''json'' \<and>
      (case read_file path of None \<Rightarrow> False | Some raw \<Rightarrow> is_array raw \<or> str_contains raw ''\"apps\"''))"

fun apply_profiles :: "(json \<Rightarrow> string) \<Rightarrow> string \<Rightarrow> app_config list \<Rightarrow> app_config list res" where
  "apply_profiles show_json profile [] = Inr []"
| "apply_profiles show_json profile (a # as) =
     (case apply_env_profile show_json a profile of
        Inl e \<Rightarrow> Inl e
      | Inr a' \<Rightarrow> (case apply_profiles show_json profile as of Inl e \<Rightarrow> Inl e | Inr as' \<Rightarrow> Inr (a' # as')))"

text \<open>What \<open>pmr start\<close> does: start configurations, look for a process of that name, or fail.\<close>

datatype start_plan = SP_start "app_config list" | SP_existing string | SP_fail err

record start_world =
  sw_exists :: "string \<Rightarrow> bool"
  sw_read :: "string \<Rightarrow> string option"
  sw_is_array :: "string \<Rightarrow> bool"
  sw_canonical :: "string \<Rightarrow> string option"
  sw_parsers :: eco_parsers
  sw_cron_ok :: "string \<Rightarrow> bool"
  sw_show_json :: "json \<Rightarrow> string"

definition start_plan_of :: "start_world \<Rightarrow> start_args \<Rightarrow> start_plan" where
  "start_plan_of w a =
     (let path = sa_target a;
          is_config = path_extension path \<in> {Some ''yaml'', Some ''yml'', Some ''toml''}
            \<or> is_ecosystem_json (sw_read w) (sw_is_array w) path
      in if is_config \<and> sw_exists w path then
           (case load_ecosystem (sw_cron_ok w) (sw_parsers w) (sw_read w) path of
              Inl e \<Rightarrow> SP_fail e
            | Inr apps \<Rightarrow>
                (case sa_env a of
                   None \<Rightarrow> SP_start apps
                 | Some profile \<Rightarrow>
                     (case apply_profiles (sw_show_json w) profile apps of
                        Inl e \<Rightarrow> SP_fail e | Inr apps' \<Rightarrow> SP_start apps')))
         else if \<not> sw_exists w path then SP_existing path
         else (case sw_canonical w path of
                 None \<Rightarrow> SP_fail (E_cannot_resolve path)
               | Some script \<Rightarrow>
                   (case app_of_args script a of Inl e \<Rightarrow> SP_fail e | Inr app \<Rightarrow> SP_start [app])))"

section \<open>The other commands\<close>

datatype cmd =
    Cmd_init
  | Cmd_startup bool
  | Cmd_unstartup
  | Cmd_ping
  | Cmd_version
  | Cmd_kill
  | Cmd_start start_args
  | Cmd_stop string
  | Cmd_restart string
  | Cmd_reload string
  | Cmd_delete string
  | Cmd_reset string
  | Cmd_ls
  | Cmd_jlist
  | Cmd_describe string
  | Cmd_env string
  | Cmd_id string
  | Cmd_pid "string option"
  | Cmd_scale string u32
  | Cmd_send_signal string string
  | Cmd_logs "string option" nat bool bool bool bool bool
  | Cmd_flush "string option"
  | Cmd_reload_logs
  | Cmd_save
  | Cmd_resurrect
  | Cmd_monit
  | Cmd_completions string
  | Cmd_daemon

text \<open>The request a command sends, where it sends exactly one (\<open>start\<close> depends on the world).\<close>

fun cmd_method :: "cmd \<Rightarrow> rpc_method option" where
  "cmd_method Cmd_ping = Some M_ping"
| "cmd_method Cmd_version = Some M_ping"
| "cmd_method Cmd_kill = Some M_kill"
| "cmd_method (Cmd_stop t) = Some (M_stop (target_parse t))"
| "cmd_method (Cmd_restart t) = Some (M_restart (target_parse t))"
| "cmd_method (Cmd_reload t) = Some (M_restart (target_parse t))"
| "cmd_method (Cmd_delete t) = Some (M_delete (target_parse t))"
| "cmd_method (Cmd_reset t) = Some (M_reset (target_parse t))"
| "cmd_method Cmd_ls = Some M_list"
| "cmd_method Cmd_jlist = Some M_list"
| "cmd_method (Cmd_describe t) = Some (M_describe (target_parse t))"
| "cmd_method (Cmd_env t) = Some (M_describe (target_parse t))"
| "cmd_method (Cmd_id n) = Some (M_describe (target_parse n))"
| "cmd_method (Cmd_pid (Some t)) = Some (M_describe (target_parse t))"
| "cmd_method (Cmd_pid None) = Some M_list"
| "cmd_method (Cmd_scale n k) = Some (M_scale n k)"
| "cmd_method (Cmd_send_signal sg t) = Some (M_send_signal (target_parse t) sg)"
| "cmd_method (Cmd_flush t) = Some (M_flush (map_option target_parse t))"
| "cmd_method Cmd_reload_logs = Some M_reload_logs"
| "cmd_method Cmd_save = Some M_save"
| "cmd_method Cmd_resurrect = Some M_resurrect"
| "cmd_method _ = None"

text \<open>What it prints of the reply: the process table, descriptions, JSON or lines of its own; or how it fails.\<close>

definition pid_lines :: "snapshot list \<Rightarrow> string list" where
  "pid_lines ps = map (show_word \<circ> s_pid) (filter (\<lambda>p. s_pid p \<noteq> 0) ps)"

definition env_lines :: "snapshot \<Rightarrow> string list" where
  "env_lines p =
     (rule_mark @ rule_mark @ '' '' @ s_name p @ '' (id '' @ show_word (s_pm_id p) @ '') '' @ rule_mark @ rule_mark)
     # map (\<lambda>(k, v). k @ ''='' @ v) (bt_rows (s_env p))"

datatype cmd_out =
    Out_table "snapshot list"
  | Out_describe "snapshot list"
  | Out_json "snapshot list"
  | Out_lines "string list"

datatype cmd_err =
    CX_client client_err
  | CX_app err
  | CX_no_process string
  | CX_no_file string
  | CX_exists string
  | CX_write string
  | CX_no_binary
  | CX_ran "string list"
  | CX_root string

definition about :: "string \<Rightarrow> snapshot \<Rightarrow> string" where
  "about what p = ''[pmr] '' @ what @ s_name p @ '' (id '' @ show_word (s_pm_id p) @ '')''"

text \<open>A reply that names no process is an error for the commands that print one.\<close>

definition some_found :: "string \<Rightarrow> snapshot list \<Rightarrow> cmd_out \<Rightarrow> (cmd_err, cmd_out) result" where
  "some_found t ps out = (if ps = [] then Inl (CX_no_process t) else Inr out)"

fun cmd_snapshots :: "cmd \<Rightarrow> snapshot list \<Rightarrow> (cmd_err, cmd_out) result" where
  "cmd_snapshots (Cmd_delete t) ps = Inr (Out_lines (map (about ''deleted '') ps))"
| "cmd_snapshots (Cmd_reset t) ps = Inr (Out_lines (map (about ''reset counters for '') ps))"
| "cmd_snapshots Cmd_jlist ps = Inr (Out_json ps)"
| "cmd_snapshots (Cmd_describe t) ps = some_found t ps (Out_describe ps)"
| "cmd_snapshots (Cmd_env t) ps = some_found t ps (Out_lines (concat (map env_lines ps)))"
| "cmd_snapshots (Cmd_id n) ps = some_found n ps (Out_lines (map (show_word \<circ> s_pm_id) ps))"
| "cmd_snapshots (Cmd_pid t) ps = Inr (Out_lines (pid_lines ps))"
| "cmd_snapshots _ ps = Inr (Out_table ps)"

text \<open>The type each command reads the reply as, and what it makes of it.\<close>

fun cmd_output :: "cmd \<Rightarrow> rpc_value option \<Rightarrow> (cmd_err, cmd_out) result option" where
  "cmd_output (Cmd_send_signal sg t) v =
     map_option (\<lambda>n. Inr (Out_lines [''[pmr] '' @ sg @ '' sent to '' @ show_word n @ '' process(es)''])) (shape_sent v)"
| "cmd_output (Cmd_flush t) v = map_option (\<lambda>_. Inr (Out_lines [''[pmr] logs flushed''])) (shape_any v)"
| "cmd_output Cmd_reload_logs v = map_option (\<lambda>_. Inr (Out_lines [''[pmr] log files reopened''])) (shape_any v)"
| "cmd_output Cmd_save v = map_option (\<lambda>p. Inr (Out_lines [''[pmr] process list saved to '' @ p])) (shape_path v)"
| "cmd_output c v = map_option (cmd_snapshots c) (shape_snapshots v)"

section \<open>The systemd unit\<close>

definition whoami :: "env_vars \<Rightarrow> string" where
  "whoami ev =
     (let sudo = (case ev ''SUDO_USER'' of Some u \<Rightarrow> u | None \<Rightarrow> ''root'')
      in case ev ''USER'' of Some u \<Rightarrow> if u \<noteq> ''root'' then u else sudo | None \<Rightarrow> sudo)"

definition unit_path :: "env_vars \<Rightarrow> string" where
  "unit_path ev = ''/etc/systemd/system/pmr-'' @ whoami ev @ ''.service''"

definition effective_home :: "env_vars \<Rightarrow> (string \<Rightarrow> string option) \<Rightarrow> string \<Rightarrow> string" where
  "effective_home ev user_dir user =
     (let fallback = (case user_dir user of Some d \<Rightarrow> path_join d ''.pmr'' | None \<Rightarrow> home ev)
      in case ev ''PMR_HOME'' of Some h \<Rightarrow> if h \<noteq> [] then h else fallback | None \<Rightarrow> fallback)"

text \<open>The text of the unit, line by line.\<close>

definition unit_text :: "string \<Rightarrow> string \<Rightarrow> string \<Rightarrow> string \<Rightarrow> string list" where
  "unit_text user hm path_env exe =
     [''[Unit]'', ''Description=pmr process manager ('' @ user @ '')'',
      ''Wants=network-online.target'', ''After=network-online.target'', [],
      ''[Service]'',
      ''# resurrect spawns the detached daemon (which writes pmr.pid) and exits '' @ em_dash,
      ''# classic forking. PIDFile lets systemd track the real daemon, so an'',
      ''# OOM-killed/crashed daemon fails the unit and Restart brings the fleet back.'',
      ''Type=forking'', ''PIDFile='' @ hm @ ''/pmr.pid'', ''Restart=on-failure'',
      ''RestartSec=5'', ''User='' @ user, ''Environment=PATH='' @ path_env,
      ''Environment=PMR_HOME='' @ hm, ''ExecStart='' @ exe @ '' resurrect'',
      ''ExecReload='' @ exe @ '' reloadLogs'', ''ExecStop='' @ exe @ '' kill'', ''TimeoutStopSec=90'', [],
      ''[Install]'', ''WantedBy=multi-user.target'']"

definition render_unit :: "env_vars \<Rightarrow> (string \<Rightarrow> string option) \<Rightarrow> string \<Rightarrow> string list" where
  "render_unit ev user_dir exe =
     unit_text (whoami ev) (effective_home ev user_dir (whoami ev))
       (case ev ''PATH'' of Some p \<Rightarrow> p | None \<Rightarrow> ''/usr/bin:/bin'') exe"

text \<open>The commands run and the files touched, in order.  An action that fails ends the command, but
  printing does not fail and the failure of a \<open>UA_try\<close> is ignored.\<close>

datatype unit_action =
    UA_print "string list"
  | UA_run "string list"
  | UA_try "string list"
  | UA_write string "string list"
  | UA_remove string
  | UA_bail string

fun unit_error :: "unit_action \<Rightarrow> cmd_err" where
  "unit_error (UA_run cmd) = CX_ran cmd"
| "unit_error (UA_bail why) = CX_root why"
| "unit_error (UA_write f ls) = CX_write f"
| "unit_error (UA_remove f) = CX_write f"
| "unit_error a = CX_write []"

definition goes_on :: "(unit_action \<Rightarrow> bool) \<Rightarrow> unit_action \<Rightarrow> bool" where
  "goes_on ok a = (case a of UA_print ls \<Rightarrow> True | UA_try cmd \<Rightarrow> True | UA_bail why \<Rightarrow> False | _ \<Rightarrow> ok a)"

fun perform :: "(unit_action \<Rightarrow> bool) \<Rightarrow> unit_action list \<Rightarrow> unit_action list \<times> cmd_err option" where
  "perform ok [] = ([], None)"
| "perform ok (a # as) =
     (if goes_on ok a then (case perform ok as of (done', e) \<Rightarrow> (a # done', e)) else ([a], Some (unit_error a)))"

definition service_name :: "env_vars \<Rightarrow> string" where
  "service_name ev = (case path_file_stem (unit_path ev) of Some s \<Rightarrow> s | None \<Rightarrow> [])"

text \<open>Re-running through \<open>sudo\<close>, on a terminal; otherwise the command to run is the error.\<close>

definition sudo_self :: "env_vars \<Rightarrow> string \<Rightarrow> bool \<Rightarrow> string \<Rightarrow> unit_action list" where
  "sudo_self ev exe terminal sub =
     (if terminal then
        [UA_print [''[pmr] '' @ sub @ '' needs root '' @ em_dash @ '' asking sudo:''],
         UA_run [''sudo'', ''env'', ''PATH='' @ (case ev ''PATH'' of Some p \<Rightarrow> p | None \<Rightarrow> []),
           ''PMR_HOME='' @ home ev, ''USER='' @ whoami ev, exe, sub]]
      else [UA_bail (''root required. Run: sudo env PATH=$PATH PMR_HOME='' @ home ev @ '' USER='' @ whoami ev @ '' ''
              @ exe @ '' '' @ sub)])"

definition startup_actions ::
    "env_vars \<Rightarrow> (string \<Rightarrow> string option) \<Rightarrow> string \<Rightarrow> bool \<Rightarrow> bool \<Rightarrow> bool \<Rightarrow> unit_action list" where
  "startup_actions ev user_dir exe print_only root terminal =
     (let u = render_unit ev user_dir exe
      in if print_only then [UA_print (u @ [[], ''# would be written to '' @ unit_path ev])]
         else if \<not> root then sudo_self ev exe terminal ''startup''
         else [UA_write (unit_path ev) u, UA_run [''systemctl'', ''daemon-reload''],
               UA_run [''systemctl'', ''enable'', service_name ev],
               UA_print [''[pmr] installed and enabled '' @ service_name ev,
                 ''[pmr] save your process list with `pmr save` '' @ em_dash @ '' it will be resurrected on boot'']])"

definition startup ::
    "env_vars \<Rightarrow> (string \<Rightarrow> string option) \<Rightarrow> string option \<Rightarrow> bool \<Rightarrow> bool \<Rightarrow> bool \<Rightarrow> (unit_action \<Rightarrow> bool) \<Rightarrow>
     unit_action list \<times> cmd_err option" where
  "startup ev user_dir exe print_only root terminal ok =
     (case exe of
        None \<Rightarrow> ([], Some CX_no_binary)
      | Some x \<Rightarrow> perform ok (startup_actions ev user_dir x print_only root terminal))"

definition unstartup_actions :: "env_vars \<Rightarrow> (string \<Rightarrow> bool) \<Rightarrow> string \<Rightarrow> bool \<Rightarrow> bool \<Rightarrow> unit_action list" where
  "unstartup_actions ev exists exe root terminal =
     (if \<not> exists (unit_path ev) then [UA_print [''[pmr] no startup unit installed ('' @ unit_path ev @ '')'']]
      else if \<not> root then sudo_self ev exe terminal ''unstartup''
      else [UA_try [''systemctl'', ''disable'', service_name ev], UA_remove (unit_path ev),
            UA_run [''systemctl'', ''daemon-reload''], UA_print [''[pmr] removed '' @ unit_path ev]])"

text \<open>\<open>sudo_self\<close> is where \<open>unstartup\<close> needs the path of the binary.\<close>

definition unstartup ::
    "env_vars \<Rightarrow> (string \<Rightarrow> bool) \<Rightarrow> string option \<Rightarrow> bool \<Rightarrow> bool \<Rightarrow> (unit_action \<Rightarrow> bool) \<Rightarrow>
     unit_action list \<times> cmd_err option" where
  "unstartup ev exists exe root terminal ok =
     (case exe of
        None \<Rightarrow> if exists (unit_path ev) \<and> \<not> root then ([], Some CX_no_binary)
                else perform ok (unstartup_actions ev exists [] root terminal)
      | Some x \<Rightarrow> perform ok (unstartup_actions ev exists x root terminal))"

section \<open>Properties\<close>

text \<open>\<open>env\<close> takes its first arguments with an equals sign as assignments and runs the rest.\<close>

definition assign :: "string \<Rightarrow> env_vars \<Rightarrow> env_vars" where
  "assign a e = e(takeWhile (\<lambda>c. c \<noteq> CHR ''='') a \<mapsto> tl (dropWhile (\<lambda>c. c \<noteq> CHR ''='') a))"

fun env_args :: "env_vars \<Rightarrow> string list \<Rightarrow> env_vars \<times> string list" where
  "env_args e [] = (e, [])"
| "env_args e (a # as) = (if CHR ''='' \<in> set a then env_args (assign a e) as else (e, a # as))"

text \<open>\<open>systemd\<close> assigns what \<open>Environment=\<close> lines say; blanks, quotes, backslashes and percent signs have a meaning to it.\<close>

definition plain :: "string \<Rightarrow> bool" where
  "plain s = list_all (\<lambda>c. c \<notin> {CHR '' '', CHR 0x09, CHR 0x0A, CHR 0x22, CHR 0x27, CHR 0x5C, CHR ''%''}) s"

fun unit_env :: "string list \<Rightarrow> env_vars \<Rightarrow> env_vars option" where
  "unit_env [] e = Some e"
| "unit_env (l # ls) e =
     (if starts_with l ''Environment=''
      then (let a = drop 12 l in if plain a \<and> CHR ''='' \<in> set a then unit_env ls (assign a e) else None)
      else unit_env ls e)"

definition caller_path :: "env_vars \<Rightarrow> string" where
  "caller_path ev = (case ev ''PATH'' of Some p \<Rightarrow> p | None \<Rightarrow> [])"

lemma home_nonempty: "home ev \<noteq> []"
  by (auto simp: home_def path_join_def split: option.split)

lemma home_of_unit: "ev' ''PMR_HOME'' = Some (home ev) \<Longrightarrow> home ev' = home ev"
  unfolding home_def [of ev'] by (simp add: home_nonempty)

lemma plain_append: "plain (xs @ ys) \<longleftrightarrow> plain xs \<and> plain ys"
  by (simp add: plain_def)

text \<open>C37: The unit that \<open>pmr startup\<close> installs through \<open>sudo\<close> runs the daemon of the user who asked: run by an
  ordinary user on a terminal it calls \<open>sudo env\<close> with arguments from which \<open>env\<close> makes an environment and the
  command \<open>startup\<close> again; that one, as root, writes and enables the unit of this user, with the
  caller's pid file as \<open>PIDFile\<close>; and a daemon started with the unit's environment uses the caller's
  socket, dump, pid file and \<open>PATH\<close>, provided the paths mean nothing special to \<open>env\<close> and \<open>systemd\<close>.\<close>
theorem unit_runs_the_callers_daemon:
  assumes "whoami ev \<noteq> ''root''" "last (home ev) \<noteq> CHR ''/''" "plain (home ev)" "plain (caller_path ev)" "CHR ''='' \<notin> set exe"
  shows "\<exists>msg args ev2 unit ev3.
      startup_actions ev user_dir exe False False True = [UA_print msg, UA_run (''sudo'' # ''env'' # args)]
    \<and> env_args left args = (ev2, [exe, ''startup''])
    \<and> take 3 (startup_actions ev2 user_dir exe False True tty)
        = [UA_write (unit_path ev) unit, UA_run [''systemctl'', ''daemon-reload''], UA_run [''systemctl'', ''enable'', service_name ev]]
    \<and> {''User='' @ whoami ev, ''PIDFile='' @ daemon_pid_file ev, ''ExecStart='' @ exe @ '' resurrect''} \<subseteq> set unit
    \<and> unit_env unit base = Some ev3 \<and> ev3 ''PATH'' = Some (caller_path ev)
    \<and> rpc_sock ev3 = rpc_sock ev \<and> dump_file ev3 = dump_file ev \<and> daemon_pid_file ev3 = daemon_pid_file ev"
proof -
  let ?args = "[''PATH='' @ caller_path ev, ''PMR_HOME='' @ home ev, ''USER='' @ whoami ev, exe, ''startup'']"
  define ev2 where "ev2 = left(''PATH'' \<mapsto> caller_path ev, ''PMR_HOME'' \<mapsto> home ev, ''USER'' \<mapsto> whoami ev)"
  define unit where "unit = unit_text (whoami ev) (home ev) (caller_path ev) exe"
  define ev3 where "ev3 = base(''PATH'' \<mapsto> caller_path ev, ''PMR_HOME'' \<mapsto> home ev)"
  have first: "\<exists>msg. startup_actions ev user_dir exe False False True = [UA_print msg, UA_run (''sudo'' # ''env'' # ?args)]"
    by (simp add: startup_actions_def sudo_self_def caller_path_def)
  have args: "env_args left ?args = (ev2, [exe, ''startup''])"
    using assms(5) by (simp add: assign_def ev2_def)
  have who: "whoami ev2 = whoami ev" using assms(1) unfolding whoami_def [of ev2] by (simp add: ev2_def Let_def)
  have "effective_home ev2 user_dir user = home ev" for user
    by (simp add: effective_home_def ev2_def Let_def home_nonempty)
  then have "render_unit ev2 user_dir exe = unit" by (simp add: render_unit_def who unit_def) (simp add: ev2_def)
  then have second: "take 3 (startup_actions ev2 user_dir exe False True tty)
      = [UA_write (unit_path ev) unit, UA_run [''systemctl'', ''daemon-reload''], UA_run [''systemctl'', ''enable'', service_name ev]]"
    by (simp add: startup_actions_def unit_path_def service_name_def who numeral_3_eq_3)
  have "daemon_pid_file ev = home ev @ ''/pmr.pid''"
    using assms(2) home_nonempty [of ev] by (simp add: daemon_pid_file_def path_join_def starts_with_def)
  then have lines: "{''User='' @ whoami ev, ''PIDFile='' @ daemon_pid_file ev, ''ExecStart='' @ exe @ '' resurrect''} \<subseteq> set unit"
    by (simp add: unit_def unit_text_def)
  have env: "unit_env unit base = Some ev3"
    using assms(3,4) by (simp add: unit_def unit_text_def starts_with_def Let_def plain_append plain_def assign_def ev3_def)
  have home: "home ev3 = home ev" by (rule home_of_unit) (simp add: ev3_def)
  have "ev3 ''PATH'' = Some (caller_path ev)" "rpc_sock ev3 = rpc_sock ev" "dump_file ev3 = dump_file ev" "daemon_pid_file ev3 = daemon_pid_file ev"
    by (simp_all add: rpc_sock_def dump_file_def daemon_pid_file_def home) (simp add: ev3_def)
  with first args second lines env show ?thesis by blast
qed

definition sample_caller :: env_vars where
  "sample_caller = [''USER'' \<mapsto> ''ann'', ''HOME'' \<mapsto> ''/home/ann'', ''PATH'' \<mapsto> ''/bin'']"

lemma unit_runs_the_callers_daemon_witness:
  "\<exists>unit rest. startup_actions ([''SUDO_USER'' \<mapsto> ''ann'', ''PATH'' \<mapsto> ''/bin'', ''PMR_HOME'' \<mapsto> ''/home/ann/.pmr'', ''USER'' \<mapsto> ''ann''])
      (\<lambda>_. None) ''/usr/bin/pmr'' False True True = UA_write ''/etc/systemd/system/pmr-ann.service'' unit # rest
    \<and> ''PIDFile=/home/ann/.pmr/pmr.pid'' \<in> set unit"
proof -
  have w: "whoami sample_caller = ''ann''" by (simp add: whoami_def sample_caller_def)
  have h: "home sample_caller = ''/home/ann/.pmr''" by (simp add: home_def sample_caller_def path_join_def starts_with_def)
  have p: "daemon_pid_file sample_caller = ''/home/ann/.pmr/pmr.pid''" by (simp add: daemon_pid_file_def h path_join_def starts_with_def)
  have c: "caller_path sample_caller = ''/bin''" by (simp add: caller_path_def sample_caller_def)
  have ok: "whoami sample_caller \<noteq> ''root''" "last (home sample_caller) \<noteq> CHR ''/''" "plain (home sample_caller)"
      "plain (caller_path sample_caller)" "CHR ''='' \<notin> set ''/usr/bin/pmr''"
    by (simp_all add: w h c plain_def)
  obtain msg args ev2 unit ev3 where u:
      "startup_actions sample_caller (\<lambda>_. None) ''/usr/bin/pmr'' False False True = [UA_print msg, UA_run (''sudo'' # ''env'' # args)]"
      "env_args [''SUDO_USER'' \<mapsto> ''ann''] args = (ev2, [''/usr/bin/pmr'', ''startup''])"
      "take 3 (startup_actions ev2 (\<lambda>_. None) ''/usr/bin/pmr'' False True True)
        = [UA_write (unit_path sample_caller) unit, UA_run [''systemctl'', ''daemon-reload''], UA_run [''systemctl'', ''enable'', service_name sample_caller]]"
      "''PIDFile='' @ daemon_pid_file sample_caller \<in> set unit"
    using unit_runs_the_callers_daemon [OF ok, of "\<lambda>_. None" "[''SUDO_USER'' \<mapsto> ''ann'']" True Map.empty] by auto
  have "args = [''PATH=/bin'', ''PMR_HOME=/home/ann/.pmr'', ''USER=ann'', ''/usr/bin/pmr'', ''startup'']"
    using u(1) by (simp add: startup_actions_def sudo_self_def h w) (simp add: sample_caller_def)
  with u(2) have "ev2 = [''SUDO_USER'' \<mapsto> ''ann'', ''PATH'' \<mapsto> ''/bin'', ''PMR_HOME'' \<mapsto> ''/home/ann/.pmr'', ''USER'' \<mapsto> ''ann'']"
    by (simp add: assign_def)
  with u(3,4) show ?thesis
    by (cases "startup_actions ev2 (\<lambda>_. None) ''/usr/bin/pmr'' False True True") (auto simp: unit_path_def w p)
qed

end
