(* ===== verification/Command.thy ===== *)
theory Command
  imports Cli
begin

text \<open>
  Running a command: \<open>dispatch\<close> of \<open>src/cli/commands.rs\<close> with its connection, and \<open>main\<close>.  The daemon
  behind the connection is a state that answers requests; \<open>linked\<close> is the daemon of \<open>Rpc\<close>.  The
  commands \<open>logs\<close>, \<open>monit\<close> (theories \<open>Follow\<close> and \<open>Monit\<close>) and \<open>completions\<close> are an argument.
\<close>

section \<open>Texts\<close>

text \<open>What \<open>pmr init\<close> writes, and the welcome banner, line by line.\<close>

definition sample_ecosystem :: "string list" where
  "sample_ecosystem =
     [''# pmr ecosystem file '' @ em_dash @ '' start with: pmr start ecosystem.yaml'',
      ''apps:'',
      ''  - script: ./app.js'',
      ''    name: app'',
      ''    instances: 1'',
      ''    # runtime: bun               # bun|node|deno|python '' @ em_dash @ '' binary auto-resolved'',
      ''    # interpreter: node          # or auto-detected from extension'',
      ''    # args: [\"--port\", \"3000\"]'',
      ''    # cwd: /srv/app'',
      ''    env:'',
      ''      NODE_ENV: development'',
      ''    env_production:'',
      ''      NODE_ENV: production'',
      ''    # autorestart: true'',
      ''    # max_restarts: 16'',
      ''    # min_uptime: 1000           # ms'',
      ''    # restart_delay: 0           # ms'',
      ''    # exp_backoff_restart_delay: 100'',
      ''    # max_memory_restart: 300M   # use string form in CLI; bytes in file'',
      ''    # cron_restart: \"0 3 * * *\"'',
      ''    # watch: false'',
      ''    # ignore_watch: [\"node_modules\", \".git\"]'',
      ''    # kill_timeout: 1600         # ms before SIGKILL'',
      ''    # stop_exit_codes: [0]'',
      ''    # max_log_size: 10485760     # rotate log at 10MB (bytes; CLI accepts 10M)'',
      ''    # health_check:              # restart when online-but-hung (not in pm2)'',
      ''    #   command: \"curl -fsS http://localhost:3000/health\"'',
      ''    #   interval: 30000          # ms'',
      ''    #   timeout: 5000            # ms'',
      ''    #   max_fails: 3'']"

definition ansi :: "string \<Rightarrow> string" where
  "ansi code = CHR 0x1B # ''['' @ code @ ''m''"

definition first_run_banner :: "string \<Rightarrow> bool \<Rightarrow> bool \<Rightarrow> string list" where
  "first_run_banner version home_exists terminal =
     (if home_exists \<or> \<not> terminal then []
      else
     [ansi ''36'' @ ansi ''1'',
      ''        ____  ____ ___  _____'',
      ''       / __ '' @ [CHR 0x5C] @ ''/ __ `__ '' @ [CHR 0x5C] @ ''/ ___/'',
      ''      / /_/ / / / / / / /'',
      ''     / .___/_/ /_/ /_/_/'',
      ''    /_/'' @ ansi ''0'',
      ''    '' @ ansi ''1'' @ ''pmr v'' @ version @ ansi ''0'' @ '' '' @ em_dash @ '' efficient, fast, production-grade process manager'',
      ''    '' @ ansi ''2'' @ ''the pm2 workflow in one small binary: ~14x less memory, no Node.js needed'' @ ansi ''0'',
      [],
      ''      pmr start app.js         start an app (auto-restart on crash)'',
      ''      pmr ls                   process table'',
      ''      pmr logs                 tail + live stream'',
      ''      pmr save && pmr startup  survive reboots'',
      [],
      ''    '' @ ansi ''2'' @ ''docs: https://github.com/zdanysfa/pmr'' @ ansi ''0'',
      []])"

section \<open>Commands\<close>

datatype effect = EF_out cmd_out | EF_unit unit_action | EF_wrote string "string list"

type_synonym 's outcome = "(effect list \<times> cmd_err option) \<times> 's"

record 's front =
  fr_connect :: "'s \<Rightarrow> (client_err, unit) result \<times> 's"
  fr_try :: "'s \<Rightarrow> (client_err, unit) result \<times> 's"
  fr_answer :: "rpc_method \<Rightarrow> 's \<Rightarrow> wire \<times> 's"
  fr_start :: start_world
  fr_vars :: env_vars
  fr_user_dir :: "string \<Rightarrow> string option"
  fr_exe :: "string option"
  fr_root :: bool
  fr_terminal :: bool
  fr_ok :: "unit_action \<Rightarrow> bool"
  fr_writes :: "string \<Rightarrow> bool"
  fr_version :: string
  fr_rest :: "cmd \<Rightarrow> 's \<Rightarrow> 's outcome"

definition ask :: "'s front \<Rightarrow> rpc_method \<Rightarrow> (rpc_value option \<Rightarrow> 'a option) \<Rightarrow> 's \<Rightarrow> (client_err, 'a) result \<times> 's" where
  "ask f m shape s = (case fr_answer f m s of (w, s') \<Rightarrow> (call_result shape w, s'))"

definition failed :: "cmd_err \<Rightarrow> 's \<Rightarrow> 's outcome" where
  "failed e s = (([], Some e), s)"

definition printed :: "cmd_out \<Rightarrow> 's \<Rightarrow> 's outcome" where
  "printed out s = (([EF_out out], None), s)"

definition show_table :: "(client_err, snapshot list) result \<times> 's \<Rightarrow> 's outcome" where
  "show_table rs = (case rs of (Inl e, s) \<Rightarrow> failed (CX_client e) s | (Inr ps, s) \<Rightarrow> printed (Out_table ps) s)"

text \<open>Connect, send one request, show what comes back.\<close>

definition one_request :: "'s front \<Rightarrow> cmd \<Rightarrow> rpc_method \<Rightarrow> 's \<Rightarrow> 's outcome" where
  "one_request f c m s =
     (case fr_connect f s of
        (Inl e, s1) \<Rightarrow> failed (CX_client e) s1
      | (Inr _, s1) \<Rightarrow>
          (case ask f m (cmd_output c) s1 of
             (Inl e, s2) \<Rightarrow> failed (CX_client e) s2
           | (Inr (Inl e), s2) \<Rightarrow> failed e s2
           | (Inr (Inr out), s2) \<Rightarrow> printed out s2))"

definition ping_run :: "'s front \<Rightarrow> 's \<Rightarrow> 's outcome" where
  "ping_run f s =
     (case fr_connect f s of
        (Inl e, s1) \<Rightarrow> failed (CX_client e) s1
      | (Inr _, s1) \<Rightarrow>
          (case ask f M_ping shape_ping s1 of
             (Inl e, s2) \<Rightarrow> failed (CX_client e) s2
           | (Inr (v, pid), s2) \<Rightarrow>
               printed (Out_lines [''pong '' @ em_dash @ '' daemon v'' @ v @ '' (pid '' @ show_word pid @ '')'']) s2))"

definition version_run :: "'s front \<Rightarrow> 's \<Rightarrow> 's outcome" where
  "version_run f s =
     (let mine = ''pmr '' @ fr_version f @ '' (client)''
      in case fr_try f s of
           (Inl e, s1) \<Rightarrow> printed (Out_lines [mine, ''daemon not running'']) s1
         | (Inr _, s1) \<Rightarrow>
             (case ask f M_ping shape_ping s1 of
                (Inl e, s2) \<Rightarrow> (([EF_out (Out_lines [mine])], Some (CX_client e)), s2)
              | (Inr (v, pid), s2) \<Rightarrow>
                  printed (Out_lines [mine, ''pmr '' @ v @ '' (daemon, pid '' @ show_word pid @ '')'']) s2))"

text \<open>\<open>kill_daemon\<close> reads on until the stream ends, which does not change the answer.\<close>

definition kill_run :: "'s front \<Rightarrow> 's \<Rightarrow> 's outcome" where
  "kill_run f s =
     (case fr_try f s of
        (Inl e, s1) \<Rightarrow> printed (Out_lines [''[pmr] daemon was not running'']) s1
      | (Inr _, s1) \<Rightarrow>
          (case ask f M_kill shape_any s1 of
             (Inl e, s2) \<Rightarrow> failed (CX_client e) s2
           | (Inr _, s2) \<Rightarrow> printed (Out_lines [''[pmr] daemon stopped'']) s2))"

text \<open>\<open>pmr start\<close> connects before it reads anything.  A name without a file is a process to restart, if
  \<open>describe\<close> finds one; its error is not reported.\<close>

definition start_run :: "'s front \<Rightarrow> start_args \<Rightarrow> 's \<Rightarrow> 's outcome" where
  "start_run f a s =
     (case fr_connect f s of
        (Inl e, s1) \<Rightarrow> failed (CX_client e) s1
      | (Inr _, s1) \<Rightarrow>
          (case start_plan_of (fr_start f) a of
             SP_fail e \<Rightarrow> failed (CX_app e) s1
           | SP_start apps \<Rightarrow>
               (case start_many (sw_cron_ok (fr_start f)) apps of
                  Inl e \<Rightarrow> failed (CX_client e) s1
                | Inr m \<Rightarrow> show_table (ask f m shape_snapshots s1))
           | SP_existing t \<Rightarrow>
               (case ask f (M_describe (target_parse t)) shape_snapshots s1 of
                  (Inr (p # ps), s2) \<Rightarrow> show_table (ask f (M_restart (target_parse t)) shape_snapshots s2)
                | (_, s2) \<Rightarrow> failed (CX_no_file t) s2)))"

definition init_run :: "'s front \<Rightarrow> 's \<Rightarrow> 's outcome" where
  "init_run f s =
     (if sw_exists (fr_start f) ''ecosystem.yaml'' then failed (CX_exists ''ecosystem.yaml'') s
      else if \<not> fr_writes f ''ecosystem.yaml'' then failed (CX_write ''ecosystem.yaml'') s
      else (([EF_wrote ''ecosystem.yaml'' sample_ecosystem, EF_out (Out_lines [''[pmr] wrote ecosystem.yaml''])], None), s))"

definition unit_run :: "unit_action list \<times> cmd_err option \<Rightarrow> 's \<Rightarrow> 's outcome" where
  "unit_run r s = (case r of (as, e) \<Rightarrow> ((map EF_unit as, e), s))"

definition cmd_run :: "'s front \<Rightarrow> cmd \<Rightarrow> 's \<Rightarrow> 's outcome" where
  "cmd_run f c s =
     (case c of
        Cmd_init \<Rightarrow> init_run f s
      | Cmd_startup print_only \<Rightarrow>
          unit_run (startup (fr_vars f) (fr_user_dir f) (fr_exe f) print_only (fr_root f) (fr_terminal f) (fr_ok f)) s
      | Cmd_unstartup \<Rightarrow>
          unit_run (unstartup (fr_vars f) (sw_exists (fr_start f)) (fr_exe f) (fr_root f) (fr_terminal f) (fr_ok f)) s
      | Cmd_ping \<Rightarrow> ping_run f s
      | Cmd_version \<Rightarrow> version_run f s
      | Cmd_kill \<Rightarrow> kill_run f s
      | Cmd_start a \<Rightarrow> start_run f a s
      | _ \<Rightarrow> (case cmd_method c of Some m \<Rightarrow> one_request f c m s | None \<Rightarrow> fr_rest f c s))"

text \<open>\<open>main\<close>: the daemon or a command; an error goes to the standard error and makes the exit code 1.\<close>

definition main_run :: "'s front \<Rightarrow> ('s \<Rightarrow> 's outcome) \<Rightarrow> cmd \<Rightarrow> 's \<Rightarrow> (effect list \<times> cmd_err option \<times> nat) \<times> 's" where
  "main_run f daemon c s =
     (case (if c = Cmd_daemon then daemon s else cmd_run f c s) of
        ((effs, None), s') \<Rightarrow> ((effs, None, 0), s')
      | ((effs, Some e), s') \<Rightarrow> ((effs, Some e, 1), s'))"

section \<open>The daemon behind the connection\<close>

text \<open>A daemon that runs and answers with \<open>dispatch\<close>; every connection pings it first.\<close>

definition linked :: "rpc_env \<Rightarrow> ctx front \<Rightarrow> ctx front" where
  "linked e f =
     f\<lparr>fr_connect := \<lambda>s. (case dispatch e M_ping s of ((r, s'), _) \<Rightarrow>
           (try_connect True (W_response (reply 1 r)) (rpc_sock (fr_vars f)), s')),
       fr_try := \<lambda>s. (case dispatch e M_ping s of ((r, s'), _) \<Rightarrow>
           (try_connect True (W_response (reply 1 r)) (rpc_sock (fr_vars f)), s')),
       fr_answer := \<lambda>m s. (case dispatch e m s of ((r, s'), _) \<Rightarrow> (W_response (reply 2 r), s'))\<rparr>"

text \<open>The type of the value each method answers with.\<close>

definition value_fits :: "rpc_method \<Rightarrow> rpc_value \<Rightarrow> bool" where
  "value_fits m v =
     (case m of
        M_ping \<Rightarrow> shape_ping (Some v) \<noteq> None
      | M_version \<Rightarrow> True
      | M_send_signal _ _ \<Rightarrow> shape_sent (Some v) \<noteq> None
      | M_flush _ \<Rightarrow> True
      | M_reload_logs \<Rightarrow> True
      | M_save \<Rightarrow> shape_path (Some v) \<noteq> None
      | M_kill \<Rightarrow> True
      | M_subscribe _ _ \<Rightarrow> True
      | _ \<Rightarrow> shape_snapshots (Some v) \<noteq> None)"

lemma on_target_fits:
  "on_target c tg (\<lambda>ids. shown ids b (k ids)) = (Inr v, c') \<Longrightarrow> \<exists>y. shape_snapshots (Some v) = Some y"
  by (auto simp: on_target_def shown_def split: prod.splits sum.splits)

lemma dispatch_fits: "dispatch e m c = ((Inr v, c'), sg) \<Longrightarrow> value_fits m v"
proof (cases m)
  case (M_delete tg)
  assume "dispatch e m c = ((Inr v, c'), sg)"
  with M_delete show ?thesis
    by (auto simp: dispatch_def value_fits_def on_target_def split: sum.splits prod.splits)
qed (auto simp: dispatch_def value_fits_def Let_def split: sum.splits prod.splits option.splits
       dest!: on_target_fits)

definition names_one :: "cmd \<Rightarrow> bool" where
  "names_one c = (case c of Cmd_describe _ \<Rightarrow> True | Cmd_env _ \<Rightarrow> True | Cmd_id _ \<Rightarrow> True | _ \<Rightarrow> False)"

lemma shape_snapshots_Some: "shape_snapshots v = Some ps \<longleftrightarrow> v = Some (V_snapshots ps)"
  by (cases v rule: shape_snapshots.cases) auto

lemma cmd_output_fits:
  assumes "cmd_method c = Some m" "c \<notin> {Cmd_ping, Cmd_version, Cmd_kill}" "value_fits m v"
  shows "\<exists>r. cmd_output c (Some v) = Some r \<and>
    (if names_one c \<and> v = V_snapshots [] then \<exists>t. r = Inl (CX_no_process t) else \<exists>out. r = Inr out)"
proof (cases "names_one c")
  case True
  then obtain ps where "v = V_snapshots ps"
    using assms(1,3) by (cases c) (auto simp: names_one_def value_fits_def shape_snapshots_Some)
  with True show ?thesis by (cases c; cases ps) (auto simp: names_one_def some_found_def)
next
  case False
  show ?thesis
  proof (cases c)
    case (Cmd_pid t)
    with assms show ?thesis by (cases t) (auto simp: value_fits_def names_one_def shape_snapshots_Some)
  qed (use assms False in \<open>auto simp: value_fits_def names_one_def shape_snapshots_Some shape_any_def\<close>)
qed

lemma linked_connect [simp]:
  "fr_connect (linked e f) s = (Inr (), s)" "fr_try (linked e f) s = (Inr (), s)"
  by (simp_all add: linked_def dispatch_def try_connect_def check_version_def call_result_def reply_value_def reply_def)

lemma ask_linked:
  assumes "dispatch e m s = ((r, s'), sg)"
  shows "ask (linked e f) m shape s =
    ((case r of Inl er \<Rightarrow> Inl (CE_remote er)
      | Inr v \<Rightarrow> (case shape (Some v) of Some x \<Rightarrow> Inr x | None \<Rightarrow> Inl CE_shape)), s')"
  using assms by (simp add: ask_def linked_def call_result_def reply_value_reply remote_def split: sum.split)

section \<open>Properties\<close>

text \<open>C15: A command that sends one request does to the daemon what \<open>dispatch\<close> does for that request, and
  understands every answer: it fails with the daemon's error exactly when \<open>dispatch\<close> fails, never
  because a reply has an unexpected shape, and otherwise succeeds, except that \<open>describe\<close>, \<open>env\<close> and
  \<open>id\<close> fail when no process is shown.\<close>
theorem commands_run_their_requests:
  assumes "cmd_method c = Some m" "dispatch e m s = ((r, s'), sg)"
  shows "\<exists>effs err. cmd_run (linked e f) c s = ((effs, err), s') \<and>
    (case r of
       Inl er \<Rightarrow> err = Some (CX_client (CE_remote er))
     | Inr v \<Rightarrow> if names_one c \<and> v = V_snapshots [] then \<exists>t. err = Some (CX_no_process t) else err = None)"
proof (cases "c \<in> {Cmd_ping, Cmd_version, Cmd_kill}")
  case True
  then have "\<exists>v. r = Inr v \<and> (m = M_ping \<longrightarrow> (\<exists>n p. v = V_ping n p))" using assms by (auto simp: dispatch_def)
  then obtain v where v: "r = Inr v" "m = M_ping \<longrightarrow> (\<exists>n p. v = V_ping n p)" by blast
  have d: "dispatch e m s = ((Inr v, s'), sg)" using assms(2) v(1) by simp
  show ?thesis
    using True assms(1) v ask_linked [OF d, of f shape_ping] ask_linked [OF d, of f shape_any]
    by (auto simp: cmd_run_def ping_run_def version_run_def kill_run_def printed_def names_one_def shape_any_def)
next
  case False
  have run: "cmd_run (linked e f) c s = one_request (linked e f) c m s"
    using False assms(1) by (cases c) (auto simp: cmd_run_def)
  show ?thesis
  proof (cases r)
    case (Inl er)
    then show ?thesis
      by (simp add: run one_request_def ask_linked [OF assms(2)] failed_def)
  next
    case (Inr v)
    have "value_fits m v" using assms(2) Inr by (auto dest: dispatch_fits)
    from cmd_output_fits [OF assms(1) False this] Inr show ?thesis
      by (auto simp: run one_request_def ask_linked [OF assms(2)] failed_def printed_def split: if_splits)
  qed
qed

text \<open>A start that is rejected, by the configuration file, an option or the validation, sends nothing.\<close>
lemma rejected_start_sends_nothing:
  assumes "start_plan_of (fr_start f) a = SP_fail er \<or>
    (start_plan_of (fr_start f) a = SP_start apps \<and> first_invalid (sw_cron_ok (fr_start f)) apps = Some er)"
  shows "\<exists>err. cmd_run (linked e f) (Cmd_start a) s = (([], Some err), s)"
proof -
  have "fr_start (linked e f) = fr_start f" by (simp add: linked_def)
  then show ?thesis
    using assms by (auto simp: cmd_run_def start_run_def start_many_def failed_def)
qed

text \<open>The exit code tells whether the command failed.\<close>
lemma exit_code_iff: "snd (snd (fst (main_run f daemon c s))) = 0 \<longleftrightarrow> fst (snd (fst (main_run f daemon c s))) = None"
  by (simp add: main_run_def split: prod.split option.split)

definition sample_front :: "ctx front" where
  "sample_front =
     \<lparr> fr_connect = (\<lambda>s. (Inl CE_closed, s)), fr_try = (\<lambda>s. (Inl CE_closed, s)), fr_answer = (\<lambda>m s. (W_eof, s)),
       fr_start = \<lparr>sw_exists = (\<lambda>_. False), sw_read = (\<lambda>_. None), sw_is_array = (\<lambda>_. False), sw_canonical = (\<lambda>_. None),
         sw_parsers = sample_parsers, sw_cron_ok = (\<lambda>_. True), sw_show_json = (\<lambda>_. [])\<rparr>,
       fr_vars = (\<lambda>_. None), fr_user_dir = (\<lambda>_. None), fr_exe = None, fr_root = False, fr_terminal = False,
       fr_ok = (\<lambda>_. True), fr_writes = (\<lambda>_. True), fr_version = ''0.1'', fr_rest = (\<lambda>c s. (([], None), s)) \<rparr>"

lemma commands_run_their_requests_witness:
  "\<exists>effs. cmd_run (linked sample_rpc sample_front) (Cmd_stop (show_word (9 :: u32))) ctx_default =
     ((effs, Some (CX_client (CE_remote (E_no_process_ids [9])))), ctx_default)"
proof -
  have t: "target_parse (show_word (9 :: u32)) = Ids [9]" by (rule target_parse_id)
  have r: "resolve ctx_default (Ids [9]) = Inl (E_no_process_ids [9])" by code_simp
  have "dispatch sample_rpc (M_stop (Ids [9])) ctx_default = ((Inl (E_no_process_ids [9]), ctx_default), [])"
    by (simp add: dispatch_def on_target_def r)
  from commands_run_their_requests [OF _ this, of "Cmd_stop (show_word (9 :: u32))" sample_front]
  have "\<exists>effs err. cmd_run (linked sample_rpc sample_front) (Cmd_stop (show_word (9 :: u32))) ctx_default = ((effs, err), ctx_default) \<and>
      err = Some (CX_client (CE_remote (E_no_process_ids [9])))"
    by (simp only: cmd_method.simps t sum.case simp_thms)
  then show ?thesis by blast
qed

end
