(* ===== verification/Conformance.thy ===== *)
theory Conformance
  imports Restart Tail Show Utf8
begin

text \<open>
  The unit tests of the repository, run on the model: each \<open>#[test]\<close> of
  \<open>src/daemon/supervisor.rs\<close>, \<open>src/daemon/state.rs\<close>, \<open>src/config.rs\<close>, \<open>src/ipc.rs\<close>,
  \<open>src/paths.rs\<close>, \<open>src/cli/logs.rs\<close> and \<open>src/cli/table.rs\<close> whose assertions are about code under
  \<open>src/\<close> is the predicate its assertions state, and the model satisfies it.  Tests of the serde
  derives and of the YAML and TOML parsers are about crates; what the remaining ones obtain from a
  parser or from the machine they run on is an argument, and they pass whatever it is.
\<close>

section \<open>Restart decisions: \<open>src/daemon/supervisor.rs\<close>\<close>

definition base_facts :: exit_facts where
  "base_facts =
     \<lparr> f_status = Online, f_autorestart = True, f_exit_code = Some 1, f_stop_exit_codes = [],
       f_min_uptime_ms = 1000, f_max_restarts = 16, f_unstable_restarts = 0,
       f_created_at_ms = 0, f_online_since_ms = 100000, f_now_ms = 200000,
       f_restart_delay_ms = 0, f_backoff_base_ms = 0, f_prev_restart_delay_ms = 0 \<rparr>"

definition test_restarts_on_crash :: bool where
  "test_restarts_on_crash \<longleftrightarrow> decide_restart base_facts = RdRestart 0 0 0"

definition test_no_restart_when_stopped_or_autorestart_off :: bool where
  "test_no_restart_when_stopped_or_autorestart_off \<longleftrightarrow>
     decide_restart (base_facts\<lparr>f_status := Stopping\<rparr>) = RdStop
     \<and> decide_restart (base_facts\<lparr>f_autorestart := False\<rparr>) = RdStop"

definition test_stop_exit_codes_respected :: bool where
  "test_stop_exit_codes_respected \<longleftrightarrow>
     (let f = base_facts\<lparr>f_stop_exit_codes := [0, 42], f_exit_code := Some 42\<rparr>
      in decide_restart f = RdStop
         \<and> (case decide_restart (f\<lparr>f_exit_code := Some 1\<rparr>) of RdRestart _ _ _ \<Rightarrow> True | _ \<Rightarrow> False))"

definition test_unstable_counting_and_give_up :: bool where
  "test_unstable_counting_and_give_up \<longleftrightarrow>
     (let f = base_facts\<lparr>f_created_at_ms := 0, f_online_since_ms := 100, f_now_ms := 500\<rparr>
      in (case decide_restart f of RdRestart _ u _ \<Rightarrow> u = 1 | _ \<Rightarrow> False)
         \<and> decide_restart (f\<lparr>f_unstable_restarts := 15\<rparr>) = RdGiveUp)"

definition test_stable_run_does_not_count_unstable :: bool where
  "test_stable_run_does_not_count_unstable \<longleftrightarrow>
     (case decide_restart (base_facts\<lparr>f_unstable_restarts := 10\<rparr>) of RdRestart _ u _ \<Rightarrow> u = 10 | _ \<Rightarrow> False)"

text \<open>The loop of \<open>backoff_sequence\<close>; its \<open>panic!\<close> is \<open>None\<close>.\<close>

fun backoff_delays :: "nat \<Rightarrow> exit_facts \<Rightarrow> u64 \<Rightarrow> u64 list option" where
  "backoff_delays 0 f prev = Some []"
| "backoff_delays (Suc n) f prev =
     (case decide_restart (f\<lparr>f_prev_restart_delay_ms := prev\<rparr>) of
        RdRestart d _ p \<Rightarrow> map_option ((#) d) (backoff_delays n f p)
      | _ \<Rightarrow> None)"

definition test_backoff_sequence :: bool where
  "test_backoff_sequence \<longleftrightarrow>
     (case backoff_delays 15 (base_facts\<lparr>f_backoff_base_ms := 100\<rparr>) 0 of
        Some ds \<Rightarrow> take 3 ds = [100, 150, 225] \<and> last ds = backoff_cap_ms
      | None \<Rightarrow> False)"

definition test_fixed_delay :: bool where
  "test_fixed_delay \<longleftrightarrow>
     (case decide_restart (base_facts\<lparr>f_restart_delay_ms := 2000\<rparr>) of RdRestart d _ _ \<Rightarrow> d = 2000 | _ \<Rightarrow> False)"

lemmas restart_evaluation =
  decide_restart_def base_facts_def exit_is_final_def exit_is_unstable_def i64_less_def
  saturating_mul_u64_def backoff_next_def backoff_cap_ms_def

lemma restart_tests_pass:
  "test_restarts_on_crash" "test_no_restart_when_stopped_or_autorestart_off"
  "test_stop_exit_codes_respected" "test_stable_run_does_not_count_unstable" "test_fixed_delay"
  by (simp_all add: restart_evaluation test_restarts_on_crash_def
      test_no_restart_when_stopped_or_autorestart_off_def test_stop_exit_codes_respected_def
      test_stable_run_does_not_count_unstable_def test_fixed_delay_def Let_def)

lemma unstable_test_passes: "test_unstable_counting_and_give_up"
  by (simp add: restart_evaluation test_unstable_counting_and_give_up_def word_le_nat_alt)

lemma backoff_delays_numeral [simp]:
  "backoff_delays (numeral n) f prev =
     (case decide_restart (f\<lparr>f_prev_restart_delay_ms := prev\<rparr>) of
        RdRestart d _ p \<Rightarrow> map_option ((#) d) (backoff_delays (pred_numeral n) f p)
      | _ \<Rightarrow> None)"
  by (simp add: numeral_eq_Suc)

lemma backoff_test_passes: "test_backoff_sequence"
  by (simp add: restart_evaluation test_backoff_sequence_def min_def)

section \<open>The process table: \<open>src/daemon/state.rs\<close>\<close>

definition test_id_alloc_resets_when_empty :: "env_vars \<Rightarrow> i64 \<Rightarrow> bool" where
  "test_id_alloc_resets_when_empty ev now \<longleftrightarrow>
     (case alloc_id table_default of (a, t1) \<Rightarrow>
        let t2 = t1\<lparr>procs := hm_put a (proc_new ev now a 0 (app_new ''a.sh'')) (procs t1)\<rparr>
        in (case alloc_id t2 of (b, t3) \<Rightarrow>
          let t4 = t3\<lparr>procs := hm_put b (proc_new ev now b 0 (app_new ''b.sh'')) (procs t3)\<rparr>;
              t5 = t4\<lparr>procs := []\<rparr>
          in a = 0 \<and> b = 1 \<and> fst (alloc_id t5) = 0))"

lemma table_test_passes: "test_id_alloc_resets_when_empty ev now"
  by (simp add: test_id_alloc_resets_when_empty_def alloc_id_def table_default_def hm_put_def hm_rows_def)

section \<open>Configurations: \<open>src/config.rs\<close>\<close>

text \<open>The environment and the files of the machine are arguments.\<close>

definition test_minimal_defaults :: "env_vars \<Rightarrow> (string \<Rightarrow> bool) \<Rightarrow> bool" where
  "test_minimal_defaults ev is_file \<longleftrightarrow>
     (let cfg = app_new ''bot.js''
      in effective_name cfg = ''bot'' \<and> ac_instances cfg = 1 \<and> ac_max_restarts cfg = 16
         \<and> ac_min_uptime cfg = 1000 \<and> ac_kill_timeout cfg = 1600 \<and> ac_kill_signal cfg = ''SIGINT''
         \<and> ac_autorestart cfg \<and> ac_treekill cfg
         \<and> (case effective_interpreter ev is_file cfg of Some i \<Rightarrow> ends_with i ''node'' | None \<Rightarrow> False))"

definition test_interpreter_detect :: "env_vars \<Rightarrow> (string \<Rightarrow> bool) \<Rightarrow> bool" where
  "test_interpreter_detect ev is_file \<longleftrightarrow>
     detect_interpreter ''a.py'' = Some ''python3'' \<and> detect_interpreter ''a.sh'' = Some ''bash''
     \<and> detect_interpreter ''a.rb'' = Some ''ruby'' \<and> detect_interpreter ''a.ts'' = Some ''bun''
     \<and> detect_interpreter ''mybinary'' = None
     \<and> effective_interpreter ev is_file (app_with_interpreter (app_new ''script.py'') ''none'') = None"

definition test_runtime_field :: "(string \<Rightarrow> bool) \<Rightarrow> env_vars \<Rightarrow> (string \<Rightarrow> bool) \<Rightarrow> bool" where
  "test_runtime_field cron_ok ev is_file \<longleftrightarrow>
     (case effective_interpreter ev is_file (app_with_runtime (app_new ''main.ts'') ''bun'') of
        Some i \<Rightarrow> ends_with i ''bun'' | None \<Rightarrow> False)
     \<and> effective_interpreter ev is_file (app_with_runtime (app_new ''x'') ''myruntime'') = Some ''myruntime''
     \<and> (case validate cron_ok ((app_with_runtime (app_new ''x'') ''bun'')\<lparr>ac_interpreter := Some ''node''\<rparr>) of
          Inl _ \<Rightarrow> True | Inr _ \<Rightarrow> False)"

lemma found_runtime_ends_with:
  assumes "list_all (\<lambda>p. ends_with p nm) (runtime_candidates ev nm)"
  shows "ends_with (resolve_runtime ev is_file nm) nm"
proof (cases "find is_file (runtime_candidates ev nm)")
  case None
  then show ?thesis by (simp add: resolve_runtime_def ends_with_def)
next
  case (Some p)
  then have "p \<in> set (runtime_candidates ev nm)" by (auto simp: find_Some_iff)
  with assms Some show ?thesis by (simp add: resolve_runtime_def list_all_iff)
qed

lemma ends_with_append [simp]: "ends_with (a @ p) p"
  by (simp add: ends_with_def)

lemma ends_with_self [simp]: "ends_with p p"
  by (simp add: ends_with_def)

lemma runtime_ends_with:
  "ends_with (resolve_runtime ev is_file ''bun'') ''bun''" "ends_with (resolve_runtime ev is_file ''node'') ''node''"
  by (rule found_runtime_ends_with, simp add: runtime_candidates_def ends_with_def)+

lemma runtime_tests_pass: "test_runtime_field cron_ok ev is_file"
  by (simp add: test_runtime_field_def effective_interpreter_def app_with_runtime_def runtime_ends_with
      resolve_runtime_def [of ev is_file "''myruntime''"] runtime_candidates_def validate_def app_new_def bt_rows_def
      default_instances_def split: option.split)

lemma interpreter_tests_pass: "test_interpreter_detect ev is_file"
proof -
  have "detect_interpreter ''a.py'' = Some ''python3''" "detect_interpreter ''a.sh'' = Some ''bash''"
    "detect_interpreter ''a.rb'' = Some ''ruby''" "detect_interpreter ''a.ts'' = Some ''bun''"
    "detect_interpreter ''mybinary'' = None"
    by code_simp+
  then show ?thesis
    by (simp add: test_interpreter_detect_def effective_interpreter_def app_with_interpreter_def app_new_def)
qed

lemma defaults_test_passes: "test_minimal_defaults ev is_file"
proof -
  have "path_file_stem ''bot.js'' = Some ''bot''" "detect_interpreter ''bot.js'' = Some ''node''" by code_simp+
  then show ?thesis
    by (simp add: test_minimal_defaults_def effective_name_def effective_interpreter_def app_new_def
        config_defaults runtime_ends_with)
qed

text \<open>The profile test reads its application with \<open>parse_json\<close>; what the parser and the derived
  deserialiser make of the text is an argument.\<close>

definition test_env_profile_merge :: "(json \<Rightarrow> string) \<Rightarrow> eco_parsers \<Rightarrow> string \<Rightarrow> bool" where
  "test_env_profile_merge json_text ep raw \<longleftrightarrow>
     (case parse_json ep raw of
        Inr (app # _) \<Rightarrow>
          (case apply_env_profile json_text app ''production'' of
             Inr app' \<Rightarrow>
               bt_get (ac_env app') ''NODE_ENV'' = Some ''production'' \<and> bt_get (ac_env app') ''KEEP'' = Some ''1''
               \<and> bt_get (ac_env app') ''EXTRA'' = Some ''2''
               \<and> (case apply_env_profile json_text app' ''staging'' of Inl _ \<Rightarrow> True | Inr _ \<Rightarrow> False)
           | Inl _ \<Rightarrow> False)
      | _ \<Rightarrow> False)"

definition test_reject_unknown_fields :: "(string \<Rightarrow> bool) \<Rightarrow> eco_parsers \<Rightarrow> string \<Rightarrow> bool" where
  "test_reject_unknown_fields cron_ok ep raw \<longleftrightarrow>
     (case parse_json ep raw of
        Inr (app # _) \<Rightarrow> (case validate cron_ok app of Inl (E_exec_mode _) \<Rightarrow> True | _ \<Rightarrow> False)
      | _ \<Rightarrow> False)"

definition test_memory_parse :: bool where
  "test_memory_parse \<longleftrightarrow>
     parse_memory ''50M'' = Inr (50 * 1024 * 1024) \<and> parse_memory ''1G'' = Inr (1024 * 1024 * 1024)
     \<and> parse_memory ''123'' = Inr 123 \<and> (case parse_memory ''abc'' of Inl _ \<Rightarrow> True | Inr _ \<Rightarrow> False)"

text \<open>The values the two texts denote, and the applications they describe.\<close>

definition profile_app :: app_config where
  "profile_app = (app_new ''web.js'')
     \<lparr>ac_env := bt_of_pairs [(''NODE_ENV'', ''dev''), (''KEEP'', ''1'')],
      ac_env_profiles := [(''env_production'', JObject [(''EXTRA'', JString ''2''), (''NODE_ENV'', JString ''production'')])]\<rparr>"

definition cluster_app :: app_config where
  "cluster_app = (app_new ''a.js'')\<lparr>ac_env_profiles := [(''exec_mode'', JString ''cluster'')]\<rparr>"

lemma profile_test_passes:
  assumes "parse_json ep raw = Inr [profile_app]"
  shows "test_env_profile_merge json_text ep raw"
  using assms
  by (simp add: test_env_profile_merge_def apply_env_profile_def profile_app_def bt_get_def bt_of_pairs_def
      List_Lexorder.list_less_def split: list.split)

lemma unknown_field_test_passes:
  assumes "parse_json ep raw = Inr [cluster_app]"
  shows "test_reject_unknown_fields cron_ok ep raw"
  using assms
  by (simp add: test_reject_unknown_fields_def validate_def cluster_app_def app_new_def bt_rows_def default_instances_def)

lemma memory_test_passes: "test_memory_parse"
proof -
  have digits: "digits_val ''50'' = 50" "digits_val ''1'' = 1" "digits_val ''123'' = 123"
    "list_all is_digit ''50''" "list_all is_digit ''1''" "list_all is_digit ''123''"
    by (simp_all add: digits_val_def digit_val_def is_digit_iff)
  then have "parse_memory (''50'' @ ''M'') = Inr (of_nat (50 * 1048576))"
    "parse_memory (''1'' @ ''G'') = Inr (of_nat (1 * 1073741824))" "parse_memory (''123'' @ '''') = Inr (of_nat (123 * 1))"
    using parse_memory_number [of "''50''" "''M''" 1048576] parse_memory_number [of "''1''" "''G''" 1073741824]
      parse_memory_number [of "''123''" "''''" 1]
    by (simp_all add: memory_units_def del: of_nat_mult append.simps)
  moreover have "trim ''abc'' = ''abc''" by (rule trim_plain) (simp_all add: plain_def)
  then have "parse_memory ''abc'' = Inl (E_invalid_memory ''abc'')"
    by (simp add: parse_memory_def memory_suffix_def parse_u64_def parse_uint_None_nondigit [of "CHR ''a''"] is_digit_iff)
  ultimately show ?thesis by (simp add: test_memory_parse_def)
qed

section \<open>Targets, events, names, log tails and tables\<close>

definition test_target_parse :: bool where
  "test_target_parse \<longleftrightarrow>
     target_parse ''all'' = All \<and> target_parse ''3'' = Ids [3] \<and> target_parse ''bot'' = Names [''bot'']"

definition test_event_topics :: bool where
  "test_event_topics \<longleftrightarrow> ev_topic (EvLog 0 ''a'' ''out'' ''hi'' 0) = ''log:out''"

definition test_sanitize :: bool where
  "test_sanitize \<longleftrightarrow> sanitize_name ''my app/v2'' = ''my-app-v2'' \<and> sanitize_name ''bot.js'' = ''bot.js''"

definition test_bytes :: bool where
  "test_bytes \<longleftrightarrow>
     format_bytes 512 = ''512b'' \<and> format_bytes 2048 = ''2.0kb'' \<and> format_bytes (50 * 1024 * 1024) = ''50.0mb''"

lemma digit_chars:
  "digit_char 0 = CHR ''0''" "digit_char (Suc 0) = CHR ''1''" "digit_char 2 = CHR ''2''" "digit_char 3 = CHR ''3''"
  "digit_char 4 = CHR ''4''" "digit_char 5 = CHR ''5''" "digit_char 6 = CHR ''6''" "digit_char 7 = CHR ''7''"
  "digit_char 8 = CHR ''8''" "digit_char 9 = CHR ''9''"
  by (simp_all add: digit_char_def char_of_def bit_iff_odd)

lemma show_one_to_nine [simp]: "d < 10 \<Longrightarrow> show_nat d = [digit_char d]"
  by (simp add: show_nat.simps)

lemma wire_tests_pass: "test_target_parse" "test_event_topics" "test_sanitize"
proof -
  have "show_word (3 :: u32) = ''3''" by (simp add: show_word_def show_nat.simps digit_chars)
  then have "target_parse ''3'' = Ids [3]" "target_parse ''bot'' = Names [''bot'']"
    using target_parse_id [of 3] target_parse_name [of "''bot''" "CHR ''b''"]
    by (simp_all add: is_digit_iff)
  then show "test_target_parse" by (simp add: test_target_parse_def target_parse_all)
  show "test_event_topics" by code_simp
  show "test_sanitize" by code_simp
qed

lemma table_cells_test_passes: "test_bytes"
proof -
  have v: "f64_of_u64 512 = 512" "f64_of_u64 2048 = 2048" "f64_of_u64 52428800 = 52428800"
    by (simp_all add: f64_of_u64_def bit_length.simps)
  have "scale_unit 512 1 3 = (1, 0)" "scale_unit 2048 1 3 = (1024, 1)" "scale_unit 52428800 1 3 = (1048576, 2)"
    by (simp_all add: numeral_3_eq_3)
  moreover have "show_nat 512 = ''512''" "show_fixed1 2048 1024 = ''2.0''" "show_fixed1 52428800 1048576 = ''50.0''"
    by (simp_all add: show_fixed1_def round_div_def show_nat.simps digit_chars)
  ultimately show ?thesis using v by (simp add: test_bytes_def format_bytes_def show_word_def)
qed

definition hundred_lines :: string where
  "hundred_lines = concat (map (\<lambda>i. ''line '' @ show_nat i @ [newline]) [0..<100])"

definition test_tail_reads_last_lines :: bool where
  "test_tail_reads_last_lines \<longleftrightarrow>
     tail_lines hundred_lines 3 = Some [''line 97'', ''line 98'', ''line 99'']
     \<and> (case tail_lines hundred_lines 500 of Some ls \<Rightarrow> length ls = 100 | None \<Rightarrow> False)
     \<and> (case tail_lines (hundred_lines @ [CHR 0xFF, CHR 0xFE] @ '' binary'' @ [newline] @ ''last line'' @ [newline]) 2 of
          Some ls \<Rightarrow> ls ! 1 = ''last line'' \<and> str_contains (ls ! 0) ''binary''
        | None \<Rightarrow> False)"

text \<open>Lines written one by one are the lines read back.\<close>

lemma text_lines_unlines:
  assumes "list_all (\<lambda>l. newline \<notin> set l) ls"
  shows "text_lines (concat (map (\<lambda>l. l @ [newline]) ls)) = ls"
proof -
  have "split_on newline (concat (map (\<lambda>l. l @ [newline]) ls)) = ls @ [[]]"
    using assms by (induction ls) (simp_all add: split_on_append split_on_notin)
  then show ?thesis by (simp add: text_lines_def)
qed

lemma hundred_lines_are: "hundred_lines = concat (map (\<lambda>l. l @ [newline]) (map (\<lambda>i. ''line '' @ show_nat i) [0..<100]))"
  by (simp add: hundred_lines_def comp_def)

lemma line_has_no_newline: "newline \<notin> set (''line '' @ show_nat i)"
  using show_nat_digits [of i] by (auto simp: list_all_iff is_digit_iff newline_def)

lemma hundred_text_lines: "text_lines hundred_lines = map (\<lambda>i. ''line '' @ show_nat i) [0..<100]"
  unfolding hundred_lines_are using line_has_no_newline by (intro text_lines_unlines) (auto simp: list_all_iff)

lemma hundred_lines_written: "concat (map (\<lambda>l. l @ [newline]) (text_lines hundred_lines)) = hundred_lines"
  unfolding hundred_text_lines by (rule hundred_lines_are [symmetric])

text \<open>Text in ASCII is shown as it is.\<close>

lemma utf8_valid_ascii: "list_all (\<lambda>c. byte c < 128) s \<Longrightarrow> utf8_valid s"
proof (induction s)
  case (Cons c s)
  obtain lo hi where r: "second_range (byte (hd (c # s))) = (lo, hi)" by fastforce
  have "char_width (byte c) = 1" using Cons.prems by (simp add: char_width_def)
  then have "utf8_next (c # s) = (True, 1)" unfolding utf8_next_iff [OF r] by simp
  with Cons show ?case by (simp add: utf8_valid_step)
qed simp

lemma shown_line_ascii:
  assumes "list_all (\<lambda>c. byte c < 128 \<and> c \<noteq> CHR 0x0D) l"
  shows "shown_line l = l"
proof -
  have "last l \<noteq> CHR 0x0D" if "l \<noteq> []"
    using assms last_in_set [OF that] unfolding list_all_iff by blast
  then have "strip_cr l = l" by (auto simp: strip_cr_def)
  moreover have "utf8_valid l" using assms by (intro utf8_valid_ascii) (simp add: list_all_iff)
  ultimately show ?thesis by (simp add: shown_line_def lossy_valid)
qed

lemma numbered_line_is_ascii: "list_all (\<lambda>c. byte c < 128 \<and> c \<noteq> CHR 0x0D) (''line '' @ show_nat i)"
  using show_nat_digits [of i] by (auto simp: list_all_iff is_digit_iff byte_def)

lemma shown_hundred: "map shown_line (text_lines hundred_lines) = text_lines hundred_lines"
  using shown_line_ascii [OF numbered_line_is_ascii] by (simp add: hundred_text_lines)

lemma hundred_last: "drop 97 (text_lines hundred_lines) = [''line 97'', ''line 98'', ''line 99'']"
proof -
  have "drop 97 [0..<100] = [97, 98, 99 :: nat]" by (simp add: upt_conv_Cons)
  then show ?thesis by (simp add: hundred_text_lines drop_map show_nat.simps digit_chars)
qed

lemma length_concat_le: "(\<And>x. x \<in> set xs \<Longrightarrow> length (f x) \<le> k) \<Longrightarrow> length (concat (map f xs)) \<le> k * length xs"
  by (induction xs) (auto simp: add_mono)

lemma length_hundred: "length hundred_lines \<le> 800"
proof -
  have "length (show_nat i) \<le> 2" if "i < 100" for i
    using that by (subst show_nat.simps) simp
  then have "length hundred_lines \<le> 8 * length [0..<100::nat]"
    unfolding hundred_lines_def by (intro length_concat_le) simp
  then show ?thesis by simp
qed

lemma tail_test_passes: "test_tail_reads_last_lines"
proof -
  have n: "length (text_lines hundred_lines) = 100" by (simp add: hundred_text_lines)
  let ?more = "[CHR 0xFF, CHR 0xFE] @ '' binary''"
  let ?all = "hundred_lines @ ?more @ [newline] @ ''last line'' @ [newline]"
  have "map shown_line (drop 97 (text_lines hundred_lines)) = drop 97 (text_lines hundred_lines)"
    by (simp only: drop_map [symmetric] shown_hundred)
  then have shown_last: "map shown_line (drop 97 (text_lines hundred_lines)) = [''line 97'', ''line 98'', ''line 99'']"
    by (simp only: hundred_last)
  have three: "tail_lines hundred_lines 3 = Some [''line 97'', ''line 98'', ''line 99'']"
    using tail_lines_last [of 3 hundred_lines] n length_hundred shown_last by simp
  have hundred: "tail_lines hundred_lines 500 = Some (text_lines hundred_lines)"
    using tail_lines_last [of 500 hundred_lines] n length_hundred by (simp add: shown_hundred)
  have lines: "text_lines ?all = text_lines hundred_lines @ [?more, ''last line'']"
  proof -
    have "?all = concat (map (\<lambda>l. l @ [newline]) (text_lines hundred_lines @ [?more, ''last line'']))"
      by (simp add: hundred_lines_written)
    moreover have "list_all (\<lambda>l. newline \<notin> set l) (text_lines hundred_lines @ [?more, ''last line''])"
      using line_has_no_newline by (simp add: hundred_text_lines list_all_iff newline_def)
    ultimately show ?thesis using text_lines_unlines by presburger
  qed
  have "tail_lines ?all 2 = Some [shown_line ?more, shown_line ''last line'']"
    using tail_lines_last [of 2 ?all] length_hundred unfolding lines by (simp add: n)
  moreover have "shown_line ''last line'' = ''last line''" by (rule shown_line_ascii) (simp add: byte_def)
  moreover have "str_contains (shown_line ?more) ''binary''" by code_simp
  ultimately show ?thesis
    using three hundred n by (simp add: test_tail_reads_last_lines_def)
qed

end
