(* ===== verification/Spec2Isabelle.thy ===== *)
theory Spec2Isabelle
  imports Progress Attended Awaited Removal Shutdown Singleton Rotate Background Monit Command Conformance
begin

text \<open>
  pmr is a process manager: a daemon starts programs, restarts them when they crash, captures
  their output and answers a client library and a command line over a Unix socket.  These
  theories model the whole of it that is not input and output, and prove what makes it correct and where it is not.

  \<^bold>\<open>How the program works, and which theory models what\<close> (paths below \<open>src/\<close>).

  \<^item> \<open>config.rs\<close>, \<open>paths.rs\<close>, \<open>ipc.rs\<close>: what an application is (\<open>app_config\<close>), where its files go, and
    what travels on the wire.  Theories \<open>Config\<close>, \<open>Paths\<close>, \<open>Ipc\<close>.  A Rust struct is a \<open>record\<close> with a
    prefix per field (\<open>ac_instances\<close> is \<open>AppConfig::instances\<close>), an enum a \<open>datatype\<close>, an
    \<open>anyhow\<close> error a constructor of \<open>err\<close> (theory \<open>Errs\<close>), a string its UTF-8 bytes (\<open>Rust_Str\<close>).
  \<^item> \<open>daemon/state.rs\<close>: one row per process instance, the table, the context every task shares.
    Theory \<open>State\<close>; the maps and their interface, the locale \<open>kv_map\<close> with its two interpretations,
    are in \<open>Kv\<close>.
  \<^item> \<open>daemon/supervisor.rs\<close>: \<open>decide_restart\<close> in \<open>Restart\<close>; the supervisor task, one per running process,
    in \<open>Supervisor\<close> over the tasks and channels of \<open>Tasks\<close>.
  \<^item> \<open>daemon/ops.rs\<close>: \<open>start_app\<close>, \<open>launch\<close>, \<open>stop_one\<close>, \<open>restart_one\<close> and \<open>delete_one\<close> in \<open>Ops\<close>, as tasks
    with a program counter per lock section or await; many at once and \<open>scale\<close> in \<open>Batch\<close>.
  \<^item> \<open>Daemon\<close> puts supervisors, operations and everything else that runs in the daemon (the chores of
    \<open>Chores\<close>: requests answered on the spot, the worker's tick, log lines) together: \<open>dstep\<close> lets any
    task make one step, a child exit, the clock move, a request arrive or the shutdown begin; \<open>reach\<close> is
    what can come about.  The same steps as
    a function, \<open>run_moves\<close>, give the witnesses.
  \<^item> \<open>daemon/worker.rs\<close>: log rotation in \<open>Rotate\<close>, sampling, memory limits and the tick in \<open>Worker\<close>, whose
    \<open>f32\<close> arithmetic is in \<open>Floats\<close>.
  \<^item> \<open>daemon/health.rs\<close>, \<open>daemon/cron.rs\<close>, \<open>daemon/watcher.rs\<close>: the loops that restart processes on their
    own, in \<open>Background\<close>; their registration is part of \<open>Ops\<close>.
  \<^item> \<open>daemon/logs.rs\<close>: reading lines from chunks in \<open>Logs\<close>, the bus copy of a line in \<open>Utf8\<close>, the pump with
    its buffered file in \<open>Pump\<close>.
  \<^item> \<open>daemon/dump.rs\<close> in \<open>Dump\<close>; \<open>daemon/rpc.rs\<close> in \<open>Rpc\<close>; \<open>daemon/mod.rs\<close> in \<open>Serve\<close>
    (one daemon), \<open>Singleton\<close> (several, with their lock on the pid file) and \<open>Shutdown\<close> (the end of a
    daemon with all its tasks).
  \<^item> \<open>for_each_parallel\<close> over the running daemon, that is spawning an operation per id and waiting for
    all of them while everything else goes on, in \<open>Joined\<close>; a stop request and a delete request
    from \<open>dispatch\<close> to the processes and back in \<open>Awaited\<close> and \<open>Removal\<close>.
  \<^item> \<open>client.rs\<close> in \<open>Client\<close>; \<open>cli/commands.rs\<close> and \<open>cli/startup.rs\<close> in \<open>Cli\<close>, running a command and
    \<open>main.rs\<close> in \<open>Command\<close>; \<open>cli/logs.rs\<close> in \<open>Tail\<close>, \<open>Show\<close> and \<open>Follow\<close>; \<open>cli/table.rs\<close> in \<open>Show\<close>;
    \<open>monit/mod.rs\<close> in \<open>Monit\<close>.
  \<^item> The interfaces are locales: \<open>kv_map\<close> (a table with keys, two implementations), \<open>run_invariant\<close> and
    \<open>layered_invariant\<close> of \<open>Daemon\<close> (what every reachable state satisfies, one interpretation per
    invariant), \<open>ring\<close> of \<open>Ring\<close> (a buffer that keeps its newest entries, interpreted by \<open>pmr logs\<close>
    and by the terminal monitor), and \<open>halting\<close> of \<open>Halting\<close> (a condition under which no launch gets past its
    check, interpreted by a shutdown and by a stop request).
  \<^item> \<open>Conformance\<close> runs the repository's own unit tests on the model.

  \<^bold>\<open>What is proved.\<close>

  \<^item> Supervision (\<open>Supervision\<close>, \<open>Acks\<close>, \<open>Stopping\<close>, \<open>Settling\<close>, \<open>Quiet\<close>, \<open>Progress\<close>, \<open>Deletion\<close>, \<open>Attended\<close>):
    invariants of the reachable states, by rule induction, one lemma per kind of step.
    In every run each acknowledgement has one owner, a stop returns only when its supervisor has
    ended, a child is held exactly where it is handled, a supervisor that cannot move is waiting for its child, and
    one that is told to stop is gone within eight of its own steps, its child signalled and dead.
    With deletions a supervisor can outlive its row.  As long as no start is given the id of a process whose supervisor
    is still at work, there is one child per id, and a pid in the table is the child's; a run shows what happens
    when ids start over.
    In runs without deletions whose ids stay below \<open>u32::MAX\<close> (\<open>no_delete\<close>, \<open>id_room\<close>) each process with a
    supervisor has a row that leads to it, a row without one is at rest, \<open>stopping\<close> is shown without a
    supervisor only while someone is stopping, and a process that is stopped, with no operation on it under way, stays
    so until a request names it.
  \<^item> Requests over the running daemon (\<open>Wellformed\<close>, \<open>Joined\<close>, \<open>Halting\<close>, \<open>Awaited\<close>, \<open>Removal\<close>): the table is
    well formed in every run, so a list shows each process once; in runs without deletions, stops that are awaited leave
    their processes without supervisor and child, and the reply says so, unless a start or restart of them comes in
    between; in every run a delete request removes the rows it names, unless a start is given one of their ids,
    and a row goes only by a delete of it.
  \<^item> The life of the daemon: one daemon serves at a time and a shutdown (of a run without deletions) leaves no child
    behind, each under a condition on the interleaving, and each with a run that shows that the condition is needed.
  \<^item> The restart policy: the machine arithmetic refines an ideal policy, a process that keeps
    failing is given up after a known number of restarts, the backoff grows to 15 seconds from any base of 2 ms on.
  \<^item> Logs: lines do not depend on how the output is cut into chunks; each is published once, as
    well-formed UTF-8 of bounded length; without write errors each is in exactly the file that
    was open; and, here in the root, a subscriber reads one frame for each.
  \<^item> The dump: a save may be cut at any byte and what is read back is the old or the new table;
    a shutdown followed by a start keeps the table.
  \<^item> The protocol: one reply per request, in order; a client's calls are calls of \<open>dispatch\<close>,
    and so are the commands, which understand every answer; a log stream ends at the first skipped event.
  \<^item> The rest: configuration parsing and validation, target resolution, ids, rotation (which files move and when
    writers reopen), sampling field by field, health checks, scaling in both directions, the systemd unit as \<open>env\<close>
    and \<open>systemd\<close> read it, and \<open>tail_lines\<close>, which returns the last lines or, for none, nothing.

  \<^bold>\<open>Conventions and bounds.\<close>  Integers keep their width and wrap as in the release profile.  The clock,
  the environment, the file system the daemon does not write, the kernel's choices and third-party
  parsers are arguments.  Recursion is structural or has a measure; the one loop that may not end
  (\<open>tail_window\<close>) is a \<open>partial_function\<close>, so that not returning is \<open>None\<close>.  There is no fuel: sequences of
  outside events (rounds of a health check, messages of the bus, attempts to connect) are lists, and
  the replies a peer still takes are a number.  Where an operation waits for another, as
  \<open>dispatch\<close> for \<open>stop_one\<close>, the outcome of the awaited operation is an argument of the outer one; the
  interleaving itself is modelled in \<open>Daemon\<close>.

  \<^bold>\<open>Not modelled.\<close>  JSON texts (serde derives the codec: it is an argument), clap's parsing of the command
  line and its completions, comfy-table's and ratatui's layout, the sockets beneath a connection, what
  \<open>sudo\<close> and \<open>systemctl\<close> do, \<open>ensure_dirs\<close>, \<open>grow_pipe\<close>, resource limits, the warning that a home is on
  tmpfs, the text of log messages of the daemon except those of the pump, and that aborting a cron, health or watch task
  also ends a restart it has begun (the abort is recorded in \<open>c_aborted\<close>).  Memory allocation does not fail.  Durability below the
  file system (\<open>sync_all\<close>) is the assumption that one disk operation is complete before the next begins.
\<close>

section \<open>From the child's output to the subscriber\<close>

text \<open>What a subscriber to one stream of a process reads for the \<open>k\<close>-th line of its output.\<close>

definition line_frame :: "pump_env \<Rightarrow> (nat \<Rightarrow> tick) \<Rightarrow> nat \<times> string \<Rightarrow> frame" where
  "line_frame e ticks kl =
     F_event (''log:'' @ pe_stream e) (ev_of_line e ticks (fst kl, from_utf8_lossy (snd kl)))"

lemma enumerate_map: "enumerate n (map f xs) = map (\<lambda>(k, x). (k, f x)) (enumerate n xs)"
  by (induction xs arbitrary: n) auto

lemma forward_wanted:
  "length (filter (\<lambda>ev. topic_wanted topics ev \<and> target_wanted tg wanted ev) ms) \<le> sends \<Longrightarrow>
   forward topics tg wanted sends (map BEvent ms) =
     map (\<lambda>ev. F_event (ev_topic ev) ev) (filter (\<lambda>ev. topic_wanted topics ev \<and> target_wanted tg wanted ev) ms)"
proof (induction ms arbitrary: sends)
  case (Cons m ms)
  then show ?case by (cases sends) auto
qed simp

text \<open>An event of something else: another topic, or a process the subscription does not name.\<close>

definition elsewhere :: "pump_env \<Rightarrow> u32 list option \<Rightarrow> event \<Rightarrow> bool" where
  "elsewhere e wanted ev =
     (ev_topic ev \<noteq> ''log:'' @ pe_stream e
      \<or> (case (wanted, ev_pm_id ev) of (Some ids, Some i) \<Rightarrow> i \<notin> set ids \<and> ev_proc_name ev \<noteq> Some (pe_name e) | _ \<Rightarrow> False))"

lemma elsewhere_unwanted:
  "elsewhere e wanted ev \<Longrightarrow>
     \<not> (topic_wanted [''log:'' @ pe_stream e] ev \<and> target_wanted (Some (Names [pe_name e])) wanted ev)"
  by (auto simp: elsewhere_def topic_wanted_def target_wanted_def split: option.splits)

lemma filter_shuffled:
  assumes "evs \<in> shuffles xs ys" "\<And>x. x \<in> set xs \<Longrightarrow> P x" "\<And>y. y \<in> set ys \<Longrightarrow> \<not> P y"
  shows "filter P evs = xs"
proof -
  have "filter P evs \<in> shuffles (filter P xs) (filter P ys)" using assms(1) by (auto simp: filter_shuffles [symmetric])
  moreover have "filter P xs = xs" "filter P ys = []" using assms(2,3) by (auto simp: filter_id_conv filter_empty_conv)
  ultimately show ?thesis by simp
qed

lemma subscriber_frames:
  assumes "clean (rd_chunks rd)" "list_all (\<lambda>l. length l < max_line) (text_lines (left_bytes rd))"
    and "length (text_lines (left_bytes rd)) \<le> sends"
    and "evs \<in> shuffles (pu_events (pump_stream e t ticks rd disk faults)) others" "list_all (elsewhere e wanted) others"
  shows "forward [''log:'' @ pe_stream e] (Some (Names [pe_name e])) wanted sends (map BEvent evs)
    = map (\<lambda>ev. F_event (ev_topic ev) ev)
        (map (ev_of_line e ticks) (enumerate 0 (map from_utf8_lossy (text_lines (left_bytes rd)))))"
proof -
  let ?mine = "map (ev_of_line e ticks) (enumerate 0 (map from_utf8_lossy (text_lines (left_bytes rd))))"
  let ?P = "\<lambda>ev. topic_wanted [''log:'' @ pe_stream e] ev \<and> target_wanted (Some (Names [pe_name e])) wanted ev"
  have mine: "pu_events (pump_stream e t ticks rd disk faults) = ?mine"
    using pump_publishes [of e t ticks rd disk faults] lines_of_chunks [OF assms(1,2)] by simp
  have "?P ev" if "ev \<in> set ?mine" for ev
    using that by (auto simp: topic_wanted_def target_wanted_def ev_of_line_def split: option.split)
  moreover have "\<not> ?P ev" if "ev \<in> set others" for ev
    using assms(5) that elsewhere_unwanted unfolding list_all_iff by blast
  ultimately have all: "filter ?P evs = ?mine" using assms(4) unfolding mine by (intro filter_shuffled)
  then have "length (filter ?P evs) \<le> sends" using assms(3) by simp
  from forward_wanted [OF this] show ?thesis unfolding all .
qed

lemma raw_log_lines:
  "List.map_filter (log_line True False date) (map (ev_of_line e ticks) (enumerate n ls)) = map bus_line ls"
  by (induction ls arbitrary: n) (auto simp: List.map_filter_simps ev_of_line_def)



end
